(* ===== verification/Pstore_Prelude.thy ===== *)
theory Pstore_Prelude
  imports Main "HOL-Library.Word"
begin

unbundle bit_operations_syntax

text \<open>
  The vocabulary that every component theory shares.

  \<^item> names for the fixed-width integers of the C++ sources;
  \<^item> the error codes of \<^verbatim>\<open>include/pstore/support/error.hpp\<close> and the ways in which a modelled
    operation can fail;
  \<^item> a state-and-exception monad: an operation takes a state and returns either a failure or a
    result, always together with the state it leaves behind (C++ keeps the side effects made
    before a \<^verbatim>\<open>throw\<close>);
  \<^item> a weakest-precondition function for that monad, with the rules that let a proof step through
    an operation call by call;
  \<^item> generic facts about lists and words.
\<close>

section \<open>Integer types\<close>

type_synonym u8 = "8 word"
type_synonym u16 = "16 word"
type_synonym u32 = "32 word"
type_synonym u64 = "64 word"

named_theorems wp_simps \<open>rewriting a weakest precondition into those of its parts\<close>

section \<open>Errors\<close>

text \<open>The enumeration \<^verbatim>\<open>pstore::error_code\<close>, in source order.\<close>

datatype error_code =
    error_none | unknown_revision | header_corrupt | header_version_mismatch | footer_corrupt
  | index_corrupt | bad_alignment | index_not_latest_revision | unknown_process_path
  | store_closed | cannot_allocate_after_commit | bad_address | read_only_address
  | did_not_read_number_of_bytes_requested | uuid_parse_error | bad_message_part_number
  | unable_to_open_named_pipe | pipe_write_timeout

text \<open>
  The ways in which an operation can fail to return: it throws a store error
  (\<^verbatim>\<open>raise (error_code::...)\<close>), \<^verbatim>\<open>operator new\<close> throws \<^verbatim>\<open>std::bad_alloc\<close>, an
  \<^verbatim>\<open>assert\<close> does not hold, or it does something whose behaviour C++ leaves undefined
  (such as following a dangling pointer). The last two are outcomes of the model so that a theorem
  about a result also says that no assertion fires and that no access is out of bounds.
\<close>

datatype exn = Raise error_code | Bad_alloc | Assertion | Undefined

section \<open>A state and exception monad\<close>

type_synonym ('s, 'a) sx = "'s \<Rightarrow> (exn + 'a) \<times> 's"

definition sret :: "'a \<Rightarrow> ('s, 'a) sx" where
  "sret x = (\<lambda>s. (Inr x, s))"

definition sraise :: "exn \<Rightarrow> ('s, 'a) sx" where
  "sraise e = (\<lambda>s. (Inl e, s))"

definition sbind :: "('s, 'a) sx \<Rightarrow> ('a \<Rightarrow> ('s, 'b) sx) \<Rightarrow> ('s, 'b) sx" where
  "sbind m f = (\<lambda>s. case m s of (r, s') \<Rightarrow> (case r of Inl e \<Rightarrow> (Inl e, s') | Inr x \<Rightarrow> f x s'))"

definition sgets :: "('s \<Rightarrow> 'a) \<Rightarrow> ('s, 'a) sx" where
  "sgets f = (\<lambda>s. (Inr (f s), s))"

definition smodify :: "('s \<Rightarrow> 's) \<Rightarrow> ('s, unit) sx" where
  "smodify f = (\<lambda>s. (Inr (), f s))"

definition sassert :: "bool \<Rightarrow> ('s, unit) sx" where
  "sassert b = (if b then sret () else sraise Assertion)"

definition slift :: "(exn + 'a) \<Rightarrow> ('s, 'a) sx" where
  "slift r = (\<lambda>s. (r, s))"

abbreviation sseq :: "('s, unit) sx \<Rightarrow> ('s, 'b) sx \<Rightarrow> ('s, 'b) sx" where
  "sseq m n \<equiv> sbind m (\<lambda>_. n)"

text \<open>An operation that reads the state but cannot change it, as a function into \<open>exn + 'a\<close>.\<close>

definition sread :: "('s \<Rightarrow> exn + 'a) \<Rightarrow> ('s, 'a) sx" where
  "sread f = (\<lambda>s. (f s, s))"

definition rbind :: "exn + 'a \<Rightarrow> ('a \<Rightarrow> exn + 'b) \<Rightarrow> exn + 'b" where
  "rbind r f = (case r of Inl e \<Rightarrow> Inl e | Inr x \<Rightarrow> f x)"

definition rassert :: "bool \<Rightarrow> exn + unit" where
  "rassert b = (if b then Inr () else Inl Assertion)"

lemmas monad_defs =
  sret_def sraise_def sbind_def sgets_def smodify_def sassert_def slift_def sread_def

text \<open>Running an operation on a state, one constructor at a time.\<close>

named_theorems run_simps \<open>running an operation of the monad on a state\<close>

lemma sret_run [run_simps]: "sret x s = (Inr x, s)"
  by (simp add: sret_def)

lemma sraise_run [run_simps]: "sraise e s = (Inl e, s)"
  by (simp add: sraise_def)

lemma sgets_run [run_simps]: "sgets f s = (Inr (f s), s)"
  by (simp add: sgets_def)

lemma smodify_run [run_simps]: "smodify f s = (Inr (), f s)"
  by (simp add: smodify_def)

lemma sread_run [run_simps]: "sread f s = (f s, s)"
  by (simp add: sread_def)

lemma sassert_run [run_simps]: "sassert b s = (if b then Inr () else Inl Assertion, s)"
  by (simp add: sassert_def sret_def sraise_def)

lemma sbind_run [run_simps]:
  "sbind m f s = (case m s of (r, s') \<Rightarrow> (case r of Inl e \<Rightarrow> (Inl e, s') | Inr x \<Rightarrow> f x s'))"
  by (simp add: sbind_def)

lemma if_run [run_simps]: "(if b then m else n) s = (if b then m s else n s)"
  by simp

section \<open>Weakest preconditions\<close>

text \<open>
  \<open>wp m Q E s\<close>: run from \<open>s\<close>, the operation \<open>m\<close> either returns a result and a state that satisfy
  \<open>Q\<close>, or fails in a way and in a state that satisfy \<open>E\<close>. With \<open>E = (\<lambda>_ _. False)\<close> this is total
  correctness.
\<close>

definition wp :: "('s, 'a) sx \<Rightarrow> ('a \<Rightarrow> 's \<Rightarrow> bool) \<Rightarrow> (exn \<Rightarrow> 's \<Rightarrow> bool) \<Rightarrow> 's \<Rightarrow> bool" where
  "wp m Q E s = (case m s of (r, s') \<Rightarrow> (case r of Inl e \<Rightarrow> E e s' | Inr x \<Rightarrow> Q x s'))"

lemma wp_sret [wp_simps]: "wp (sret x) Q E s = Q x s"
  by (simp add: wp_def sret_def)

lemma wp_sraise [wp_simps]: "wp (sraise e) Q E s = E e s"
  by (simp add: wp_def sraise_def)

lemma wp_sbind [wp_simps]: "wp (sbind m f) Q E s = wp m (\<lambda>x. wp (f x) Q E) E s"
  by (simp add: wp_def sbind_def split: prod.splits sum.splits)

lemma wp_sgets [wp_simps]: "wp (sgets f) Q E s = Q (f s) s"
  by (simp add: wp_def sgets_def)

lemma wp_smodify [wp_simps]: "wp (smodify f) Q E s = Q () (f s)"
  by (simp add: wp_def smodify_def)

lemma wp_sassert [wp_simps]: "wp (sassert b) Q E s = (if b then Q () s else E Assertion s)"
  by (simp add: sassert_def wp_sret wp_sraise)

lemma wp_sread: "wp (sread f) Q E s = (case f s of Inl e \<Rightarrow> E e s | Inr x \<Rightarrow> Q x s)"
  by (simp add: wp_def sread_def)

lemma wp_sread_Inr [wp_simps]: "f s = Inr x \<Longrightarrow> wp (sread f) Q E s = Q x s"
  by (simp add: wp_sread)

lemma wp_mono:
  assumes "wp m Q E s"
    and "\<And>x s'. Q x s' \<Longrightarrow> Q' x s'"
    and "\<And>e s'. E e s' \<Longrightarrow> E' e s'"
  shows "wp m Q' E' s"
  using assms by (simp add: wp_def split: prod.splits sum.splits)

text \<open>Using a callee's specification in the middle of its caller.\<close>

lemma wp_call:
  assumes "wp m R E s" and "\<And>x s'. R x s' \<Longrightarrow> Q x s'"
  shows "wp m Q E s"
  using assms by (rule wp_mono)

lemma wp_conj: "wp m Q E s \<Longrightarrow> wp m Q' E s \<Longrightarrow> wp m (\<lambda>x s'. Q x s' \<and> Q' x s') E s"
  by (simp add: wp_def split: prod.splits sum.splits)

lemma wp_result:
  assumes "wp m Q E s" and "m s = (Inr x, s')"
  shows "Q x s'"
  using assms by (simp add: wp_def)

lemma wp_failure:
  assumes "wp m Q E s" and "m s = (Inl e, s')"
  shows "E e s'"
  using assms by (simp add: wp_def)

lemma wp_total: "wp m Q (\<lambda>_ _. False) s \<longleftrightarrow> (\<exists>x s'. m s = (Inr x, s') \<and> Q x s')"
  by (cases "m s"; cases "fst (m s)") (auto simp: wp_def)

section \<open>Lists\<close>

lemma nth_append_here [simp]: "(xs @ y # ys) ! length xs = y"
  by simp

lemma list_update_append_here: "(xs @ y # ys)[length xs := z] = xs @ z # ys"
  by simp

lemma split_at_index:
  assumes "i < length xs"
  obtains as bs where "xs = as @ xs ! i # bs" and "length as = i"
proof
  show "xs = take i xs @ xs ! i # drop (Suc i) xs"
    using assms by (rule id_take_nth_drop)
  show "length (take i xs) = i"
    using assms by simp
qed

text \<open>A property of the numbers below a bound, by checking each of them.\<close>

lemma bounded_check: "\<forall>n \<in> set [0..<k]. Q n \<Longrightarrow> n < k \<Longrightarrow> Q n"
  by simp

section \<open>Words\<close>

lemma unat_plus_no_wrap:
  fixes a b :: "'a::len word"
  assumes "unat a + unat b < 2 ^ LENGTH('a)"
  shows "unat (a + b) = unat a + unat b"
  using assms by (simp add: unat_word_ariths)

lemma unat_diff_no_wrap:
  fixes a b :: "'a::len word"
  assumes "b \<le> a"
  shows "unat (a - b) = unat a - unat b"
  using assms by (simp add: unat_sub)

lemma unat_ucast_up:
  fixes w :: "'a::len word"
  assumes "LENGTH('a) \<le> LENGTH('b)"
  shows "unat (ucast w :: 'b::len word) = unat w"
proof -
  have "unat w < 2 ^ LENGTH('a)"
    by (rule unsigned_less)
  also have "\<dots> \<le> 2 ^ LENGTH('b)"
    using assms by simp
  finally show ?thesis
    by (simp add: unsigned_ucast_eq take_bit_nat_eq_self)
qed

end
