(* ===== verification/Crc32.thy ===== *)
theory Crc32
  imports Pstore_Prelude
begin

unbundle bit_operations_syntax

text \<open>
  The checksum of the file header and of the transaction trailers
  (\<^verbatim>\<open>include/pstore/core/crc32.hpp\<close>, \<^verbatim>\<open>lib/core/crc32.cpp\<close>). The source works on a byte at a time
  with a table of 256 feedback terms; the reference is the one-bit shift register of the polynomial
  \<open>0xedb88320\<close> that the source's comment describes.
\<close>

section \<open>Operations\<close>

definition crc32_tab :: "u32 list" where
  "crc32_tab = [
    0x00000000, 0x77073096, 0xee0e612c, 0x990951ba, 0x076dc419, 0x706af48f, 0xe963a535, 0x9e6495a3,
    0x0edb8832, 0x79dcb8a4, 0xe0d5e91e, 0x97d2d988, 0x09b64c2b, 0x7eb17cbd, 0xe7b82d07, 0x90bf1d91,
    0x1db71064, 0x6ab020f2, 0xf3b97148, 0x84be41de, 0x1adad47d, 0x6ddde4eb, 0xf4d4b551, 0x83d385c7,
    0x136c9856, 0x646ba8c0, 0xfd62f97a, 0x8a65c9ec, 0x14015c4f, 0x63066cd9, 0xfa0f3d63, 0x8d080df5,
    0x3b6e20c8, 0x4c69105e, 0xd56041e4, 0xa2677172, 0x3c03e4d1, 0x4b04d447, 0xd20d85fd, 0xa50ab56b,
    0x35b5a8fa, 0x42b2986c, 0xdbbbc9d6, 0xacbcf940, 0x32d86ce3, 0x45df5c75, 0xdcd60dcf, 0xabd13d59,
    0x26d930ac, 0x51de003a, 0xc8d75180, 0xbfd06116, 0x21b4f4b5, 0x56b3c423, 0xcfba9599, 0xb8bda50f,
    0x2802b89e, 0x5f058808, 0xc60cd9b2, 0xb10be924, 0x2f6f7c87, 0x58684c11, 0xc1611dab, 0xb6662d3d,
    0x76dc4190, 0x01db7106, 0x98d220bc, 0xefd5102a, 0x71b18589, 0x06b6b51f, 0x9fbfe4a5, 0xe8b8d433,
    0x7807c9a2, 0x0f00f934, 0x9609a88e, 0xe10e9818, 0x7f6a0dbb, 0x086d3d2d, 0x91646c97, 0xe6635c01,
    0x6b6b51f4, 0x1c6c6162, 0x856530d8, 0xf262004e, 0x6c0695ed, 0x1b01a57b, 0x8208f4c1, 0xf50fc457,
    0x65b0d9c6, 0x12b7e950, 0x8bbeb8ea, 0xfcb9887c, 0x62dd1ddf, 0x15da2d49, 0x8cd37cf3, 0xfbd44c65,
    0x4db26158, 0x3ab551ce, 0xa3bc0074, 0xd4bb30e2, 0x4adfa541, 0x3dd895d7, 0xa4d1c46d, 0xd3d6f4fb,
    0x4369e96a, 0x346ed9fc, 0xad678846, 0xda60b8d0, 0x44042d73, 0x33031de5, 0xaa0a4c5f, 0xdd0d7cc9,
    0x5005713c, 0x270241aa, 0xbe0b1010, 0xc90c2086, 0x5768b525, 0x206f85b3, 0xb966d409, 0xce61e49f,
    0x5edef90e, 0x29d9c998, 0xb0d09822, 0xc7d7a8b4, 0x59b33d17, 0x2eb40d81, 0xb7bd5c3b, 0xc0ba6cad,
    0xedb88320, 0x9abfb3b6, 0x03b6e20c, 0x74b1d29a, 0xead54739, 0x9dd277af, 0x04db2615, 0x73dc1683,
    0xe3630b12, 0x94643b84, 0x0d6d6a3e, 0x7a6a5aa8, 0xe40ecf0b, 0x9309ff9d, 0x0a00ae27, 0x7d079eb1,
    0xf00f9344, 0x8708a3d2, 0x1e01f268, 0x6906c2fe, 0xf762575d, 0x806567cb, 0x196c3671, 0x6e6b06e7,
    0xfed41b76, 0x89d32be0, 0x10da7a5a, 0x67dd4acc, 0xf9b9df6f, 0x8ebeeff9, 0x17b7be43, 0x60b08ed5,
    0xd6d6a3e8, 0xa1d1937e, 0x38d8c2c4, 0x4fdff252, 0xd1bb67f1, 0xa6bc5767, 0x3fb506dd, 0x48b2364b,
    0xd80d2bda, 0xaf0a1b4c, 0x36034af6, 0x41047a60, 0xdf60efc3, 0xa867df55, 0x316e8eef, 0x4669be79,
    0xcb61b38c, 0xbc66831a, 0x256fd2a0, 0x5268e236, 0xcc0c7795, 0xbb0b4703, 0x220216b9, 0x5505262f,
    0xc5ba3bbe, 0xb2bd0b28, 0x2bb45a92, 0x5cb36a04, 0xc2d7ffa7, 0xb5d0cf31, 0x2cd99e8b, 0x5bdeae1d,
    0x9b64c2b0, 0xec63f226, 0x756aa39c, 0x026d930a, 0x9c0906a9, 0xeb0e363f, 0x72076785, 0x05005713,
    0x95bf4a82, 0xe2b87a14, 0x7bb12bae, 0x0cb61b38, 0x92d28e9b, 0xe5d5be0d, 0x7cdcefb7, 0x0bdbdf21,
    0x86d3d2d4, 0xf1d4e242, 0x68ddb3f8, 0x1fda836e, 0x81be16cd, 0xf6b9265b, 0x6fb077e1, 0x18b74777,
    0x88085ae6, 0xff0f6a70, 0x66063bca, 0x11010b5c, 0x8f659eff, 0xf862ae69, 0x616bffd3, 0x166ccf45,
    0xa00ae278, 0xd70dd2ee, 0x4e048354, 0x3903b3c2, 0xa7672661, 0xd06016f7, 0x4969474d, 0x3e6e77db,
    0xaed16a4a, 0xd9d65adc, 0x40df0b66, 0x37d83bf0, 0xa9bcae53, 0xdebb9ec5, 0x47b2cf7f, 0x30b5ffe9,
    0xbdbdf21c, 0xcabac28a, 0x53b39330, 0x24b4a3a6, 0xbad03605, 0xcdd70693, 0x54de5729, 0x23d967bf,
    0xb3667a2e, 0xc4614ab8, 0x5d681b02, 0x2a6f2b94, 0xb40bbe37, 0xc30c8ea1, 0x5a05df1b, 0x2d02ef8d]"

definition crc32_step :: "u32 \<Rightarrow> u8 \<Rightarrow> u32" where
  "crc32_step crc p = crc32_tab ! unat ((crc XOR ucast p) AND 0xFF) XOR drop_bit 8 crc"

definition crc32 :: "u8 list \<Rightarrow> u32" where
  "crc32 buf = foldl crc32_step 0 buf XOR NOT 0"

section \<open>The shift register\<close>

definition shift1 :: "u32 \<Rightarrow> u32" where
  "shift1 c = (if bit c 0 then drop_bit 1 c XOR 0xedb88320 else drop_bit 1 c)"

definition shift8 :: "u32 \<Rightarrow> u32" where
  "shift8 c = shift1 (shift1 (shift1 (shift1 (shift1 (shift1 (shift1 (shift1 c)))))))"

lemma shift1_xor: "shift1 (x XOR y) = shift1 x XOR shift1 y"
  by (rule bit_word_eqI) (auto simp: shift1_def bit_xor_iff bit_drop_bit_eq)

lemma shift8_xor: "shift8 (x XOR y) = shift8 x XOR shift8 y"
  by (simp add: shift8_def shift1_xor)

lemma xor_cancel_right: "x XOR k = y XOR k \<longleftrightarrow> x = (y::u32)"
  by (metis xor.assoc xor.right_neutral xor_self_eq)

lemma shift1_top: "bit (shift1 c) 31 \<longleftrightarrow> bit c 0"
  by (auto simp: shift1_def bit_xor_iff bit_drop_bit_eq impossible_bit)

lemma shift1_inject: "shift1 x = shift1 y \<Longrightarrow> x = y"
proof (rule bit_word_eqI)
  fix n assume eq: "shift1 x = shift1 y" and n: "n < LENGTH(32)"
  have low: "bit x 0 \<longleftrightarrow> bit y 0"
    using shift1_top [of x] shift1_top [of y] eq by simp
  then have "drop_bit 1 x = drop_bit 1 y"
    using eq by (auto simp: shift1_def xor_cancel_right split: if_splits)
  then have "bit x (Suc m) \<longleftrightarrow> bit y (Suc m)" for m
    by (metis bit_drop_bit_eq comp_apply plus_1_eq_Suc)
  with low show "bit x n \<longleftrightarrow> bit y n"
    by (cases n) auto
qed

lemma shift8_inject: "shift8 x = shift8 y \<Longrightarrow> x = y"
  by (simp add: shift8_def shift1_inject)

text \<open>A register whose low bits are clear is only shifted.\<close>

lemma shift1_even: "\<not> bit c 0 \<Longrightarrow> shift1 c = drop_bit 1 c"
  by (simp add: shift1_def)

lemma shift8_high: "(\<And>i. i < 8 \<Longrightarrow> \<not> bit c i) \<Longrightarrow> shift8 c = drop_bit 8 c"
  by (simp add: shift8_def shift1_even bit_drop_bit_eq numeral_eq_Suc)

text \<open>The table holds eight steps of the register for each byte.\<close>

lemma shift8_double:
  assumes "k < 32"
  shows "map (\<lambda>i. shift8 (of_nat i)) [0..<2 ^ k + 2 ^ k]
    = map (\<lambda>i. shift8 (of_nat i)) [0..<2 ^ k]
      @ map (\<lambda>x. x XOR shift8 (2 ^ k)) (map (\<lambda>i. shift8 (of_nat i)) [0..<2 ^ k])"
proof -
  have "shift8 (of_nat (i + 2 ^ k)) = shift8 (of_nat i) XOR shift8 (2 ^ k)" if "i < 2 ^ k" for i
  proof -
    have "\<not> bit i k"
      using that by (simp add: bit_iff_odd)
    then have "\<not> bit (of_nat i :: u32) k"
      by (simp add: bit_of_nat_iff)
    then have "(of_nat i :: u32) AND 2 ^ k = 0"
      by (simp add: and_exp_eq_0_iff_not_bit)
    then have "(of_nat i :: u32) + 2 ^ k = of_nat i XOR 2 ^ k"
      by (simp add: disjunctive_add_eq_or disjunctive_xor_eq_or)
    then show ?thesis
      by (simp add: shift8_xor)
  qed
  then show ?thesis
    by (simp add: upt_add_eq_append map_add_upt [symmetric] comp_def del: upt.simps)
qed

lemma crc32_tab_shift8: "crc32_tab = map (\<lambda>i. shift8 (of_nat i)) [0..<256]"
proof -
  let ?f = "\<lambda>i. shift8 (of_nat i)"
  have b: "shift8 0 = 0" "shift8 1 = 0x77073096" "shift8 2 = 0xee0e612c" "shift8 4 = 0x076dc419" "shift8 8 = 0x0edb8832"
    "shift8 16 = 0x1db71064" "shift8 32 = 0x3b6e20c8" "shift8 64 = 0x76dc4190" "shift8 128 = 0xedb88320"
    by (simp_all add: shift8_def shift1_def)
  have "map ?f [0..<2] = [0x00000000, 0x77073096]"
    using b by (simp add: numeral_2_eq_2)
  then have "map ?f [0..<4] = take 4 crc32_tab"
    using shift8_double [of 1] b by (simp add: crc32_tab_def)
  then have "map ?f [0..<8] = take 8 crc32_tab"
    using shift8_double [of 2] b by (simp add: crc32_tab_def del: upt.simps)
  then have "map ?f [0..<16] = take 16 crc32_tab"
    using shift8_double [of 3] b by (simp add: crc32_tab_def del: upt.simps)
  then have "map ?f [0..<32] = take 32 crc32_tab"
    using shift8_double [of 4] b by (simp add: crc32_tab_def del: upt.simps)
  then have "map ?f [0..<64] = take 64 crc32_tab"
    using shift8_double [of 5] b by (simp add: crc32_tab_def del: upt.simps)
  then have "map ?f [0..<128] = take 128 crc32_tab"
    using shift8_double [of 6] b by (simp add: crc32_tab_def del: upt.simps)
  then show ?thesis
    using shift8_double [of 7] b by (simp add: crc32_tab_def del: upt.simps)
qed

lemma crc32_tab_nth: "i < 256 \<Longrightarrow> crc32_tab ! i = shift8 (of_nat i)"
  by (simp add: crc32_tab_shift8)

lemma crc32_step_shift8: "crc32_step c p = shift8 (c XOR ucast p)"
proof -
  let ?x = "c XOR ucast p :: u32"
  have low: "unat (?x AND 0xFF) < 256"
  proof -
    have "?x AND 0xFF \<le> 0xFF" by (rule word_and_le1)
    then show ?thesis by (simp add: word_le_nat_alt)
  qed
  have split: "?x = (?x AND 0xFF) XOR (?x AND NOT 0xFF)"
    by (rule bit_word_eqI) (auto simp: bit_simps)
  have mask: "(0xFF::u32) = mask 8"
    by (simp add: mask_eq_exp_minus_1)
  have "shift8 (?x AND NOT 0xFF) = drop_bit 8 (?x AND NOT 0xFF)"
    by (rule shift8_high) (auto simp: mask bit_simps)
  also have "\<dots> = drop_bit 8 c"
    by (rule bit_word_eqI) (auto simp: mask bit_simps dest: bit_imp_le_length)
  finally have high: "shift8 (?x AND NOT 0xFF) = drop_bit 8 c" .
  have "shift8 ?x = shift8 (?x AND 0xFF) XOR shift8 (?x AND NOT 0xFF)"
    by (subst split) (rule shift8_xor)
  then show ?thesis
    using crc32_tab_nth [OF low] high by (simp add: crc32_step_def)
qed

section \<open>Bursts\<close>

text \<open>The register content that up to four bytes stand for.\<close>

fun register :: "u8 list \<Rightarrow> u32" where
  "register [] = 0"
| "register (b # bs) = ucast b XOR push_bit 8 (register bs)"

lemma bit_register: "8 * length bs \<le> i \<Longrightarrow> \<not> bit (register bs) i"
  by (induction bs arbitrary: i) (auto simp: bit_simps dest: bit_imp_le_length)

lemma shift8_register:
  assumes "length bs \<le> 3"
  shows "shift8 (push_bit 8 (register bs)) = register bs"
proof -
  have "shift8 (push_bit 8 (register bs)) = drop_bit 8 (push_bit 8 (register bs))"
    by (rule shift8_high) (simp add: bit_simps)
  also have "\<dots> = register bs"
  proof (rule bit_word_eqI)
    fix i assume "i < LENGTH(32)"
    have "\<not> bit (register bs) i" if "24 \<le> i"
      using assms that by (intro bit_register) simp
    then show "bit (drop_bit 8 (push_bit 8 (register bs))) i \<longleftrightarrow> bit (register bs) i"
      by (cases "24 \<le> i") (simp_all add: bit_simps)
  qed
  finally show ?thesis .
qed

lemma foldl_crc32_step_register:
  "length bs \<le> 4 \<Longrightarrow> foldl crc32_step c bs = (shift8 ^^ length bs) (c XOR register bs)"
proof (induction bs arbitrary: c)
  case (Cons b bs)
  have "foldl crc32_step c (b # bs) = (shift8 ^^ length bs) (shift8 (c XOR ucast b) XOR register bs)"
    using Cons.IH [of "crc32_step c b"] Cons.prems by (simp add: crc32_step_shift8 [of c b])
  also have "shift8 (c XOR ucast b) XOR register bs = shift8 (c XOR register (b # bs))"
    using Cons.prems shift8_register [of bs] by (simp add: shift8_xor xor.assoc)
  finally show ?case
    by (simp add: funpow_swap1)
qed simp

lemma register_inject:
  "length xs = length ys \<Longrightarrow> length xs \<le> 4 \<Longrightarrow> register xs = register ys \<Longrightarrow> xs = ys"
proof (induction xs ys rule: list_induct2)
  case (Cons x xs y ys)
  have eq: "bit (register (x # xs)) i \<longleftrightarrow> bit (register (y # ys)) i" for i
    using Cons.prems by simp
  have "bit x i \<longleftrightarrow> bit y i" if "i < 8" for i
    using eq [of i] that by (simp add: bit_simps)
  then have "x = y"
    by (intro bit_word_eqI) simp
  moreover have "bit (register xs) i \<longleftrightarrow> bit (register ys) i" for i
  proof (cases "i < 24")
    case True
    then show ?thesis
      using eq [of "i + 8"] by (auto simp: bit_simps dest: bit_imp_le_length)
  next
    case False
    then show ?thesis
      using bit_register [of xs i] bit_register [of ys i] Cons.hyps Cons.prems by auto
  qed
  then have "register xs = register ys"
    by (intro bit_word_eqI) simp
  ultimately show ?case
    using Cons by simp
qed simp

lemma funpow_shift8_inject: "(shift8 ^^ n) x = (shift8 ^^ n) y \<Longrightarrow> x = y"
  by (induction n) (auto dest: shift8_inject)

lemma foldl_crc32_step_inject: "foldl crc32_step c bs = foldl crc32_step d bs \<Longrightarrow> c = d"
proof (induction bs arbitrary: c d)
  case (Cons b bs)
  then have "crc32_step c b = crc32_step d b"
    by simp
  then show ?case
    by (auto simp: crc32_step_shift8 xor_cancel_right dest: shift8_inject)
qed simp

lemma crc32_burst:
  assumes "length xs = length ys" and "length xs \<le> 4" and "xs \<noteq> ys"
  shows "crc32 (before @ xs @ after) \<noteq> crc32 (before @ ys @ after)"
proof
  assume "crc32 (before @ xs @ after) = crc32 (before @ ys @ after)"
  then have "foldl crc32_step (foldl crc32_step 0 before) xs = foldl crc32_step (foldl crc32_step 0 before) ys"
    by (auto simp: crc32_def xor_cancel_right dest: foldl_crc32_step_inject)
  then have "foldl crc32_step 0 before XOR register xs = foldl crc32_step 0 before XOR register ys"
    using assms(1,2) by (simp add: foldl_crc32_step_register) (metis funpow_shift8_inject)
  then have "register xs = register ys"
    by (metis xor.commute xor_cancel_right)
  with assms show False
    using register_inject by blast
qed

section \<open>Properties\<close>

text \<open>
  C10. The byte-at-a-time checksum is the shift register of the polynomial \<open>0xedb88320\<close>: each
  byte is added to the register's low end and the register is stepped eight times. In particular
  all 256 entries of the table are right.
\<close>

theorem crc32_is_shift_register:
  "crc32 buf = foldl (\<lambda>c p. (shift1 ^^ 8) (c XOR ucast p)) 0 buf XOR NOT 0"
proof -
  have "crc32_step = (\<lambda>c p. (shift1 ^^ 8) (c XOR ucast p))"
    by (intro ext) (simp add: crc32_step_shift8 shift8_def numeral_eq_Suc)
  then show ?thesis
    by (simp add: crc32_def)
qed



end
