(* ===== verification/Little_Endian.thy ===== *)
theory Little_Endian
  imports Pstore_Prelude
begin

unbundle bit_operations_syntax

text \<open>
  The in-memory representation of integers: the store's files are written by little-endian hosts,
  so that an integer field of a structure is the list of its bytes, lowest first.
\<close>

definition le_bytes :: "nat \<Rightarrow> 'a::len word \<Rightarrow> u8 list" where
  "le_bytes n w = map (\<lambda>i. ucast (drop_bit (8 * i) w)) [0..<n]"

fun le_word :: "u8 list \<Rightarrow> 'a::len word" where
  "le_word [] = 0"
| "le_word (b # bs) = ucast b OR push_bit 8 (le_word bs)"

lemma length_le_bytes [simp]: "length (le_bytes n w) = n"
  by (simp add: le_bytes_def)

lemma le_bytes_Suc: "le_bytes (Suc n) w = ucast w # le_bytes n (drop_bit 8 w)"
proof -
  have "[0..<Suc n] = 0 # map Suc [0..<n]"
    by (simp add: map_Suc_upt upt_conv_Cons)
  then show ?thesis
    by (simp add: le_bytes_def ac_simps)
qed

lemma bit_le_word: "bit (le_word bs :: 'a::len word) i \<Longrightarrow> i < 8 * length bs"
proof (induction bs arbitrary: i)
  case (Cons b bs)
  show ?case
  proof (cases "i < 8")
    case False
    then have "\<not> bit (ucast b :: 'a word) i"
      by (auto simp: bit_simps dest: bit_imp_le_length)
    with Cons.prems have "bit (le_word bs :: 'a word) (i - 8)"
      by (auto simp: bit_simps)
    with Cons.IH show ?thesis
      by fastforce
  qed simp
qed simp

lemma le_word_bytes_take_bit: "le_word (le_bytes n w) = take_bit (8 * n) (w::'a::len word)"
proof (induction n arbitrary: w)
  case (Suc n)
  have "le_word (le_bytes (Suc n) w) = ucast (ucast w :: u8) OR push_bit 8 (take_bit (8 * n) (drop_bit 8 w))"
    by (simp add: le_bytes_Suc Suc)
  also have "\<dots> = take_bit (8 * Suc n) w"
    by (rule bit_word_eqI) (auto simp: bit_simps)
  finally show ?case .
qed (simp add: le_bytes_def)

lemma le_word_bytes [simp]:
  fixes w :: "'a::len word"
  assumes "LENGTH('a) \<le> 8 * n"
  shows "le_word (le_bytes n w) = w"
  using assms by (simp add: le_word_bytes_take_bit take_bit_word_eq_self)

lemma le_bytes_word [simp]:
  assumes "length bs = n" and "8 * n \<le> LENGTH('a)"
  shows "le_bytes n (le_word bs :: 'a::len word) = bs"
  using assms
proof (induction bs arbitrary: n)
  case Nil
  then show ?case by (simp add: le_bytes_def)
next
  case (Cons b bs)
  have low: "ucast (le_word (b # bs) :: 'a word) = b"
    using Cons.prems by (intro bit_word_eqI) (auto simp: bit_simps)
  have "drop_bit 8 (le_word (b # bs) :: 'a word) = le_word bs"
  proof (rule bit_word_eqI)
    fix i assume "i < LENGTH('a)"
    show "bit (drop_bit 8 (le_word (b # bs) :: 'a word)) i \<longleftrightarrow> bit (le_word bs :: 'a word) i"
    proof (cases "8 + i < LENGTH('a)")
      case True
      then show ?thesis
        by (auto simp: bit_simps dest: bit_imp_le_length)
    next
      case False
      then have "\<not> bit (le_word bs :: 'a word) i"
        using Cons.prems bit_le_word [where 'a = 'a, of bs i] by auto
      with False show ?thesis
        by (simp add: bit_simps)
    qed
  qed
  with low Cons show ?case
    by (cases n) (simp_all add: le_bytes_Suc)
qed

text \<open>Reading one field after another.\<close>

definition take_field :: "nat \<Rightarrow> u8 list \<Rightarrow> u8 list \<times> u8 list" where
  "take_field n bs = (take n bs, drop n bs)"

lemma take_field_append [simp]: "length xs = n \<Longrightarrow> take_field n (xs @ ys) = (xs, ys)"
  by (simp add: take_field_def)

end
