(* ===== verification/Bit_Count.thy ===== *)
theory Bit_Count
  imports Pstore_Prelude
begin

unbundle bit_operations_syntax

text \<open>
  Bit counting (\<^verbatim>\<open>include/pstore/support/bit_count.hpp\<close>), and the list of the positions of the
  one-bits of a word, by which the index nodes' bitmaps are explained.
\<close>

section \<open>Operations\<close>

text \<open>The positions of the one-bits, lowest first.\<close>

definition positions :: "'a::len word \<Rightarrow> nat list" where
  "positions w = filter (bit w) [0..<LENGTH('a)]"

definition pop_count :: "'a::len word \<Rightarrow> nat" where
  "pop_count w = length (positions w)"

text \<open>The compiler builtins behind \<^verbatim>\<open>clz\<close> and \<^verbatim>\<open>ctz\<close>; both assert a non-zero argument.\<close>

definition clz :: "'a::len word \<Rightarrow> nat" where
  "clz w = length (takeWhile (\<lambda>i. \<not> bit w i) (rev [0..<LENGTH('a)]))"

definition ctz :: "'a::len word \<Rightarrow> nat" where
  "ctz w = length (takeWhile (\<lambda>i. \<not> bit w i) [0..<LENGTH('a)])"

text \<open>The overloads for the two halves of a 128-bit integer.\<close>

definition clz128 :: "u64 \<Rightarrow> u64 \<Rightarrow> nat" where
  "clz128 high low = (if high \<noteq> 0 then clz high else 64 + clz low)"

definition ctz128 :: "u64 \<Rightarrow> u64 \<Rightarrow> nat" where
  "ctz128 high low = (if low = 0 then 64 + ctz high else ctz low)"

definition pop_count128 :: "u64 \<Rightarrow> u64 \<Rightarrow> nat" where
  "pop_count128 high low = pop_count high + pop_count low"

text \<open>The word \<^verbatim>\<open>1 << i\<close>.\<close>

definition one_bit :: "nat \<Rightarrow> 'a::len word" where
  "one_bit i = push_bit i 1"

section \<open>Positions\<close>

lemma set_positions: "set (positions (w::'a::len word)) = {i. i < LENGTH('a) \<and> bit w i}"
  by (auto simp: positions_def)

lemma positions_bound: "i \<in> set (positions (w::'a::len word)) \<Longrightarrow> i < LENGTH('a)"
  by (simp add: set_positions)

lemma sorted_positions: "sorted_wrt (<) (positions w)"
  unfolding positions_def by (rule sorted_wrt_filter) simp

lemma distinct_positions [simp]: "distinct (positions w)"
  by (simp add: positions_def)

lemma positions_0 [simp]: "positions 0 = []"
  by (simp add: positions_def)

lemma positions_eq_Nil_iff [simp]: "positions w = [] \<longleftrightarrow> w = 0"
  by (auto simp: positions_def filter_empty_conv intro: bit_word_eqI)

lemma pop_count_le: "pop_count (w::'a::len word) \<le> LENGTH('a)"
  unfolding pop_count_def positions_def
  by (metis diff_zero length_filter_le length_upt)

lemma pop_count_0_iff: "pop_count w = 0 \<longleftrightarrow> w = 0"
  by (simp add: pop_count_def)

text \<open>A single bit, and the mask of the bits below it.\<close>

lemma bit_one_shift: "bit (one_bit i :: 'a::len word) j \<longleftrightarrow> i = j \<and> j < LENGTH('a)"
  by (auto simp: one_bit_def bit_exp_iff)

lemma bit_mask_below:
  "bit ((one_bit i :: 'a::len word) - 1) j \<longleftrightarrow> j < i \<and> j < LENGTH('a)" if "i < LENGTH('a)"
proof -
  have "(one_bit i :: 'a word) - 1 = mask i"
    by (simp add: one_bit_def mask_eq_exp_minus_1)
  then show ?thesis
    by (auto simp: bit_mask_iff)
qed

lemma positions_below:
  fixes b :: "'a::len word"
  assumes "i < LENGTH('a)"
  shows "positions (b AND (one_bit i - 1)) = filter (\<lambda>j. j < i) (positions b)"
  using assms unfolding positions_def filter_filter
  by (intro filter_cong) (auto simp: bit_and_iff bit_mask_below)

lemma pop_count_below:
  fixes b :: "'a::len word"
  assumes "i < LENGTH('a)"
  shows "pop_count (b AND (one_bit i - 1)) = length (filter (\<lambda>j. j < i) (positions b))"
  using assms by (simp add: pop_count_def positions_below)

lemma filter_upt_less:
  "i \<le> n \<Longrightarrow> filter (\<lambda>j. j < i) [0..<n] = [0..<i]"
  by (induction n) (auto simp: le_Suc_eq)

lemma upt_split_at: "i < n \<Longrightarrow> [0..<n] = [0..<i] @ i # [Suc i..<n]"
  by (metis le0 less_imp_add_positive upt_add_eq_append upt_conv_Cons)

lemma filter_upt_split:
  assumes "i < n"
  shows "filter P [0..<n] = filter P [0..<i] @ (if P i then [i] else []) @ filter P [Suc i..<n]"
proof -
  have "[0..<n] = [0..<i] @ i # [Suc i..<n]"
    by (rule upt_split_at) fact
  then show ?thesis
    by simp
qed

lemma filter_less_positions:
  fixes b :: "'a::len word"
  assumes "i < LENGTH('a)"
  shows "filter (\<lambda>j. j < i) (positions b) = filter (bit b) [0..<i]"
proof -
  have "filter (\<lambda>j. j < i) (positions b) = filter (bit b) (filter (\<lambda>j. j < i) [0..<LENGTH('a)])"
    unfolding positions_def filter_filter by (intro filter_cong) auto
  then show ?thesis
    using assms by (simp add: filter_upt_less)
qed

text \<open>
  The bitmap of an index node: the number of one-bits below bit \<open>i\<close> is where \<open>i\<close> sits among the
  positions, or where it would be inserted.
\<close>

definition index_below :: "'a::len word \<Rightarrow> nat \<Rightarrow> nat" where
  "index_below b i = pop_count (b AND (one_bit i - 1))"

lemma positions_at:
  fixes b :: "'a::len word"
  assumes "i < LENGTH('a)" and "bit b i"
  shows "index_below b i < pop_count b" and "positions b ! index_below b i = i"
proof -
  have eq: "positions b = filter (bit b) [0..<i] @ i # filter (bit b) [Suc i..<LENGTH('a)]"
    using assms filter_upt_split [OF assms(1), of "bit b"] by (simp add: positions_def)
  have ix: "index_below b i = length (filter (bit b) [0..<i])"
    using assms(1) by (simp add: index_below_def pop_count_below filter_less_positions)
  show "index_below b i < pop_count b"
    unfolding pop_count_def ix by (subst eq) simp
  show "positions b ! index_below b i = i"
    unfolding ix by (subst eq) simp
qed

lemma positions_insert:
  fixes b :: "'a::len word"
  assumes i: "i < LENGTH('a)" and nb: "\<not> bit b i"
  shows "positions (b OR one_bit i)
         = take (index_below b i) (positions b) @ i # drop (index_below b i) (positions b)"
    and "index_below b i \<le> pop_count b"
proof -
  let ?lo = "filter (bit b) [0..<i]" and ?hi = "filter (bit b) [Suc i..<LENGTH('a)]"
  have eq: "positions b = ?lo @ ?hi"
    using nb filter_upt_split [OF i, of "bit b"] by (simp add: positions_def)
  have ix: "index_below b i = length ?lo"
    using i by (simp add: index_below_def pop_count_below filter_less_positions)
  let ?b = "b OR one_bit i"
  have "filter (bit ?b) [0..<i] = ?lo"
    by (intro filter_cong) (use i in \<open>auto simp: bit_or_iff bit_one_shift\<close>)
  moreover have "filter (bit ?b) [Suc i..<LENGTH('a)] = ?hi"
    by (intro filter_cong) (auto simp: bit_or_iff bit_one_shift)
  moreover have "bit ?b i"
    using i by (simp add: bit_or_iff bit_one_shift)
  ultimately have "positions ?b = ?lo @ i # ?hi"
    using filter_upt_split [OF i, of "bit ?b"] by (simp add: positions_def)
  then show "positions ?b = take (index_below b i) (positions b) @ i # drop (index_below b i) (positions b)"
    by (simp add: eq ix)
  show "index_below b i \<le> pop_count b"
    by (simp add: pop_count_def eq ix)
qed

lemma positions_single:
  assumes "i < LENGTH('a)"
  shows "positions (one_bit i :: 'a::len word) = [i]"
  using positions_insert(1) [of i "0::'a word"] assms by (simp add: index_below_def pop_count_def)

lemma bit_in_positions:
  fixes b :: "'a::len word"
  assumes "i < LENGTH('a)"
  shows "bit b i \<longleftrightarrow> i \<in> set (positions b)"
  using assms by (simp add: set_positions)

lemma and_single_bit_eq_0_iff:
  fixes b :: "'a::len word"
  assumes "i < LENGTH('a)"
  shows "b AND one_bit i = 0 \<longleftrightarrow> \<not> bit b i"
proof
  assume "b AND one_bit i = 0"
  then have "\<not> bit (b AND one_bit i) i" by simp
  then show "\<not> bit b i"
    using assms by (simp add: bit_and_iff bit_one_shift)
next
  assume "\<not> bit b i"
  then show "b AND one_bit i = 0"
    by (intro bit_word_eqI) (auto simp: bit_and_iff bit_one_shift)
qed

section \<open>Leading and trailing zeros\<close>

text \<open>\<^verbatim>\<open>ctz\<close> is the lowest position and \<^verbatim>\<open>clz\<close> counts down from the highest.\<close>

lemma ctz_eqI:
  fixes w :: "'a::len word"
  assumes "n < LENGTH('a)" and "bit w n" and "\<And>i. i < n \<Longrightarrow> \<not> bit w i"
  shows "ctz w = n"
proof -
  have "[0..<LENGTH('a)] = [0..<n] @ n # [Suc n..<LENGTH('a)]"
    by (rule upt_split_at) fact
  then show ?thesis
    using assms(2,3) by (simp add: ctz_def takeWhile_append)
qed

lemma clz_eqI:
  fixes w :: "'a::len word"
  assumes "n < LENGTH('a)" and "bit w n" and "\<And>i. n < i \<Longrightarrow> i < LENGTH('a) \<Longrightarrow> \<not> bit w i"
  shows "clz w = LENGTH('a) - 1 - n"
proof -
  have "[0..<LENGTH('a)] = [0..<n] @ n # [Suc n..<LENGTH('a)]"
    by (rule upt_split_at) fact
  then have "rev [0..<LENGTH('a)] = rev [Suc n..<LENGTH('a)] @ n # rev [0..<n]"
    by simp
  then show ?thesis
    using assms(2,3) by (simp add: clz_def takeWhile_append)
qed

lemma nonzero_has_high_bit:
  fixes w :: "'a::len word"
  assumes "w \<noteq> 0"
  obtains n where "n < LENGTH('a)" "bit w n" "\<And>i. n < i \<Longrightarrow> i < LENGTH('a) \<Longrightarrow> \<not> bit w i"
proof -
  have ne: "set (positions w) \<noteq> {}"
    using assms by simp
  show ?thesis
  proof (rule that [of "Max (set (positions w))"])
    have "Max (set (positions w)) \<in> set (positions w)"
      using ne by (intro Max_in) auto
    then show "Max (set (positions w)) < LENGTH('a)" and "bit w (Max (set (positions w)))"
      by (simp_all add: set_positions)
    show "\<not> bit w i" if "Max (set (positions w)) < i" and "i < LENGTH('a)" for i
    proof
      assume "bit w i"
      then have "i \<in> set (positions w)"
        using that(2) by (simp add: set_positions)
      then have "i \<le> Max (set (positions w))"
        by (intro Max_ge) auto
      with that(1) show False by simp
    qed
  qed
qed

end
