(* ===== verification/Aligned.thy ===== *)
theory Aligned
  imports Bit_Count
begin

unbundle bit_operations_syntax

text \<open>
  Alignment arithmetic on 64-bit unsigned integers (\<^verbatim>\<open>include/pstore/support/aligned.hpp\<close>) and
  rounding up to a power of two (\<^verbatim>\<open>include/pstore/support/round2.hpp\<close>).
\<close>

section \<open>Operations\<close>

definition is_power_of_two :: "u64 \<Rightarrow> bool" where
  "is_power_of_two n \<longleftrightarrow> 0 < n \<and> n AND (n - 1) = 0"

definition aligned :: "u64 \<Rightarrow> u64 \<Rightarrow> u64" where
  "aligned v align = (v + align - 1) AND NOT (align - 1)"

definition calc_alignment :: "u64 \<Rightarrow> u64 \<Rightarrow> u64" where
  "calc_alignment v align =
     (if align = 0 then 0 else ((v + align - 1) AND NOT (align - 1)) - v)"

text \<open>One step \<^verbatim>\<open>v |= v >> n\<close> of the rounding functions, and the functions themselves.\<close>

definition smear :: "nat \<Rightarrow> 'a::len word \<Rightarrow> 'a word" where
  "smear n v = v OR drop_bit n v"

definition round_to_power_of_2_u8 :: "u8 \<Rightarrow> u8" where
  "round_to_power_of_2_u8 v = smear 4 (smear 2 (smear 1 (v - 1))) + 1"

definition round_to_power_of_2_u16 :: "u16 \<Rightarrow> u16" where
  "round_to_power_of_2_u16 v = smear 8 (smear 4 (smear 2 (smear 1 (v - 1)))) + 1"

definition round_to_power_of_2_u32 :: "u32 \<Rightarrow> u32" where
  "round_to_power_of_2_u32 v = smear 16 (smear 8 (smear 4 (smear 2 (smear 1 (v - 1))))) + 1"

definition round_to_power_of_2_u64 :: "u64 \<Rightarrow> u64" where
  "round_to_power_of_2_u64 v =
     smear 32 (smear 16 (smear 8 (smear 4 (smear 2 (smear 1 (v - 1)))))) + 1"

section \<open>Powers of two\<close>

lemma and_pred_top_bit:
  fixes n :: "'a::len word"
  assumes "k < LENGTH('a)" and "bit n k" and "\<And>i. k < i \<Longrightarrow> i < LENGTH('a) \<Longrightarrow> \<not> bit n i"
    and "n AND (n - 1) = 0"
  shows "n = one_bit k"
proof (rule ccontr)
  assume ne: "n \<noteq> one_bit k"
  define m where "m = n - one_bit k"
  have disj: "n = m OR one_bit k" and m_and: "m AND one_bit k = 0"
  proof -
    have "n = (n AND NOT (one_bit k)) OR one_bit k"
      using assms(1,2) by (intro bit_word_eqI) (auto simp: bit_simps bit_one_shift)
    moreover have "(n AND NOT (one_bit k)) OR one_bit k = (n AND NOT (one_bit k)) + one_bit k"
      by (intro disjunctive_add_eq_or [symmetric] bit_word_eqI) (auto simp: bit_simps bit_one_shift)
    ultimately have m_eq: "m = n AND NOT (one_bit k)"
      unfolding m_def by (metis add_diff_cancel_right')
    with \<open>n = (n AND NOT (one_bit k)) OR one_bit k\<close> show "n = m OR one_bit k"
      by (metis m_eq)
    show "m AND one_bit k = 0"
      unfolding m_eq by (intro bit_word_eqI) (auto simp: bit_simps bit_one_shift)
  qed
  have m0: "m \<noteq> 0"
    using ne by (simp add: m_def)
  have sum: "n = m + one_bit k"
    by (simp add: m_def)
  have mlt: "unat m < 2 ^ k"
  proof -
    have "m = take_bit k m"
    proof (rule bit_word_eqI)
      fix i assume "i < LENGTH('a)"
      show "bit m i = bit (take_bit k m) i"
      proof (cases "i < k")
        case False
        have "\<not> bit m i"
        proof (cases "i = k")
          case True
          then show ?thesis
            using m_and assms(1) by (metis bit_and_iff bit_one_shift bit_0_eq bot_apply bot_bool_def)
        next
          case False
          with \<open>\<not> i < k\<close> have "\<not> bit n i"
            using assms(3) [of i] \<open>i < LENGTH('a)\<close> by simp
          then show ?thesis
            using disj by (simp add: bit_or_iff)
        qed
        with False show ?thesis by (simp add: bit_take_bit_iff)
      qed (simp add: bit_take_bit_iff)
    qed
    then have "unat m = take_bit k (unat m)"
      by (metis unsigned_take_bit_eq)
    then show ?thesis
      by (metis take_bit_nat_less_exp)
  qed
  have "bit (n - 1) k"
  proof -
    have "n - 1 = (m - 1) + one_bit k"
      by (simp add: sum)
    moreover have "(m - 1) + one_bit k = (m - 1) OR one_bit k"
    proof (rule disjunctive_add_eq_or, rule bit_word_eqI)
      fix i assume "i < LENGTH('a)"
      have "unat (m - 1) < 2 ^ k"
        using mlt m0 by (simp add: unat_minus_one)
      then have "take_bit k (m - 1) = m - 1"
        by (metis take_bit_nat_eq_self word_unat_eq_iff unsigned_take_bit_eq)
      then have "\<not> bit (m - 1) k"
        by (metis bit_take_bit_iff less_irrefl)
      then show "bit ((m - 1) AND one_bit k) i = bit 0 i"
        by (auto simp: bit_simps bit_one_shift)
    qed
    ultimately show ?thesis
      using assms(1) by (simp add: bit_or_iff bit_one_shift)
  qed
  then have "bit (n AND (n - 1)) k"
    using assms(2) by (simp add: bit_and_iff)
  with assms(4) show False by simp
qed

lemma one_bit_eq_exp: "one_bit k = (2 ^ k :: 'a::len word)"
  by (simp add: one_bit_def)

lemma unat_exp: "k < LENGTH('a) \<Longrightarrow> unat (2 ^ k :: 'a::len word) = 2 ^ k"
  using unat_of_nat [of "2 ^ k", where 'a = 'a] by simp

lemma unat_one_bit: "k < LENGTH('a) \<Longrightarrow> unat (one_bit k :: 'a::len word) = 2 ^ k"
  by (simp add: one_bit_def unat_exp)

lemma is_power_of_two_iff: "is_power_of_two n \<longleftrightarrow> (\<exists>k < 64. n = one_bit k)"
proof
  assume "is_power_of_two n"
  then have n0: "n \<noteq> 0" and a: "n AND (n - 1) = 0"
    by (auto simp: is_power_of_two_def)
  from n0 obtain k where k: "k < LENGTH(64)" "bit n k"
    and above: "\<And>i. k < i \<Longrightarrow> i < LENGTH(64) \<Longrightarrow> \<not> bit n i"
    using nonzero_has_high_bit [of n] by blast
  from k above a have "n = one_bit k"
    by (rule and_pred_top_bit)
  with \<open>k < LENGTH(64)\<close> show "\<exists>k < 64. n = one_bit k" by auto
next
  assume "\<exists>k < 64. n = one_bit k"
  then obtain k where k: "k < 64" "n = one_bit k" by blast
  have "n AND (n - 1) = 0"
    using k by (intro bit_word_eqI) (auto simp: bit_and_iff bit_one_shift bit_mask_below)
  moreover have "0 < n"
    using k unat_one_bit [of k, where 'a = 64] by (simp add: word_less_nat_alt)
  ultimately show "is_power_of_two n"
    by (simp add: is_power_of_two_def)
qed

section \<open>Rounding up to a multiple\<close>

lemma and_not_mask_below:
  fixes v :: u64
  assumes "k < 64"
  shows "v AND NOT (one_bit k - 1) = v - take_bit k v"
proof -
  have m: "(one_bit k :: u64) - 1 = mask k"
    by (simp add: one_bit_def mask_eq_exp_minus_1)
  have "(v AND NOT (mask k)) + take_bit k v = (v AND NOT (mask k)) OR take_bit k v"
    by (intro disjunctive_add_eq_or bit_word_eqI) (auto simp: bit_simps)
  also have "\<dots> = v"
    by (intro bit_word_eqI) (auto simp: bit_simps)
  finally show ?thesis
    by (simp add: m eq_diff_eq)
qed

lemma unat_and_not_mask_below:
  fixes v :: u64
  assumes "k < 64"
  shows "unat (v AND NOT (one_bit k - 1)) = unat v div 2 ^ k * 2 ^ k"
proof -
  have le: "take_bit k v \<le> v"
    by (simp add: word_le_nat_alt unsigned_take_bit_eq take_bit_nat_less_eq_self)
  have "unat (take_bit k v) = unat v mod 2 ^ k"
    by (subst unsigned_take_bit_eq) (simp only: take_bit_eq_mod)
  then have "unat (v - take_bit k v) = unat v - unat v mod 2 ^ k"
    using unat_diff_no_wrap [OF le] by simp
  then show ?thesis
    using assms by (simp add: and_not_mask_below minus_mod_eq_div_mult)
qed

text \<open>
  The next multiple of \<open>2 ^ k\<close>: at least \<open>v\<close>, at most \<open>2 ^ k - 1\<close> above it.
\<close>

definition round_up_nat :: "nat \<Rightarrow> nat \<Rightarrow> nat" where
  "round_up_nat n a = (n + a - 1) div a * a"

lemma round_up_nat_spec:
  assumes "0 < a"
  shows "n \<le> round_up_nat n a" and "round_up_nat n a < n + a" and "a dvd round_up_nat n a"
proof -
  have *: "(n + a - 1) div a * a + (n + a - 1) mod a = n + a - 1"
    by simp
  have "(n + a - 1) mod a < a"
    using assms by simp
  with * assms show "n \<le> round_up_nat n a" and "round_up_nat n a < n + a"
    unfolding round_up_nat_def by linarith+
  show "a dvd round_up_nat n a"
    by (simp add: round_up_nat_def)
qed

lemma round_up_nat_fixed: "a dvd n \<Longrightarrow> 0 < a \<Longrightarrow> round_up_nat n a = n"
proof -
  assume "a dvd n" and a: "0 < a"
  then obtain q where "n = a * q" by blast
  moreover have "(a * q + (a - 1)) div a = q"
    using a by (intro div_nat_eqI) (simp_all add: mult.commute)
  ultimately show "round_up_nat n a = n"
    using a by (simp add: round_up_nat_def mult.commute)
qed

lemma round_up_nat_least:
  assumes "0 < a" and "a dvd m" and "n \<le> m"
  shows "round_up_nat n a \<le> m"
proof -
  obtain q where m: "m = a * q" using assms(2) by blast
  have "(n + a - 1) div a \<le> q"
  proof (rule ccontr)
    assume "\<not> (n + a - 1) div a \<le> q"
    then have "(q + 1) * a \<le> (n + a - 1) div a * a"
      by (intro mult_le_mono1) simp
    also have "\<dots> \<le> n + a - 1"
      by simp
    finally show False
      using assms m by (simp add: algebra_simps)
  qed
  then show ?thesis
    by (simp add: round_up_nat_def m)
qed

lemma unat_aligned:
  assumes "k < 64" and "unat v + 2 ^ k \<le> 2 ^ 64"
  shows "unat (aligned v (one_bit k)) = round_up_nat (unat v) (2 ^ k)"
proof -
  have "unat (v + (one_bit k - 1)) = unat v + (2 ^ k - 1)"
  proof (subst unat_plus_no_wrap)
    have "unat ((one_bit k :: u64) - 1) = 2 ^ k - 1"
      using assms(1) by (subst unat_diff_no_wrap) (simp_all add: unat_one_bit word_le_nat_alt)
    then show "unat v + unat ((one_bit k :: u64) - 1) < 2 ^ LENGTH(64)"
      and "unat v + unat ((one_bit k :: u64) - 1) = unat v + (2 ^ k - 1)"
      using assms by auto
  qed
  then show ?thesis
    using assms(1) unat_and_not_mask_below [of k "v + (one_bit k - 1)"]
    by (simp add: aligned_def round_up_nat_def algebra_simps)
qed

lemma calc_alignment_eq_aligned: "align \<noteq> 0 \<Longrightarrow> calc_alignment v align = aligned v align - v"
  by (simp add: calc_alignment_def aligned_def)

lemma one_bit_neq_0: "k < 64 \<Longrightarrow> (one_bit k :: u64) \<noteq> 0"
  using unat_one_bit [of k, where 'a = 64] by auto

lemma unat_calc_alignment:
  assumes "k < 64" and "unat v + 2 ^ k \<le> 2 ^ 64"
  shows "unat (calc_alignment v (one_bit k)) = round_up_nat (unat v) (2 ^ k) - unat v"
proof -
  have "v \<le> aligned v (one_bit k)"
    using assms by (simp add: word_le_nat_alt unat_aligned round_up_nat_spec)
  then show ?thesis
    using assms by (simp add: calc_alignment_eq_aligned one_bit_neq_0 unat_diff_no_wrap unat_aligned)
qed

section \<open>Rounding up to a power of two\<close>

text \<open>
  After the steps \<^verbatim>\<open>v |= v >> 1; v |= v >> 2; ...\<close> a bit is set exactly when one of the
  \<open>d\<close> bits of the original value that start there is set; each step doubles \<open>d\<close>.
\<close>

definition covers :: "'a::len word \<Rightarrow> nat \<Rightarrow> 'a word \<Rightarrow> bool" where
  "covers v d w \<longleftrightarrow> (\<forall>i. bit w i \<longleftrightarrow> (\<exists>j. i \<le> j \<and> j < i + d \<and> bit v j))"

lemma covers_self: "covers v 1 v"
  by (auto simp: covers_def less_Suc_eq_le intro: le_antisym)

lemma covers_smear:
  assumes "covers v d w" and "n \<le> d"
  shows "covers v (d + n) (smear n w)"
  unfolding covers_def
proof
  fix i
  have "bit (smear n w) i \<longleftrightarrow> bit w i \<or> bit w (i + n)"
    by (auto simp: smear_def bit_simps add.commute)
  also have "\<dots> \<longleftrightarrow> (\<exists>j. i \<le> j \<and> j < i + (d + n) \<and> bit v j)" (is "?l \<longleftrightarrow> ?r")
  proof
    assume ?l
    then show ?r
      using assms(1) unfolding covers_def by fastforce
  next
    assume ?r
    then obtain j where j: "i \<le> j" "j < i + (d + n)" "bit v j" by blast
    show ?l
    proof (cases "j < i + d")
      case True
      with j assms(1) show ?thesis unfolding covers_def by blast
    next
      case False
      with j assms(2) have "i + n \<le> j" "j < i + n + d" by simp_all
      with j(3) assms(1) show ?thesis unfolding covers_def by blast
    qed
  qed
  finally show "bit (smear n w) i \<longleftrightarrow> (\<exists>j. i \<le> j \<and> j < i + (d + n) \<and> bit v j)" .
qed

lemma covers_all:
  fixes v w :: "'a::len word"
  assumes "covers v LENGTH('a) w" and "k < LENGTH('a)" and "bit v k"
    and "\<And>i. k < i \<Longrightarrow> i < LENGTH('a) \<Longrightarrow> \<not> bit v i"
  shows "w = mask (Suc k)"
proof (rule bit_word_eqI)
  fix i assume i: "i < LENGTH('a)"
  have "bit w i \<longleftrightarrow> (\<exists>j. i \<le> j \<and> j < i + LENGTH('a) \<and> bit v j)"
    using assms(1) by (simp add: covers_def)
  also have "\<dots> \<longleftrightarrow> i \<le> k"
  proof
    assume "\<exists>j. i \<le> j \<and> j < i + LENGTH('a) \<and> bit v j"
    then obtain j where "i \<le> j" "bit v j" by blast
    then have "\<not> k < j"
      using assms(4) [of j] bit_imp_le_length by blast
    with \<open>i \<le> j\<close> show "i \<le> k" by simp
  next
    assume "i \<le> k"
    with assms(2,3) show "\<exists>j. i \<le> j \<and> j < i + LENGTH('a) \<and> bit v j" by auto
  qed
  finally show "bit w i = bit (mask (Suc k) :: 'a word) i"
    using i by (auto simp: bit_mask_iff less_Suc_eq_le)
qed

lemma high_bit_bounds:
  fixes v :: "'a::len word"
  assumes "k < LENGTH('a)" and "bit v k" and "\<And>i. k < i \<Longrightarrow> i < LENGTH('a) \<Longrightarrow> \<not> bit v i"
  shows "2 ^ k \<le> unat v" and "unat v < 2 ^ Suc k"
proof -
  show "2 ^ k \<le> unat v"
  proof -
    have "bit (unat v) k"
      using assms(2) by (simp add: bit_unsigned_iff)
    then have "0 < unat v div 2 ^ k"
      by (metis bit_iff_odd even_zero not_gr_zero)
    then show ?thesis
      using div_greater_zero_iff by blast
  qed
  have "v = take_bit (Suc k) v"
  proof (rule bit_word_eqI)
    fix i assume "i < LENGTH('a)"
    then show "bit v i = bit (take_bit (Suc k) v) i"
      using assms(3) [of i] by (cases "k < i") (auto simp: bit_take_bit_iff)
  qed
  then have "unat v = take_bit (Suc k) (unat v)"
    by (metis unsigned_take_bit_eq)
  then show "unat v < 2 ^ Suc k"
    by (metis take_bit_nat_less_exp)
qed

text \<open>The least power of two that is at least \<open>v\<close>.\<close>

lemma smeared_plus_1:
  fixes v w :: "'a::len word"
  assumes cov: "covers (v - 1) LENGTH('a) w" and v1: "1 \<le> unat v" and v2: "unat v \<le> 2 ^ (LENGTH('a) - 1)"
  shows "\<exists>k < LENGTH('a). unat (w + 1) = 2 ^ k \<and> unat v \<le> 2 ^ k \<and> 2 ^ k < 2 * unat v"
proof (cases "v = 1")
  case True
  then have "w = 0"
    using cov by (intro bit_word_eqI) (auto simp: covers_def)
  then show ?thesis
    using True by (intro exI [of _ 0]) simp
next
  case False
  have um: "unat (v - 1) = unat v - 1"
    using v1 by (subst unat_diff_no_wrap) (simp_all add: word_le_nat_alt)
  have "v - 1 \<noteq> 0"
    using False by simp
  then obtain k where k: "k < LENGTH('a)" "bit (v - 1) k"
    and above: "\<And>i. k < i \<Longrightarrow> i < LENGTH('a) \<Longrightarrow> \<not> bit (v - 1) i"
    using nonzero_has_high_bit [of "v - 1"] by blast
  have lo: "2 ^ k \<le> unat v - 1" and hi: "unat v - 1 < 2 ^ Suc k"
    using high_bit_bounds [OF k above] by (simp_all add: um)
  have "k < LENGTH('a) - 1"
  proof (rule ccontr)
    assume "\<not> k < LENGTH('a) - 1"
    then have "(2::nat) ^ (LENGTH('a) - 1) \<le> 2 ^ k" by simp
    with lo v1 v2 show False by linarith
  qed
  then have k': "Suc k < LENGTH('a)" by simp
  have "w = mask (Suc k)"
    using cov k above by (rule covers_all)
  then have "w + 1 = 2 ^ Suc k"
    by (simp add: mask_eq_exp_minus_1)
  then have "unat (w + 1) = 2 ^ Suc k"
    using unat_exp [OF k'] by simp
  then show ?thesis
    using lo hi v1 k' by (intro exI [of _ "Suc k"]) auto
qed

lemma covers_smear_8: "covers v 8 (smear 4 (smear 2 (smear 1 v)))"
  using covers_smear [OF covers_smear [OF covers_smear [OF covers_self [of v], of 1], of 2], of 4]
  by simp

lemma covers_smear_16: "covers v 16 (smear 8 (smear 4 (smear 2 (smear 1 v))))"
  using covers_smear [OF covers_smear_8 [of v], of 8] by simp

lemma covers_smear_32: "covers v 32 (smear 16 (smear 8 (smear 4 (smear 2 (smear 1 v)))))"
  using covers_smear [OF covers_smear_16 [of v], of 16] by simp

lemma covers_smear_64: "covers v 64 (smear 32 (smear 16 (smear 8 (smear 4 (smear 2 (smear 1 v))))))"
  using covers_smear [OF covers_smear_32 [of v], of 32] by simp

section \<open>Properties\<close>





end
