(* ===== verification/Address.thy ===== *)
theory Address
  imports Aligned
begin

unbundle bit_operations_syntax

text \<open>
  Store addresses (\<^verbatim>\<open>include/pstore/core/address.hpp\<close>). An address is one 64-bit integer; its
  low 22 bits are the offset within a segment and the 16 bits above them the segment number. A
  typed address adds the scaling by \<^verbatim>\<open>sizeof (T)\<close>, which is an argument here, and an extent is a
  typed address with a size in bytes. The \<^verbatim>\<open>assert\<close>s of the checked operators are outcomes.
\<close>

section \<open>Addresses\<close>

type_synonym address = u64

definition offset_number_bits :: nat where "offset_number_bits = 22"
definition segment_number_bits :: nat where "segment_number_bits = 16"

definition max_offset :: u32 where
  "max_offset = push_bit offset_number_bits 1 - 1"

definition max_segment :: u16 where
  "max_segment = ucast (push_bit segment_number_bits (1::u32) - 1)"

definition segment_size :: u64 where
  "segment_size = ucast max_offset + 1"

definition as_absolute :: "u16 \<Rightarrow> u32 \<Rightarrow> exn + u64" where
  "as_absolute seg off =
     rbind (rassert ((ucast seg :: u64) \<le> ucast max_segment + 1)) (\<lambda>_.
     rbind (rassert ((ucast off :: u64) \<le> ucast max_offset + 1)) (\<lambda>_.
     Inr (push_bit offset_number_bits (ucast seg) OR ucast off)))"

definition address_null :: address where
  "address_null = 0"

definition address_max :: address where
  "address_max = push_bit offset_number_bits (ucast max_segment) OR ucast max_offset"

definition segment :: "address \<Rightarrow> u16" where
  "segment a = ucast (drop_bit offset_number_bits a AND ucast max_segment)"

definition offset :: "address \<Rightarrow> u32" where
  "offset a = ucast (a AND ucast max_offset)"

text \<open>The compound assignments and the binary operators.\<close>

definition address_add_assign :: "address \<Rightarrow> u64 \<Rightarrow> exn + address" where
  "address_add_assign a distance =
     rbind (rassert (a \<le> (- 1) - distance)) (\<lambda>_. Inr (a + distance))"

definition address_sub_assign :: "address \<Rightarrow> u64 \<Rightarrow> exn + address" where
  "address_sub_assign a distance = rbind (rassert (distance \<le> a)) (\<lambda>_. Inr (a - distance))"

definition address_preinc :: "address \<Rightarrow> exn + address" where
  "address_preinc a = address_add_assign a 1"

definition address_predec :: "address \<Rightarrow> exn + address" where
  "address_predec a = address_sub_assign a 1"

definition address_minus :: "address \<Rightarrow> u64 \<Rightarrow> exn + address" where
  "address_minus lhs rhs = rbind (rassert (rhs \<le> lhs)) (\<lambda>_. Inr (lhs - rhs))"

definition address_plus :: "address \<Rightarrow> u64 \<Rightarrow> address" where
  "address_plus lhs rhs = lhs + rhs"

definition address_or :: "address \<Rightarrow> u64 \<Rightarrow> address" where
  "address_or lhs rhs = lhs OR rhs"

section \<open>Typed addresses\<close>

text \<open>\<open>sz\<close> is \<^verbatim>\<open>sizeof (T)\<close> of the pointee type.\<close>

definition typed_add_assign :: "u64 \<Rightarrow> address \<Rightarrow> u64 \<Rightarrow> exn + address" where
  "typed_add_assign sz a distance = address_add_assign a (distance * sz)"

definition typed_sub_assign :: "u64 \<Rightarrow> address \<Rightarrow> u64 \<Rightarrow> exn + address" where
  "typed_sub_assign sz a distance = address_sub_assign a (distance * sz)"

definition typed_minus :: "u64 \<Rightarrow> address \<Rightarrow> u64 \<Rightarrow> exn + address" where
  "typed_minus sz lhs rhs =
     (let delta = rhs * sz in
      rbind (rassert (delta \<le> lhs)) (\<lambda>_. address_minus lhs delta))"

definition typed_plus :: "u64 \<Rightarrow> address \<Rightarrow> u64 \<Rightarrow> address" where
  "typed_plus sz lhs rhs = lhs + rhs * sz"

section \<open>Extents\<close>

datatype extent = Extent (ext_addr: address) (ext_size: u64)

definition extent_eq :: "extent \<Rightarrow> extent \<Rightarrow> bool" where
  "extent_eq lhs rhs \<longleftrightarrow> ext_addr lhs = ext_addr rhs \<and> ext_size lhs = ext_size rhs"

definition extent_less :: "extent \<Rightarrow> extent \<Rightarrow> bool" where
  "extent_less lhs rhs \<longleftrightarrow>
     ext_addr lhs < ext_addr rhs \<or> (ext_addr lhs = ext_addr rhs \<and> ext_size lhs < ext_size rhs)"

definition extent_less_eq :: "extent \<Rightarrow> extent \<Rightarrow> bool" where
  "extent_less_eq lhs rhs \<longleftrightarrow> \<not> extent_less rhs lhs"

text \<open>The comparison operators of \<^verbatim>\<open>extent\<close> make it a linear order.\<close>

instantiation extent :: linorder
begin

definition less_extent :: "extent \<Rightarrow> extent \<Rightarrow> bool" where
  "less_extent = extent_less"

definition less_eq_extent :: "extent \<Rightarrow> extent \<Rightarrow> bool" where
  "less_eq_extent = extent_less_eq"

instance
proof
  fix x y z :: extent
  show "(x < y) = (x \<le> y \<and> \<not> y \<le> x)"
    by (auto simp: less_extent_def less_eq_extent_def extent_less_def extent_less_eq_def)
  show "x \<le> x"
    by (simp add: less_eq_extent_def extent_less_def extent_less_eq_def)
  show "x \<le> y \<Longrightarrow> y \<le> z \<Longrightarrow> x \<le> z"
    by (auto simp: less_eq_extent_def extent_less_def extent_less_eq_def)
  show "x \<le> y \<Longrightarrow> y \<le> x \<Longrightarrow> x = y"
    by (cases x; cases y) (auto simp: less_eq_extent_def extent_less_def extent_less_eq_def)
  show "x \<le> y \<or> y \<le> x"
    by (auto simp: less_eq_extent_def extent_less_def extent_less_eq_def)
qed

end

section \<open>Segment and offset\<close>

lemma max_offset_eq: "max_offset = 0x3FFFFF"
  by (simp add: max_offset_def offset_number_bits_def)

lemma max_segment_eq: "max_segment = 0xFFFF"
  by (simp add: max_segment_def segment_number_bits_def)

lemma segment_size_eq: "segment_size = 0x400000"
  by (simp add: segment_size_def max_offset_eq)

lemmas address_consts = max_offset_eq max_segment_eq segment_size_eq offset_number_bits_def

lemma segment_mask: "(0xFFFF :: u64) = mask 16" and offset_mask: "(0x3FFFFF :: u64) = mask 22"
  by (simp_all add: mask_eq_exp_minus_1)

lemma segment_eq: "segment a = ucast (take_bit 16 (drop_bit 22 a))"
  by (simp only: segment_def address_consts take_bit_eq_mask flip: segment_mask) simp

lemma offset_eq: "offset a = ucast (take_bit 22 a)"
  by (simp only: offset_def address_consts take_bit_eq_mask flip: offset_mask) simp

lemma unat_segment: "unat (segment a) = unat a div 2 ^ 22 mod 2 ^ 16"
  by (simp only: segment_eq unsigned_ucast_eq unsigned_take_bit_eq unat_drop_bit_eq)
    (simp add: drop_bit_eq_div take_bit_eq_mod)

lemma unat_offset: "unat (offset a) = unat a mod 2 ^ 22"
  by (simp only: offset_eq unsigned_ucast_eq unsigned_take_bit_eq)
    (simp add: take_bit_eq_mod mod_mod_cancel)

lemma unat_segment_size: "unat segment_size = 2 ^ 22"
  by (simp add: segment_size_eq)

lemma as_absolute_Inr:
  assumes "off \<le> max_offset"
  shows "as_absolute seg off = Inr (push_bit 22 (ucast seg) OR ucast off)"
proof -
  have "(ucast seg :: u64) \<le> ucast max_segment + 1"
  proof -
    have "unat (ucast seg :: u64) = unat seg"
      by (simp add: unat_ucast_up)
    also have "\<dots> < 2 ^ 16"
      using unsigned_less [of seg] by simp
    finally show ?thesis
      by (simp add: word_le_nat_alt max_segment_eq)
  qed
  moreover have "(ucast off :: u64) \<le> ucast max_offset + 1"
    using assms by (simp add: word_le_nat_alt max_offset_eq unat_ucast_up)
  ultimately show ?thesis
    by (simp add: as_absolute_def rbind_def rassert_def offset_number_bits_def)
qed

lemma unat_as_absolute:
  assumes "as_absolute seg off = Inr a" and "off \<le> max_offset"
  shows "unat a = unat seg * 2 ^ 22 + unat off"
proof -
  have off: "unat off < 2 ^ 22"
    using assms(2) by (simp add: word_le_nat_alt max_offset_eq)
  have seg: "unat seg < 2 ^ 16"
    using unsigned_less [of seg] by simp
  have a: "a = push_bit 22 (ucast seg) OR ucast off"
    using assms by (simp add: as_absolute_Inr)
  have "take_bit 22 (ucast off :: u64) = ucast off"
    using off by (metis take_bit_nat_eq_self unsigned_ucast_eq word_unat_eq_iff unsigned_take_bit_eq
        take_bit_take_bit)
  then have "push_bit 22 (ucast seg :: u64) AND ucast off = 0"
    by (metis (no_types) bit_word_eqI bit_and_iff bit_push_bit_iff bit_take_bit_iff leD bit_0_eq
        bot_apply bot_bool_def)
  then have "a = push_bit 22 (ucast seg) + ucast off"
    by (simp add: a disjunctive_add_eq_or)
  moreover have "unat (push_bit 22 (ucast seg :: u64)) = unat seg * 2 ^ 22"
    using seg by (simp add: push_bit_eq_mult unat_word_ariths unat_ucast_up mult.commute)
  moreover have "unat (ucast off :: u64) = unat off"
    by (simp add: unat_ucast_up)
  ultimately show ?thesis
    using off seg by (simp add: unat_plus_no_wrap)
qed

section \<open>Properties\<close>

text \<open>
  C18. Splitting an address into segment and offset and rebuilding it is the identity in both
  directions: every address up to \<^verbatim>\<open>address::max ()\<close> is rebuilt from its parts, and a segment
  and an offset of at most \<^verbatim>\<open>max_offset\<close> are read back from the address made of them.
\<close>

theorem address_segment_offset_roundtrip:
  "(a \<le> address_max \<longrightarrow> as_absolute (segment a) (offset a) = Inr a)
   \<and> (off \<le> max_offset \<longrightarrow>
       (\<exists>b. as_absolute seg off = Inr b \<and> segment b = seg \<and> offset b = off \<and> b \<le> address_max))"
proof (intro conjI impI)
  have amax: "unat address_max = 2 ^ 38 - 1"
    by (simp add: address_max_def address_consts)
  show "as_absolute (segment a) (offset a) = Inr a" if "a \<le> address_max"
  proof -
    have lt: "unat a < 2 ^ 38"
      using that amax by (simp add: word_le_nat_alt)
    have o: "offset a \<le> max_offset"
      by (simp add: word_le_nat_alt unat_offset max_offset_eq less_Suc_eq_le [symmetric])
    then obtain b where b: "as_absolute (segment a) (offset a) = Inr b"
      by (simp add: as_absolute_Inr)
    then have "unat b = unat a div 2 ^ 22 mod 2 ^ 16 * 2 ^ 22 + unat a mod 2 ^ 22"
      using o by (simp add: unat_as_absolute unat_segment unat_offset)
    also have "\<dots> = unat a"
      using lt by (simp add: less_mult_imp_div_less)
    finally show ?thesis
      using b by (simp add: word_unat_eq_iff)
  qed
  show "\<exists>b. as_absolute seg off = Inr b \<and> segment b = seg \<and> offset b = off \<and> b \<le> address_max"
    if off: "off \<le> max_offset"
  proof -
    obtain b where b: "as_absolute seg off = Inr b"
      using off by (simp add: as_absolute_Inr)
    have eq: "unat b = unat seg * 2 ^ 22 + unat off"
      using b off by (rule unat_as_absolute)
    have lt: "unat off < 2 ^ 22" "unat seg < 2 ^ 16"
      using off unsigned_less [of seg] by (simp_all add: word_le_nat_alt max_offset_eq)
    have "segment b = seg" and "offset b = off" and "b \<le> address_max"
      using lt by (simp_all add: word_unat_eq_iff unat_segment unat_offset eq word_le_nat_alt amax)
    with b show ?thesis by blast
  qed
qed

theorem address_segment_offset_roundtrip_witness:
  "as_absolute (segment 0x1400003) (offset 0x1400003) = Inr 0x1400003"
  using address_segment_offset_roundtrip [where a = "0x1400003"] by (simp add: address_max_def address_consts)

end
