(* ===== verification/Storage.thy ===== *)
theory Storage
  imports Address
begin

unbundle bit_operations_syntax

text \<open>
  The memory-mapped storage under a database: the regions that map a file
  (\<^verbatim>\<open>include/pstore/core/region.hpp\<close>, \<^verbatim>\<open>lib/core/region.cpp\<close>) and the segment address table
  that turns an address into a pointer (\<^verbatim>\<open>include/pstore/core/storage.hpp\<close>,
  \<^verbatim>\<open>lib/core/storage.cpp\<close>).

  A region is known by the identity of its mapping, and a pointer into it is that identity with a
  byte index; a null \<^verbatim>\<open>shared_ptr\<close> is \<open>None\<close>. The contents of the file are a function from
  byte positions to bytes, and a region shows the bytes from its offset on. The
  region sizes are those that \<^verbatim>\<open>storage\<close> passes to its factory. Failures of the operating system
  (a file that cannot be extended, a mapping that is refused) are not modelled.
\<close>

section \<open>Regions\<close>

text \<open>A \<^verbatim>\<open>memory_mapper_base\<close>: \<open>data\<close> is the identity of the mapped memory.\<close>

record region =
  data :: nat
  r_offset :: u64
  r_size :: u64

definition region_end :: "region \<Rightarrow> u64" where
  "region_end r = r_offset r + r_size r"

type_synonym pointer = "nat \<times> nat"

record sat_entry =
  sat_value :: "pointer option"
  sat_region :: "region option"

definition null_entry :: sat_entry where
  "null_entry = \<lparr>sat_value = None, sat_region = None\<rparr>"

definition sat_elements :: nat where
  "sat_elements = unat max_segment + 1"

definition full_region_size :: u64 where
  "full_region_size = push_bit 32 1"

definition min_region_size :: u64 where
  "min_region_size = push_bit 22 1"

text \<open>
  The state of a \<^verbatim>\<open>storage\<close> object: its regions, its segment address table (indexes from
  \<open>sat_elements\<close> on are outside of the array), the size of its file, and the number of mappings
  made so far, from which the next mapping takes its identity.
\<close>

record storage =
  regions :: "region list"
  sat :: "nat \<Rightarrow> sat_entry"
  file_size :: u64
  mappings :: nat

definition round_up :: "u64 \<Rightarrow> u64 \<Rightarrow> u64" where
  "round_up x y = (x + y - 1) div y * y"

definition small_files_enabled :: bool where
  "small_files_enabled = False"

subsection \<open>The region builder and the factory\<close>

definition region_push :: "u64 \<Rightarrow> u64 \<Rightarrow> (storage, unit) sx" where
  "region_push off sz =
     sseq (sassert (min_region_size \<le> sz))
       (smodify (\<lambda>s. s\<lparr>regions := regions s @ [\<lparr>data = mappings s, r_offset = off, r_size = sz\<rparr>],
                         mappings := Suc (mappings s)\<rparr>))"

lemma full_region_size_pos: "0 < full_region_size"
  by (simp add: full_region_size_def)

text \<open>The loop of \<^verbatim>\<open>region_builder::append\<close>.\<close>

function append_loop :: "u64 \<Rightarrow> u64 \<Rightarrow> (storage, unit) sx" where
  "append_loop off bytes_to_map =
     (if 0 < bytes_to_map
      then let sz = min full_region_size bytes_to_map in
           sseq (region_push off sz) (append_loop (off + full_region_size) (bytes_to_map - sz))
      else sret ())"
  by pat_completeness auto

termination
proof (relation "measure (\<lambda>(off, b). unat b)", goal_cases)
  case 1
  show ?case by simp
next
  case (2 off b sz)
  then have "0 < unat sz" and "sz \<le> b"
    using full_region_size_pos by (auto simp: min_def word_less_nat_alt)
  then show ?case
    using 2(1) by (simp add: unat_diff_no_wrap word_less_nat_alt)
qed

fun contiguous_from :: "u64 \<Rightarrow> region list \<Rightarrow> bool" where
  "contiguous_from p [] = True"
| "contiguous_from p (r # rs) = (r_offset r = p \<and> contiguous_from (p + r_size r) rs)"

definition check_regions_are_contiguous :: "(storage, unit) sx" where
  "check_regions_are_contiguous =
     sbind (sgets regions) (\<lambda>rs. sassert (contiguous_from 0 rs))"

definition builder_append :: "u64 \<Rightarrow> u64 \<Rightarrow> (storage, unit) sx" where
  "builder_append off bytes_to_map =
     sseq (sassert (off mod min_region_size = 0))
       (let bytes = round_up bytes_to_map min_region_size in
        sseq (sassert (bytes mod min_region_size = 0))
          (sseq (append_loop off bytes) check_regions_are_contiguous))"

text \<open>\<^verbatim>\<open>factory::create\<close>: the regions of a file that is being opened.\<close>

definition factory_create :: "u64 \<Rightarrow> (storage, unit) sx" where
  "factory_create fsize = builder_append 0 fsize"

text \<open>\<^verbatim>\<open>factory::append\<close>: extend the file, then map the new part.\<close>

definition factory_append :: "u64 \<Rightarrow> u64 \<Rightarrow> (storage, unit) sx" where
  "factory_append original_size new_size =
     sseq (sassert (original_size \<le> new_size))
       (let new_size = round_up new_size min_region_size in
        sseq (if small_files_enabled then sret () else smodify (\<lambda>s. s\<lparr>file_size := new_size\<rparr>))
          (builder_append original_size (new_size - original_size)))"

section \<open>The segment address table\<close>

text \<open>
  \<^verbatim>\<open>slice_region_into_segments\<close>: the table entries from index \<open>i\<close> on point at successive
  segments of the region; the result is the index after the last of them.
\<close>

function slice_loop :: "region \<Rightarrow> nat \<Rightarrow> nat \<Rightarrow> (storage, nat) sx" where
  "slice_loop r ptr i =
     (if ptr < unat (r_size r)
      then sseq (sassert (i \<noteq> sat_elements))
             (sbind (sgets (\<lambda>s. sat s i)) (\<lambda>e.
              sseq (sassert (sat_value e = None \<and> sat_region e = None))
                (sseq (smodify (\<lambda>s. s\<lparr>sat := (sat s)(i := \<lparr>sat_value = Some (data r, ptr),
                                                          sat_region = Some r\<rparr>)\<rparr>))
                  (slice_loop r (ptr + unat segment_size) (Suc i)))))
      else sret i)"
  by pat_completeness auto
termination
  by (relation "measure (\<lambda>(r, ptr, i). unat (r_size r) - ptr)") (auto simp: segment_size_eq)

definition slice_region_into_segments :: "region \<Rightarrow> nat \<Rightarrow> (storage, nat) sx" where
  "slice_region_into_segments r i = slice_loop r 0 i"

fun slice_regions :: "region list \<Rightarrow> nat \<Rightarrow> (storage, nat) sx" where
  "slice_regions [] i = sret i"
| "slice_regions (r # rs) i = sbind (slice_region_into_segments r i) (slice_regions rs)"

definition update_master_pointers :: "nat \<Rightarrow> (storage, unit) sx" where
  "update_master_pointers old_length =
     sbind (sgets id) (\<lambda>s.
     sbind (if 0 < old_length
            then sseq (sassert (old_length < length (regions s)))
                   (let r = regions s ! (old_length - 1);
                        last_sat_entry = unat ((r_offset r + r_size r) div segment_size)
                    in sseq (sassert (sat_value (sat s (last_sat_entry - 1)) \<noteq> None))
                         (sret last_sat_entry))
            else sret 0) (\<lambda>last_sat_entry.
     sbind (slice_regions (drop old_length (regions s)) last_sat_entry) (\<lambda>i.
     sbind (sgets sat) (\<lambda>t.
     sassert (\<forall>j \<in> set [i..<sat_elements]. t j = null_entry)))))"

text \<open>
  \<^verbatim>\<open>storage::map_bytes\<close>. When it shrinks, the source walks over the table with
  \<^verbatim>\<open>for (auto sat_segment : *sat_)\<close> and resets \<^verbatim>\<open>sat_segment\<close>, which is a copy of the entry:
  the table itself is left as it is. The regions are given last first.
\<close>

fun pop_regions :: "u64 \<Rightarrow> region list \<Rightarrow> region list" where
  "pop_regions new_size [] = []"
| "pop_regions new_size (r # rs) =
     (if r_offset r \<le> new_size then r # rs else pop_regions new_size rs)"

definition map_bytes :: "u64 \<Rightarrow> (storage, unit) sx" where
  "map_bytes new_size =
     sbind (sgets regions) (\<lambda>rs.
       let old_size = (if rs = [] then 0 else region_end (last rs)) in
       if old_size < new_size
       then sseq (factory_append old_size new_size) (update_master_pointers (length rs))
       else if new_size < old_size
       then smodify (\<lambda>s. s\<lparr>regions := rev (pop_regions new_size (rev rs))\<rparr>)
       else sret ())"

section \<open>Addresses, pointers and copies\<close>

definition segment_base :: "storage \<Rightarrow> u16 \<Rightarrow> pointer option" where
  "segment_base s seg = sat_value (sat s (unat seg))"

definition address_to_pointer :: "storage \<Rightarrow> address \<Rightarrow> pointer option" where
  "address_to_pointer s a =
     (case segment_base s (segment a) of
        None \<Rightarrow> None
      | Some (d, i) \<Rightarrow> Some (d, i + unat (offset a)))"

definition request_spans_regions :: "storage \<Rightarrow> address \<Rightarrow> u64 \<Rightarrow> bool" where
  "request_spans_regions s a sz =
     (if sz = 0 then False
      else sat_region (sat s (unat (segment a)))
             \<noteq> sat_region (sat s (unat (segment (a + sz - 1)))))"

text \<open>
  \<^verbatim>\<open>storage::copy\<close>, as the sequence of its calls of \<^verbatim>\<open>copier\<close>: the pointer into the store and
  the number of bytes; the other pointer advances by that number. The loop handles the
  bytes that are left after the first call. (A region of no bytes, which is never made, would keep
  the source's loop from ending: that is \<open>Undefined\<close>.)
\<close>

function copy_loop :: "storage \<Rightarrow> nat \<Rightarrow> nat \<Rightarrow> nat \<Rightarrow> exn + (pointer \<times> nat) list" where
  "copy_loop s seg copy_size sz =
     (if sz = 0 then Inr []
      else let inc = (copy_size + unat segment_size - 1) div unat segment_size; seg' = seg + inc in
           if inc < 2 ^ 16 - 1 \<and> seg' < sat_elements
           then (case sat_region (sat s seg') of
                   None \<Rightarrow> Inl Assertion
                 | Some r \<Rightarrow>
                     let n = min sz (unat (r_size r)) in
                     if n = 0 then Inl Undefined
                     else rbind (copy_loop s seg' n (sz - n)) (\<lambda>calls. Inr (((data r, 0), n) # calls)))
           else Inl Assertion)"
  by pat_completeness auto
termination
  by (relation "measure (\<lambda>(s, seg, c, sz). sz)") auto

definition storage_copy :: "storage \<Rightarrow> address \<Rightarrow> nat \<Rightarrow> exn + (pointer \<times> nat) list" where
  "storage_copy s a sz =
     (let seg = unat (segment a); e = sat s seg in
      case (sat_value e, sat_region e) of
        (Some (d, i), Some r) \<Rightarrow>
          let p = i + unat (offset a) in
          if p \<le> unat (r_size r)
          then let copy_size = min (unat (r_size r) - p) sz in
               rbind (copy_loop s seg copy_size (sz - copy_size))
                 (\<lambda>calls. Inr (((d, p), copy_size) # calls))
          else Inl Assertion
      | _ \<Rightarrow> Inl Undefined)"

section \<open>Write protection\<close>

definition round_down :: "u64 \<Rightarrow> u64 \<Rightarrow> u64" where
  "round_down x b = x AND NOT (b - 1)"

text \<open>The size of the file's header and lock block (\<^verbatim>\<open>leader_size\<close> of \<^verbatim>\<open>file_header.hpp\<close>).\<close>

definition leader_size :: u64 where
  "leader_size = 48 + 16"

text \<open>
  \<^verbatim>\<open>storage::protect\<close>, as its sequence of \<^verbatim>\<open>read_only\<close> calls (pointer and length). The regions
  are given last first and the page size is the operating system's.
\<close>

fun protect_loop :: "u64 \<Rightarrow> storage \<Rightarrow> u64 \<Rightarrow> u64 \<Rightarrow> region list \<Rightarrow> exn + (pointer \<times> u64) list" where
  "protect_loop page_size s fst_a lst [] = Inr []"
| "protect_loop page_size s fst_a lst (r # rs) =
     rbind (rassert (r_offset r mod page_size = 0)) (\<lambda>_.
     let first_offset = max (r_offset r) fst_a;
         last_offset = min (r_offset r + r_size r) lst
     in if r_offset r + r_size r < first_offset then Inr []
        else rbind
          (if fst_a \<le> first_offset \<and> first_offset < last_offset
           then (case address_to_pointer s first_offset of
                   None \<Rightarrow> Inl Assertion
                 | Some p \<Rightarrow> rbind (rassert (fst p = data r \<and> last_offset - r_offset r \<le> r_size r))
                     (\<lambda>_. Inr [(p, last_offset - first_offset)]))
           else Inr []) (\<lambda>call.
        rbind (protect_loop page_size s fst_a lst rs) (\<lambda>calls. Inr (call @ calls))))"

definition protect :: "u64 \<Rightarrow> storage \<Rightarrow> address \<Rightarrow> address \<Rightarrow> exn + (pointer \<times> u64) list" where
  "protect page_size s fst_a lst =
     rbind (rassert (0 < page_size \<and> is_power_of_two page_size)) (\<lambda>_.
     protect_loop page_size s
       (max (round_down fst_a page_size) (round_down (leader_size + page_size - 1) page_size))
       (round_down lst page_size)
       (rev (regions s)))"

declare append_loop.simps [simp del] slice_loop.simps [simp del] copy_loop.simps [simp del]

section \<open>The invariant\<close>

text \<open>
  \<open>storage_ok s n\<close>: the regions are the first \<open>n\<close> segments' worth of the file, without gaps, each
  a whole number of segments, and the table's entry for each of those segments points at that
  segment.
\<close>

fun mapped_segments :: "nat \<Rightarrow> region list \<Rightarrow> nat option" where
  "mapped_segments n [] = Some n"
| "mapped_segments n (r # rs) =
     (if unat (r_offset r) = n * 2 ^ 22 \<and> 0 < unat (r_size r) \<and> 2 ^ 22 dvd unat (r_size r)
         \<and> unat (r_size r) \<le> unat full_region_size
         \<and> n + unat (r_size r) div 2 ^ 22 \<le> 2 ^ 16
      then mapped_segments (n + unat (r_size r) div 2 ^ 22) rs
      else None)"

definition entry_for :: "region \<Rightarrow> nat \<Rightarrow> sat_entry" where
  "entry_for r i = \<lparr>sat_value = Some (data r, i * 2 ^ 22 - unat (r_offset r)), sat_region = Some r\<rparr>"

definition in_region :: "region \<Rightarrow> nat \<Rightarrow> bool" where
  "in_region r a \<longleftrightarrow> unat (r_offset r) \<le> a \<and> a < unat (r_offset r) + unat (r_size r)"

definition storage_ok :: "storage \<Rightarrow> nat \<Rightarrow> bool" where
  "storage_ok s n \<longleftrightarrow>
     mapped_segments 0 (regions s) = Some n
     \<and> (\<forall>i < n. \<exists>r \<in> set (regions s). in_region r (i * 2 ^ 22) \<and> sat s i = entry_for r i)
     \<and> (\<forall>r \<in> set (regions s). data r < mappings s) \<and> distinct (map data (regions s))"

definition sat_clear_from :: "storage \<Rightarrow> nat \<Rightarrow> bool" where
  "sat_clear_from s n \<longleftrightarrow> (\<forall>i. n \<le> i \<longrightarrow> sat s i = null_entry)"

lemma unat_full_region_size: "unat full_region_size = 1024 * 2 ^ 22"
  and unat_min_region_size: "unat min_region_size = 2 ^ 22"
  by (simp_all add: full_region_size_def min_region_size_def)

lemma sat_elements_eq: "sat_elements = 65536"
  by (simp add: sat_elements_def max_segment_eq)

subsection \<open>Lists of mapped regions\<close>

lemma mapped_segments_append:
  "mapped_segments n (rs @ rs') = Option.bind (mapped_segments n rs) (\<lambda>m. mapped_segments m rs')"
  by (induction rs arbitrary: n) auto

lemma mapped_segments_le: "mapped_segments n rs = Some m \<Longrightarrow> n \<le> m"
  by (induction rs arbitrary: n) (fastforce split: if_splits)+

lemma mapped_segments_bound: "mapped_segments n rs = Some m \<Longrightarrow> n \<le> 2 ^ 16 \<Longrightarrow> m \<le> 2 ^ 16"
  by (induction rs arbitrary: n) (auto split: if_splits)

lemma mapped_segments_member:
  assumes "mapped_segments n rs = Some m" and "r \<in> set rs"
  shows "\<exists>k j. n \<le> k \<and> 0 < j \<and> j \<le> 1024 \<and> k + j \<le> m \<and> m \<le> 2 ^ 16
           \<and> unat (r_offset r) = k * 2 ^ 22 \<and> unat (r_size r) = j * 2 ^ 22"
  using assms
proof (induction rs arbitrary: n)
  case (Cons q rs)
  from Cons.prems(1) have q: "unat (r_offset q) = n * 2 ^ 22" "0 < unat (r_size q)"
      "2 ^ 22 dvd unat (r_size q)" "n + unat (r_size q) div 2 ^ 22 \<le> 2 ^ 16"
      "unat (r_size q) \<le> unat full_region_size"
    and rest: "mapped_segments (n + unat (r_size q) div 2 ^ 22) rs = Some m"
    by (auto split: if_splits)
  show ?case
  proof (cases "r = q")
    case True
    have "0 < unat (r_size q) div 2 ^ 22"
      using q(2,3) by (simp add: dvd_imp_le div_greater_zero_iff)
    moreover have "n + unat (r_size q) div 2 ^ 22 \<le> m"
      using rest by (rule mapped_segments_le)
    moreover have "unat (r_size q) div 2 ^ 22 \<le> 1024"
      using q(5) div_le_mono [of "unat (r_size q)" "1024 * 2 ^ 22" "2 ^ 22"]
      by (simp add: unat_full_region_size)
    ultimately show ?thesis
      using True q mapped_segments_bound [OF rest q(4)]
      by (intro exI [of _ n] exI [of _ "unat (r_size q) div 2 ^ 22"]) simp
  next
    case False
    with Cons.prems(2) have "r \<in> set rs" by simp
    from Cons.IH [OF rest this] obtain k j where
      "n + unat (r_size q) div 2 ^ 22 \<le> k" "0 < j" "j \<le> 1024" "k + j \<le> m" "m \<le> 2 ^ 16"
      "unat (r_offset r) = k * 2 ^ 22" "unat (r_size r) = j * 2 ^ 22" by blast
    then show ?thesis
      by (intro exI [of _ k] exI [of _ j]) simp
  qed
qed simp

lemma in_region_segment:
  assumes "unat (r_offset r) = k * 2 ^ 22" and "unat (r_size r) = j * 2 ^ 22"
  shows "in_region r a \<longleftrightarrow> k \<le> a div 2 ^ 22 \<and> a div 2 ^ 22 < k + j"
proof -
  have "in_region r a \<longleftrightarrow> k * 2 ^ 22 \<le> a \<and> a < (k + j) * 2 ^ 22"
    using assms by (simp add: in_region_def add_mult_distrib)
  then show ?thesis
    by (simp add: less_eq_div_iff_mult_less_eq div_less_iff_less_mult)
qed

lemma mapped_segments_cover:
  assumes "mapped_segments n rs = Some m" and "n \<le> i" and "i < m"
  shows "\<exists>r \<in> set rs. in_region r (i * 2 ^ 22)"
  using assms
proof (induction rs arbitrary: n)
  case (Cons q rs)
  from Cons.prems(1) have q: "unat (r_offset q) = n * 2 ^ 22" "2 ^ 22 dvd unat (r_size q)"
    and rest: "mapped_segments (n + unat (r_size q) div 2 ^ 22) rs = Some m"
    by (auto split: if_splits)
  obtain j where j: "unat (r_size q) = j * 2 ^ 22"
    using q(2) by (metis dvdE mult.commute)
  show ?case
  proof (cases "i < n + j")
    case True
    then have "in_region q (i * 2 ^ 22)"
      using Cons.prems(2) in_region_segment [OF q(1) j, of "i * 2 ^ 22"] by simp
    then show ?thesis by simp
  next
    case False
    then show ?thesis
      using Cons.IH [OF rest] Cons.prems(3) j by auto
  qed
qed simp

lemma mapped_segments_unique:
  assumes "mapped_segments n rs = Some m" and "r \<in> set rs" and "q \<in> set rs"
    and "in_region r a" and "in_region q a"
  shows "r = q"
  using assms
proof (induction rs arbitrary: n)
  case (Cons p rs)
  from Cons.prems(1) have p: "unat (r_offset p) = n * 2 ^ 22" "2 ^ 22 dvd unat (r_size p)"
    and rest: "mapped_segments (n + unat (r_size p) div 2 ^ 22) rs = Some m"
    by (auto split: if_splits)
  have apart: "\<not> in_region t a" if pa: "in_region p a" and t: "t \<in> set rs" for t
  proof -
    obtain k where "n + unat (r_size p) div 2 ^ 22 \<le> k" "unat (r_offset t) = k * 2 ^ 22"
      using mapped_segments_member [OF rest t] by blast
    then have "n * 2 ^ 22 + unat (r_size p) \<le> unat (r_offset t)"
      using p(2) by (metis add_mult_distrib dvd_div_mult_self mult_le_mono1)
    then show ?thesis
      using pa p(1) by (simp add: in_region_def)
  qed
  from Cons.prems apart Cons.IH [OF rest] show ?case by auto
qed simp

lemma unat_segments_plus:
  fixes a b :: u64
  assumes "unat a = n * 2 ^ 22" and "unat b = j * 2 ^ 22" and "n + j \<le> 2 ^ 16"
  shows "unat (a + b) = (n + j) * 2 ^ 22"
proof -
  have "unat a + unat b < 2 ^ 64"
    using assms by simp
  then show ?thesis
    using assms(1,2) by (simp add: unat_plus_no_wrap add_mult_distrib)
qed

lemma mapped_segments_end:
  assumes "mapped_segments n rs = Some m" and "rs \<noteq> []"
  shows "unat (region_end (last rs)) = m * 2 ^ 22"
proof -
  obtain rs' r where rs: "rs = rs' @ [r]"
    using assms(2) by (metis append_butlast_last_id)
  obtain k where k: "mapped_segments n rs' = Some k" and r: "mapped_segments k [r] = Some m"
    using assms(1) by (auto simp: rs mapped_segments_append bind_eq_Some_conv)
  then have "unat (r_offset r) = k * 2 ^ 22" "unat (r_size r) = (m - k) * 2 ^ 22" "k \<le> m" "m \<le> 2 ^ 16"
    by (auto split: if_splits)
  then show ?thesis
    using unat_segments_plus [of "r_offset r" k "r_size r" "m - k"] by (simp add: rs region_end_def)
qed

lemma contiguous_from_mapped:
  "mapped_segments n rs = Some m \<Longrightarrow> unat p = n * 2 ^ 22 \<Longrightarrow> contiguous_from p rs"
proof (induction rs arbitrary: n p)
  case (Cons r rs)
  from Cons.prems(1) have r: "unat (r_offset r) = n * 2 ^ 22" "2 ^ 22 dvd unat (r_size r)"
      "n + unat (r_size r) div 2 ^ 22 \<le> 2 ^ 16"
    and rest: "mapped_segments (n + unat (r_size r) div 2 ^ 22) rs = Some m"
    by (auto split: if_splits)
  obtain j where j: "unat (r_size r) = j * 2 ^ 22"
    using r(2) by (metis dvdE mult.commute)
  have "unat (p + r_size r) = (n + j) * 2 ^ 22"
    using r(3) j by (intro unat_segments_plus Cons.prems(2)) simp_all
  then have "contiguous_from (p + r_size r) rs"
    using Cons.IH [OF rest] j by simp
  moreover have "r_offset r = p"
    using r(1) Cons.prems(2) by (simp add: word_unat_eq_iff)
  ultimately show ?case by simp
qed simp

subsection \<open>Growing the storage\<close>

lemma unat_mod_min_region: "2 ^ 22 dvd unat x \<Longrightarrow> x mod min_region_size = 0"
  by (simp add: word_unat_eq_iff unat_mod unat_min_region_size dvd_eq_mod_eq_0)

lemma unat_round_up:
  assumes "unat x + 2 ^ 22 \<le> 2 ^ 64"
  shows "unat (round_up x min_region_size) = round_up_nat (unat x) (2 ^ 22)"
proof -
  have "unat (x + min_region_size - 1) = unat x + 2 ^ 22 - 1"
  proof -
    have "x + min_region_size - 1 = x + (min_region_size - 1)"
      by (simp only: add_diff_eq)
    moreover have m: "unat (min_region_size - 1) = 2 ^ 22 - 1"
      by (simp add: min_region_size_def)
    moreover have "unat (x + (min_region_size - 1)) = unat x + unat (min_region_size - 1)"
      using assms m by (intro unat_plus_no_wrap) simp
    ultimately show ?thesis
      using assms by (metis Nat.add_diff_assoc one_le_numeral one_le_power)
  qed
  then have "unat ((x + min_region_size - 1) div min_region_size * min_region_size)
      = (unat x + 2 ^ 22 - 1) div 2 ^ 22 * 2 ^ 22 mod 2 ^ 64"
    by (simp add: unat_word_ariths unat_div unat_min_region_size mod_mult_left_eq)
  also have "\<dots> = (unat x + 2 ^ 22 - 1) div 2 ^ 22 * 2 ^ 22"
  proof (rule mod_less)
    have "(unat x + 2 ^ 22 - 1) div 2 ^ 22 * 2 ^ 22 \<le> unat x + 2 ^ 22 - 1"
      by (rule div_times_less_eq_dividend)
    also have "\<dots> < 2 ^ 64" using assms by simp
    finally show "(unat x + 2 ^ 22 - 1) div 2 ^ 22 * 2 ^ 22 < 2 ^ 64" .
  qed
  finally show ?thesis
    by (simp add: round_up_def round_up_nat_def)
qed

text \<open>What a run of the builder adds to the storage.\<close>

definition regions_added :: "storage \<Rightarrow> nat \<Rightarrow> nat \<Rightarrow> storage \<Rightarrow> bool" where
  "regions_added s n m s' \<longleftrightarrow>
     (\<exists>rs. regions s' = regions s @ rs \<and> mapped_segments n rs = Some m
        \<and> (\<forall>r \<in> set rs. mappings s \<le> data r \<and> data r < mappings s') \<and> distinct (map data rs))
     \<and> sat s' = sat s \<and> file_size s' = file_size s \<and> mappings s \<le> mappings s'"

lemma regions_added_refl: "regions_added s n n s"
  by (auto simp: regions_added_def)

lemma append_loop_0: "append_loop off 0 = sret ()"
  by (subst append_loop.simps) simp

lemma append_loop_spec:
  assumes "unat off = n * 2 ^ 22" and "unat b = k * 2 ^ 22" and "n + k \<le> 2 ^ 16"
  shows "wp (append_loop off b) (\<lambda>_. regions_added s n (n + k)) (\<lambda>_ _. False) s"
  using assms
proof (induction off b arbitrary: n k s rule: append_loop.induct)
  case (1 off b)
  show ?case
  proof (cases "0 < b")
    case False
    then have "b = 0" by (simp add: word_less_nat_alt unat_eq_0)
    with "1.prems"(2) show ?thesis
      by (simp add: append_loop_0 wp_simps regions_added_refl)
  next
    case True
    define sz where "sz = min full_region_size b"
    define j where "j = min 1024 k"
    have k0: "0 < k"
      using True "1.prems"(2) by (auto simp: word_less_nat_alt)
    have sz: "unat sz = j * 2 ^ 22"
      using "1.prems"(2)
      by (simp add: sz_def j_def min_def word_le_nat_alt unat_full_region_size)
    have j: "0 < j" "j \<le> k" "j \<le> 1024"
      using k0 by (simp_all add: j_def)
    define r where "r = \<lparr>data = mappings s, r_offset = off, r_size = sz\<rparr>"
    define s1 where "s1 = s\<lparr>regions := regions s @ [r], mappings := Suc (mappings s)\<rparr>"
    have push: "region_push off sz s = (Inr (), s1)"
      using sz j(1) by (simp add: region_push_def run_simps s1_def r_def word_le_nat_alt
          unat_min_region_size)
    have rseg: "mapped_segments n [r] = Some (n + j)"
      using "1.prems"(1,3) sz j by (simp add: r_def unat_full_region_size)
    have rest: "wp (append_loop (off + full_region_size) (b - sz))
        (\<lambda>_. regions_added s1 (n + j) (n + k)) (\<lambda>_ _. False) s1"
    proof (cases "j = k")
      case True
      then have "b = sz"
        using sz "1.prems"(2) by (simp add: word_unat_eq_iff)
      then have "b - sz = 0" by simp
      then show ?thesis
        using True by (simp add: append_loop_0 wp_simps regions_added_refl)
    next
      case False
      then have j1024: "j = 1024" and lt: "1024 < k"
        by (simp_all add: j_def min_def split: if_splits)
      have "unat (off + full_region_size) = (n + j) * 2 ^ 22"
        using "1.prems" lt
        by (intro unat_segments_plus) (simp_all add: unat_full_region_size j1024)
      moreover have "unat (b - sz) = (k - j) * 2 ^ 22"
      proof -
        have "sz \<le> b" by (simp add: sz_def)
        then show ?thesis
          using sz "1.prems"(2) by (simp add: unat_diff_no_wrap diff_mult_distrib)
      qed
      moreover have "n + j + (k - j) \<le> 2 ^ 16"
        using "1.prems"(3) j by simp
      ultimately show ?thesis
        using "1.IH" [OF True sz_def, of "n + j" "k - j" s1] j by simp
    qed
    have step: "regions_added s n (n + k) s'" if "regions_added s1 (n + j) (n + k) s'" for s'
    proof -
      from that obtain rs where rs: "regions s' = regions s1 @ rs" "mapped_segments (n + j) rs = Some (n + k)"
        "\<forall>q \<in> set rs. mappings s1 \<le> data q \<and> data q < mappings s'" "distinct (map data rs)"
        and frame: "sat s' = sat s1" "file_size s' = file_size s1" "mappings s1 \<le> mappings s'"
        by (auto simp: regions_added_def)
      have "mapped_segments n (r # rs) = Some (n + k)"
        using rseg rs(2) mapped_segments_append [of n "[r]" rs] by simp
      moreover have "regions s' = regions s @ r # rs"
        using rs(1) by (simp add: s1_def)
      moreover have "data r \<notin> data ` set rs"
        using rs(3) by (auto simp: s1_def r_def)
      ultimately show ?thesis
        using rs(3,4) frame by (auto simp: regions_added_def s1_def r_def intro!: exI [of _ "r # rs"])
    qed
    have "wp (append_loop off b) (\<lambda>_. regions_added s n (n + k)) (\<lambda>_ _. False) s
      \<longleftrightarrow> wp (append_loop (off + full_region_size) (b - sz)) (\<lambda>_. regions_added s n (n + k))
            (\<lambda>_ _. False) s1"
      using True push by (subst append_loop.simps) (simp add: wp_def sbind_def sz_def Let_def)
    moreover have "wp (append_loop (off + full_region_size) (b - sz))
        (\<lambda>_. regions_added s n (n + k)) (\<lambda>_ _. False) s1"
      by (rule wp_mono [OF rest step])
    ultimately show ?thesis by simp
  qed
qed

lemma slice_loop_spec:
  assumes off: "unat (r_offset r) = n * 2 ^ 22" and sz: "unat (r_size r) = j * 2 ^ 22"
    and le: "n + j \<le> 2 ^ 16" and p: "p \<le> j"
    and clear: "\<And>i. n + p \<le> i \<Longrightarrow> i < n + j \<Longrightarrow> sat s i = null_entry"
  shows "slice_loop r (p * 2 ^ 22) (n + p) s
    = (Inr (n + j), s\<lparr>sat := (\<lambda>i. if n + p \<le> i \<and> i < n + j then entry_for r i else sat s i)\<rparr>)"
  using p clear
proof (induction "j - p" arbitrary: p s)
  case 0
  then have pj: "p = j" by simp
  have "(\<lambda>i. if n + j \<le> i \<and> i < n + j then entry_for r i else sat s i) = sat s"
    by (rule ext) auto
  then show ?case
    using sz by (subst slice_loop.simps) (simp add: sret_def pj)
next
  case (Suc d)
  then have lt: "p < j" by simp
  define s1 where "s1 = s\<lparr>sat := (sat s)(n + p := entry_for r (n + p))\<rparr>"
  have cl: "sat s (n + p) = null_entry"
    using Suc.prems(2) lt by simp
  have "slice_loop r (p * 2 ^ 22) (n + p) s = slice_loop r (Suc p * 2 ^ 22) (n + Suc p) s1"
    using lt le sz off cl
    by (subst slice_loop.simps)
      (simp add: run_simps sat_elements_eq null_entry_def s1_def entry_for_def
        unat_segment_size add_mult_distrib add.commute)
  also have "\<dots> = (Inr (n + j),
      s1\<lparr>sat := (\<lambda>i. if n + Suc p \<le> i \<and> i < n + j then entry_for r i else sat s1 i)\<rparr>)"
    using Suc.hyps(2) lt Suc.prems(2) by (intro Suc.hyps(1)) (auto simp: s1_def)
  also have "\<dots> = (Inr (n + j),
      s\<lparr>sat := (\<lambda>i. if n + p \<le> i \<and> i < n + j then entry_for r i else sat s i)\<rparr>)"
  proof -
    have "(\<lambda>i. if n + Suc p \<le> i \<and> i < n + j then entry_for r i else sat s1 i)
        = (\<lambda>i. if n + p \<le> i \<and> i < n + j then entry_for r i else sat s i)"
      using lt by (intro ext) (auto simp: s1_def)
    then show ?thesis by (simp add: s1_def)
  qed
  finally show ?case .
qed

lemma slice_regions_spec:
  assumes "mapped_segments n rs = Some m"
    and "\<And>i. n \<le> i \<Longrightarrow> i < m \<Longrightarrow> sat s i = null_entry"
  shows "\<exists>t. slice_regions rs n s = (Inr m, s\<lparr>sat := t\<rparr>)
    \<and> (\<forall>i. n \<le> i \<longrightarrow> i < m \<longrightarrow> (\<exists>r \<in> set rs. in_region r (i * 2 ^ 22) \<and> t i = entry_for r i))
    \<and> (\<forall>i. i < n \<or> m \<le> i \<longrightarrow> t i = sat s i)"
  using assms
proof (induction rs arbitrary: n s)
  case Nil
  then show ?case
    by (intro exI [of _ "sat s"]) (simp add: sret_def)
next
  case (Cons r rs)
  define j where "j = unat (r_size r) div 2 ^ 22"
  from Cons.prems(1) have r: "unat (r_offset r) = n * 2 ^ 22" "unat (r_size r) = j * 2 ^ 22" "n + j \<le> 2 ^ 16"
    and rest: "mapped_segments (n + j) rs = Some m"
    by (auto simp: j_def split: if_splits)
  have jm: "n + j \<le> m"
    using rest by (rule mapped_segments_le)
  define s1 where "s1 = s\<lparr>sat := (\<lambda>i. if n \<le> i \<and> i < n + j then entry_for r i else sat s i)\<rparr>"
  have slice: "slice_region_into_segments r n s = (Inr (n + j), s1)"
    using slice_loop_spec [OF r, of 0 s] Cons.prems(2) jm
    by (simp add: slice_region_into_segments_def s1_def)
  have "\<And>i. n + j \<le> i \<Longrightarrow> i < m \<Longrightarrow> sat s1 i = null_entry"
    using Cons.prems(2) by (simp add: s1_def)
  from Cons.IH [OF rest this] obtain t where
    t: "slice_regions rs (n + j) s1 = (Inr m, s1\<lparr>sat := t\<rparr>)"
    and tin: "\<And>i. n + j \<le> i \<Longrightarrow> i < m \<Longrightarrow> \<exists>q \<in> set rs. in_region q (i * 2 ^ 22) \<and> t i = entry_for q i"
    and tout: "\<And>i. i < n + j \<or> m \<le> i \<Longrightarrow> t i = sat s1 i"
    by blast
  have "slice_regions (r # rs) n s = (Inr m, s\<lparr>sat := t\<rparr>)"
    using slice t by (simp add: sbind_def s1_def)
  moreover have "\<exists>q \<in> set (r # rs). in_region q (i * 2 ^ 22) \<and> t i = entry_for q i"
    if "n \<le> i" "i < m" for i
  proof (cases "i < n + j")
    case True
    then have "in_region r (i * 2 ^ 22)"
      using that(1) in_region_segment [OF r(1,2), of "i * 2 ^ 22"] by simp
    moreover have "t i = entry_for r i"
      using tout [of i] True that(1) by (simp add: s1_def)
    ultimately show ?thesis by simp
  next
    case False
    then show ?thesis
      using tin [of i] that(2) by auto
  qed
  moreover have "t i = sat s i" if "i < n \<or> m \<le> i" for i
    using tout [of i] that jm by (auto simp: s1_def)
  ultimately show ?case by blast
qed

text \<open>A storage whose table is clear above its regions can be extended up to the table's size.\<close>

lemma update_master_pointers_spec:
  assumes old: "mapped_segments 0 rs = Some n" and new: "mapped_segments n rs' = Some m"
    and rs': "rs' \<noteq> []" and regs: "regions s = rs @ rs'"
    and ok: "\<forall>i < n. \<exists>r \<in> set rs. in_region r (i * 2 ^ 22) \<and> sat s i = entry_for r i"
    and clear: "sat_clear_from s n"
  shows "\<exists>t. update_master_pointers (length rs) s = (Inr (), s\<lparr>sat := t\<rparr>)
    \<and> (\<forall>i < m. \<exists>r \<in> set (rs @ rs'). in_region r (i * 2 ^ 22) \<and> t i = entry_for r i)
    \<and> (\<forall>i < n. t i = sat s i) \<and> sat_clear_from (s\<lparr>sat := t\<rparr>) m"
proof -
  have nm: "n \<le> m"
    using new by (rule mapped_segments_le)
  from slice_regions_spec [OF new, of s] clear obtain t where
    t: "slice_regions rs' n s = (Inr m, s\<lparr>sat := t\<rparr>)"
    and tin: "\<And>i. n \<le> i \<Longrightarrow> i < m \<Longrightarrow> \<exists>r \<in> set rs'. in_region r (i * 2 ^ 22) \<and> t i = entry_for r i"
    and tout: "\<And>i. i < n \<or> m \<le> i \<Longrightarrow> t i = sat s i"
    by (auto simp: sat_clear_from_def)
  have tclear: "t i = null_entry" if "m \<le> i" for i
    using tout [of i] that nm clear by (simp add: sat_clear_from_def)
  have "update_master_pointers (length rs) s = (Inr (), s\<lparr>sat := t\<rparr>)"
  proof (cases "rs = []")
    case True
    with old have "n = 0" by simp
    with True t tclear regs show ?thesis
      by (simp add: update_master_pointers_def run_simps)
  next
    case False
    have lst: "(rs @ rs') ! (length rs - 1) = last rs"
      using False by (simp add: nth_append last_conv_nth)
    have "unat ((r_offset (last rs) + r_size (last rs)) div segment_size) = n"
      using mapped_segments_end [OF old False]
      by (simp add: region_end_def unat_div unat_segment_size)
    moreover have "0 < n"
    proof -
      obtain r where "r \<in> set rs" using False by (meson last_in_set)
      then show ?thesis
        using mapped_segments_member [OF old] by fastforce
    qed
    moreover have "sat_value (sat s (n - 1)) \<noteq> None"
    proof -
      from \<open>0 < n\<close> obtain r where "sat s (n - 1) = entry_for r (n - 1)"
        using ok by (meson diff_less zero_less_one)
      then show ?thesis by (simp add: entry_for_def)
    qed
    ultimately show ?thesis
      using False rs' t tclear lst
      by (simp add: update_master_pointers_def run_simps Let_def regs)
  qed
  moreover have "\<exists>r \<in> set (rs @ rs'). in_region r (i * 2 ^ 22) \<and> t i = entry_for r i" if "i < m" for i
  proof (cases "i < n")
    case True
    then show ?thesis
      using ok tout [of i] by auto
  next
    case False
    then show ?thesis
      using tin [of i] that by auto
  qed
  ultimately show ?thesis
    using tout tclear by (auto simp: sat_clear_from_def)
qed

lemma builder_append_spec:
  assumes "mapped_segments 0 (regions s) = Some n" and "unat off = n * 2 ^ 22"
    and "unat b = k * 2 ^ 22" and "n + k \<le> 2 ^ 16"
  shows "wp (builder_append off b) (\<lambda>_. regions_added s n (n + k)) (\<lambda>_ _. False) s"
proof -
  have off: "off mod min_region_size = 0"
    using assms(2) by (intro unat_mod_min_region) simp
  have "unat b + 2 ^ 22 \<le> 2 ^ 64"
    using assms(3,4) by simp
  then have "unat (round_up b min_region_size) = round_up_nat (unat b) (2 ^ 22)"
    by (rule unat_round_up)
  also have "\<dots> = unat b"
    using assms(3) by (intro round_up_nat_fixed) simp_all
  finally have b: "round_up b min_region_size = b"
    by (simp add: word_unat_eq_iff)
  have bm: "b mod min_region_size = 0"
    using assms(3) by (intro unat_mod_min_region) simp
  have cont: "contiguous_from 0 (regions s')" if "regions_added s n (n + k) s'" for s'
  proof -
    from that assms(1) have "mapped_segments 0 (regions s') = Some (n + k)"
      by (auto simp: regions_added_def mapped_segments_append)
    then show ?thesis
      by (rule contiguous_from_mapped) simp
  qed
  have "wp (append_loop off b) (\<lambda>_. wp check_regions_are_contiguous
          (\<lambda>_. regions_added s n (n + k)) (\<lambda>_ _. False)) (\<lambda>_ _. False) s"
    by (rule wp_call [OF append_loop_spec [OF assms(2-4)]])
      (simp add: check_regions_are_contiguous_def wp_simps cont)
  then show ?thesis
    by (simp add: builder_append_def wp_simps off b bm Let_def)
qed

text \<open>Growth, up to the update of the table: the file is extended and regions are appended.\<close>

lemma map_bytes_grow_regions:
  assumes segs: "mapped_segments 0 (regions s) = Some n"
    and grow: "n * 2 ^ 22 < unat new_size" and fits: "unat new_size \<le> 2 ^ 38"
    and m_def: "m = round_up_nat (unat new_size) (2 ^ 22) div 2 ^ 22"
  obtains s2 rs where
    "map_bytes new_size s = update_master_pointers (length (regions s)) s2"
    "regions s2 = regions s @ rs" "mapped_segments n rs = Some m" "n < m" "m \<le> 2 ^ 16" "rs \<noteq> []"
    "\<forall>r \<in> set rs. mappings s \<le> data r \<and> data r < mappings s2" "distinct (map data rs)"
    "sat s2 = sat s" "file_size s2 = round_up new_size min_region_size" "mappings s \<le> mappings s2"
proof -
  define old_size where "old_size = (if regions s = [] then 0 else region_end (last (regions s)))"
  define nsz where "nsz = round_up new_size min_region_size"
  have old: "unat old_size = n * 2 ^ 22"
    using segs mapped_segments_end [OF segs] by (auto simp: old_size_def)
  have m: "unat nsz = m * 2 ^ 22"
    using fits unat_round_up [of new_size] by (simp add: nsz_def m_def round_up_nat_def)
  have "unat new_size \<le> m * 2 ^ 22"
    using round_up_nat_spec(1) [of "2 ^ 22" "unat new_size"] by (simp add: m_def round_up_nat_def)
  with grow have nm: "n < m" by simp
  have m16: "m \<le> 2 ^ 16"
    using round_up_nat_least [of "2 ^ 22" "2 ^ 38" "unat new_size"] fits
    by (simp add: m_def round_up_nat_def)
  have diff: "unat (nsz - old_size) = (m - n) * 2 ^ 22"
    using m old nm by (simp add: unat_diff_no_wrap word_le_nat_alt diff_mult_distrib)
  have lt: "old_size < new_size"
    using old grow by (simp add: word_less_nat_alt)
  define s1 where "s1 = s\<lparr>file_size := nsz\<rparr>"
  have "wp (builder_append old_size (nsz - old_size)) (\<lambda>_. regions_added s1 n m) (\<lambda>_ _. False) s1"
    using builder_append_spec [of s1 n old_size "nsz - old_size" "m - n"] segs old diff nm m16
    by (simp add: s1_def)
  then obtain s2 where b: "builder_append old_size (nsz - old_size) s1 = (Inr (), s2)"
    and added: "regions_added s1 n m s2"
    by (auto simp: wp_total)
  have "map_bytes new_size s = update_master_pointers (length (regions s)) s2"
    using lt less_imp_le [OF lt] b
    by (simp add: map_bytes_def factory_append_def run_simps old_size_def [symmetric] Let_def
        nsz_def [symmetric] s1_def [symmetric] small_files_enabled_def)
  moreover from added obtain rs where "regions s2 = regions s @ rs" "mapped_segments n rs = Some m"
    "\<forall>r \<in> set rs. mappings s \<le> data r \<and> data r < mappings s2" "distinct (map data rs)"
    "sat s2 = sat s" "file_size s2 = nsz" "mappings s \<le> mappings s2"
    by (auto simp: regions_added_def s1_def)
  moreover from this(2) nm have "rs \<noteq> []" by auto
  ultimately show thesis
    using nm m16 that by (simp add: nsz_def)
qed

lemma map_bytes_grow:
  assumes ok: "storage_ok s n" and clear: "sat_clear_from s n"
    and grow: "n * 2 ^ 22 < unat new_size" and fits: "unat new_size \<le> 2 ^ 38"
    and m: "m = round_up_nat (unat new_size) (2 ^ 22) div 2 ^ 22"
  shows "\<exists>s'. map_bytes new_size s = (Inr (), s') \<and> storage_ok s' m \<and> sat_clear_from s' m
    \<and> (\<forall>i < n. sat s' i = sat s i)
    \<and> (\<exists>rs. regions s' = regions s @ rs) \<and> file_size s' = round_up new_size min_region_size"
proof -
  have segs: "mapped_segments 0 (regions s) = Some n"
    using ok by (simp add: storage_ok_def)
  obtain s2 rs where step: "map_bytes new_size s = update_master_pointers (length (regions s)) s2"
    and rs: "regions s2 = regions s @ rs" "mapped_segments n rs = Some m" "rs \<noteq> []"
    and ids: "\<forall>r \<in> set rs. mappings s \<le> data r \<and> data r < mappings s2" "distinct (map data rs)"
    and frame: "sat s2 = sat s" "file_size s2 = round_up new_size min_region_size" "mappings s \<le> mappings s2"
    using segs grow fits m by (rule map_bytes_grow_regions)
  have "\<forall>i < n. \<exists>r \<in> set (regions s). in_region r (i * 2 ^ 22) \<and> sat s2 i = entry_for r i"
    using ok frame by (simp add: storage_ok_def)
  moreover have "sat_clear_from s2 n"
    using clear frame by (simp add: sat_clear_from_def)
  ultimately obtain t where t: "update_master_pointers (length (regions s)) s2 = (Inr (), s2\<lparr>sat := t\<rparr>)"
    and tin: "\<forall>i < m. \<exists>r \<in> set (regions s @ rs). in_region r (i * 2 ^ 22) \<and> t i = entry_for r i"
    and told: "\<forall>i < n. t i = sat s2 i" and tcl: "sat_clear_from (s2\<lparr>sat := t\<rparr>) m"
    using update_master_pointers_spec [OF segs rs(2,3) rs(1)] by blast
  have "storage_ok (s2\<lparr>sat := t\<rparr>) m"
    using ok rs ids frame tin segs
    by (fastforce simp: storage_ok_def mapped_segments_append)
  then show ?thesis
    using step t tcl told frame rs(1) by auto
qed

text \<open>Growth over a table entry that is still in use.\<close>

lemma update_master_pointers_stale:
  assumes old: "mapped_segments 0 rs = Some n" and new: "mapped_segments n rs' = Some m"
    and ne: "rs \<noteq> []" "rs' \<noteq> []" and regs: "regions s = rs @ rs'"
    and prev: "sat_value (sat s (n - 1)) \<noteq> None" and stale: "sat_value (sat s n) \<noteq> None"
  shows "fst (update_master_pointers (length rs) s) = Inl Assertion"
proof -
  obtain r rest where r: "rs' = r # rest"
    using ne(2) by (cases rs') auto
  with new have sz: "0 < unat (r_size r)" and fits: "n + unat (r_size r) div 2 ^ 22 \<le> 2 ^ 16"
    and "2 ^ 22 dvd unat (r_size r)"
    by (auto split: if_splits)
  then have "n \<noteq> sat_elements"
    by (auto simp: sat_elements_eq)
  then have "slice_regions rs' n s = (Inl Assertion, s)"
    using sz stale by (auto simp: r slice_region_into_segments_def slice_loop.simps [of r 0] run_simps)
  moreover have "(rs @ rs') ! (length rs - 1) = last rs"
    using ne(1) by (simp add: nth_append last_conv_nth)
  moreover have "unat ((r_offset (last rs) + r_size (last rs)) div segment_size) = n"
    using mapped_segments_end [OF old ne(1)]
    by (simp add: region_end_def unat_div unat_segment_size)
  ultimately show ?thesis
    using ne prev by (simp add: update_master_pointers_def run_simps Let_def regs)
qed

end
