(* ===== verification/File_Header.thy ===== *)
theory File_Header
  imports Crc32 Little_Endian Storage
begin

unbundle bit_operations_syntax

text \<open>
  The fixed structures of a store file (\<^verbatim>\<open>include/pstore/core/file_header.hpp\<close>,
  \<^verbatim>\<open>lib/core/file_header.cpp\<close>): the header at the start of the file, the lock block behind it, and
  the trailer that ends each transaction. Both carry a checksum over the bytes of their body, in
  the layout that the source fixes by static assertions. The checks are those of a build with
  \<^verbatim>\<open>PSTORE_CRC_CHECKS_ENABLED\<close> and \<^verbatim>\<open>PSTORE_SIGNATURE_CHECKS_ENABLED\<close>, which is the default.
\<close>

section \<open>The file header\<close>

record header_body =
  h_signature1 :: "u8 list"
  h_signature2 :: u32
  h_version :: "u16 \<times> u16"
  h_header_size :: u32
  h_uuid :: "u8 list"

record header =
  h_a :: header_body
  h_crc :: u32
  h_unused1 :: u32
  h_footer_pos :: u64

definition major_version :: u16 where "major_version = 1"
definition minor_version :: u16 where "minor_version = 6"

definition file_signature1 :: "u8 list" where
  "file_signature1 = map (\<lambda>c. of_nat (of_char c)) ''pStr''"

definition file_signature2 :: u32 where
  "file_signature2 = 0x0507FFFF"

definition sizeof_header :: nat where "sizeof_header = 48"
definition sizeof_lock_block :: nat where "sizeof_lock_block = 16"
definition sizeof_trailer :: nat where "sizeof_trailer = 104"

definition header_body_bytes :: "header_body \<Rightarrow> u8 list" where
  "header_body_bytes a =
     h_signature1 a @ le_bytes 4 (h_signature2 a) @ le_bytes 2 (fst (h_version a))
     @ le_bytes 2 (snd (h_version a)) @ le_bytes 4 (h_header_size a) @ h_uuid a"

definition header_get_crc :: "header \<Rightarrow> u32" where
  "header_get_crc h = crc32 (header_body_bytes (h_a h))"

definition header_is_valid :: "header \<Rightarrow> bool" where
  "header_is_valid h \<longleftrightarrow> h_crc h = header_get_crc h"

text \<open>The constructor; its uuid is drawn from the operating system's random source.\<close>

definition header_init :: "u8 list \<Rightarrow> header" where
  "header_init uuid =
     (let h = \<lparr>h_a = \<lparr>h_signature1 = file_signature1, h_signature2 = file_signature2,
                      h_version = (major_version, minor_version),
                      h_header_size = of_nat sizeof_header, h_uuid = uuid\<rparr>,
               h_crc = 0, h_unused1 = 0, h_footer_pos = 0\<rparr>
      in h\<lparr>h_crc := header_get_crc h\<rparr>)"

text \<open>The image of a header in the file.\<close>

definition header_bytes :: "header \<Rightarrow> u8 list" where
  "header_bytes h =
     header_body_bytes (h_a h) @ le_bytes 4 (h_crc h) @ le_bytes 4 (h_unused1 h) @ le_bytes 8 (h_footer_pos h)"

definition header_of_bytes :: "u8 list \<Rightarrow> header" where
  "header_of_bytes bs =
     \<lparr>h_a = \<lparr>h_signature1 = take 4 bs, h_signature2 = le_word (take 4 (drop 4 bs)),
             h_version = (le_word (take 2 (drop 8 bs)), le_word (take 2 (drop 10 bs))),
             h_header_size = le_word (take 4 (drop 12 bs)), h_uuid = take 16 (drop 16 bs)\<rparr>,
      h_crc = le_word (take 4 (drop 32 bs)), h_unused1 = le_word (take 4 (drop 36 bs)),
      h_footer_pos = le_word (take 8 (drop 40 bs))\<rparr>"

section \<open>The lock block\<close>

definition chars_to_uint64 :: "string \<Rightarrow> u64" where
  "chars_to_uint64 cs = foldr (\<lambda>c acc. of_nat (of_char c) OR push_bit 8 acc) cs 0"

definition lock_block_bytes :: "u8 list" where
  "lock_block_bytes =
     le_bytes 8 (chars_to_uint64 ''VacuumLk'') @ le_bytes 8 (chars_to_uint64 ''TrnsactL'')"

section \<open>Trailers\<close>

datatype indices =
  compilation_index | debug_line_header_index | fragment_index | name_index | write_index

record trailer_body =
  t_signature1 :: "u8 list"
  t_generation :: u32
  t_unused1 :: u32
  t_size :: u64
  t_time :: u64
  t_prev_generation :: u64
  t_index_records :: "u64 list"
  t_unused2 :: u32
  t_unused3 :: u32

record trailer =
  t_a :: trailer_body
  t_crc :: u32
  t_unused1' :: u32
  t_signature2 :: "u8 list"

definition default_signature1 :: "u8 list" where
  "default_signature1 = map (\<lambda>c. of_nat (of_char c)) ''hPPyfooT''"

definition default_signature2 :: "u8 list" where
  "default_signature2 = map (\<lambda>c. of_nat (of_char c)) ''hPPyTail''"

definition trailer_body_bytes :: "trailer_body \<Rightarrow> u8 list" where
  "trailer_body_bytes a =
     t_signature1 a @ le_bytes 4 (t_generation a) @ le_bytes 4 (t_unused1 a) @ le_bytes 8 (t_size a)
     @ le_bytes 8 (t_time a) @ le_bytes 8 (t_prev_generation a) @ concat (map (le_bytes 8) (t_index_records a))
     @ le_bytes 4 (t_unused2 a) @ le_bytes 4 (t_unused3 a)"

definition trailer_get_crc :: "trailer \<Rightarrow> u32" where
  "trailer_get_crc t = crc32 (trailer_body_bytes (t_a t))"

definition crc_is_valid :: "trailer \<Rightarrow> bool" where
  "crc_is_valid t \<longleftrightarrow> t_crc t = trailer_get_crc t"

definition signature_is_valid :: "trailer \<Rightarrow> bool" where
  "signature_is_valid t \<longleftrightarrow>
     t_signature1 (t_a t) = default_signature1 \<or> t_signature2 t = default_signature2"

text \<open>A trailer as its member initialisers make it; the index records are left as they are.\<close>

definition trailer_init :: "u64 list \<Rightarrow> trailer" where
  "trailer_init records =
     \<lparr>t_a = \<lparr>t_signature1 = default_signature1, t_generation = 0, t_unused1 = 0, t_size = 0,
            t_time = 0, t_prev_generation = 0, t_index_records = records, t_unused2 = 0, t_unused3 = 0\<rparr>,
      t_crc = 0, t_unused1' = 0, t_signature2 = default_signature2\<rparr>"

definition trailer_bytes :: "trailer \<Rightarrow> u8 list" where
  "trailer_bytes t =
     trailer_body_bytes (t_a t) @ le_bytes 4 (t_crc t) @ le_bytes 4 (t_unused1' t) @ t_signature2 t"

definition trailer_of_bytes :: "u8 list \<Rightarrow> trailer" where
  "trailer_of_bytes bs =
     \<lparr>t_a = \<lparr>t_signature1 = take 8 bs, t_generation = le_word (take 4 (drop 8 bs)),
            t_unused1 = le_word (take 4 (drop 12 bs)), t_size = le_word (take 8 (drop 16 bs)),
            t_time = le_word (take 8 (drop 24 bs)), t_prev_generation = le_word (take 8 (drop 32 bs)),
            t_index_records = map (\<lambda>i. le_word (take 8 (drop (40 + 8 * i) bs))) [0..<5],
            t_unused2 = le_word (take 4 (drop 80 bs)), t_unused3 = le_word (take 4 (drop 84 bs))\<rparr>,
      t_crc = le_word (take 4 (drop 88 bs)), t_unused1' = le_word (take 4 (drop 92 bs)),
      t_signature2 = take 8 (drop 96 bs)\<rparr>"

section \<open>Making and opening a store file\<close>

text \<open>
  \<^verbatim>\<open>database::build_new_store\<close>: the content of a new file. The uuid and the time stamp come from
  the environment.
\<close>

definition build_new_store :: "u8 list \<Rightarrow> u64 \<Rightarrow> exn + u8 list" where
  "build_new_store uuid now =
     (let h = (header_init uuid)\<lparr>h_footer_pos := leader_size\<rparr>;
          file = header_bytes h @ lock_block_bytes
      in rbind (rassert (h_footer_pos h = of_nat (length file))) (\<lambda>_.
         let t = trailer_init (replicate 5 0);
             t = t\<lparr>t_a := (t_a t)\<lparr>t_time := now\<rparr>\<rparr>;
             t = t\<lparr>t_crc := trailer_get_crc t\<rparr>;
             file = file @ trailer_bytes t
         in rbind (rassert (length file = unat leader_size + sizeof_trailer)) (\<lambda>_.
            if length file < unat min_region_size \<and> \<not> small_files_enabled
            then Inr (file @ replicate (unat min_region_size - length file) 0)
            else Inr file)))"

text \<open>\<^verbatim>\<open>database::get_footer_pos\<close>: the checks made on the header of a file that is being opened.\<close>

definition get_footer_pos :: "u8 list \<Rightarrow> exn + u64" where
  "get_footer_pos file =
     (if length file < sizeof_header then Inl (Raise did_not_read_number_of_bytes_requested)
      else
        let h = header_of_bytes file in
        if h_signature1 (h_a h) \<noteq> file_signature1 \<or> h_signature2 (h_a h) \<noteq> file_signature2
        then Inl (Raise header_corrupt)
        else if h_header_size (h_a h) \<noteq> of_nat sizeof_header \<or> fst (h_version (h_a h)) \<noteq> major_version
                \<or> snd (h_version (h_a h)) \<noteq> minor_version
        then Inl (Raise header_version_mismatch)
        else if \<not> header_is_valid h then Inl (Raise header_corrupt)
        else
          let footer_offset = unat (h_footer_pos h); fsize = length file in
          if footer_offset < unat leader_size \<or> fsize < unat leader_size + sizeof_trailer
             \<or> fsize - sizeof_trailer < footer_offset
          then Inl (Raise header_corrupt)
          else Inr (h_footer_pos h))"

section \<open>Layout\<close>

definition header_body_wf :: "header_body \<Rightarrow> bool" where
  "header_body_wf a \<longleftrightarrow> length (h_signature1 a) = 4 \<and> length (h_uuid a) = 16"

lemma length_header_body_bytes: "header_body_wf a \<Longrightarrow> length (header_body_bytes a) = 32"
  by (simp add: header_body_bytes_def header_body_wf_def)

lemma length_header_bytes: "header_body_wf (h_a h) \<Longrightarrow> length (header_bytes h) = sizeof_header"
  by (simp add: header_bytes_def length_header_body_bytes sizeof_header_def)

lemma header_of_header_bytes:
  assumes "header_body_wf (h_a h)"
  shows "header_of_bytes (header_bytes h @ rest) = h"
  using assms
  by (simp add: header_of_bytes_def header_bytes_def header_body_bytes_def header_body_wf_def)

lemma header_body_bytes_of_bytes:
  assumes "sizeof_header \<le> length bs"
  shows "header_body_bytes (h_a (header_of_bytes bs)) = take 32 bs"
proof -
  have "take 32 bs = take 4 bs @ take 4 (drop 4 bs) @ take 2 (drop 8 bs) @ take 2 (drop 10 bs)
      @ take 4 (drop 12 bs) @ take 16 (drop 16 bs)"
    using take_add [of 4 28 bs] take_add [of 4 24 "drop 4 bs"] take_add [of 2 22 "drop 8 bs"]
      take_add [of 2 20 "drop 10 bs"] take_add [of 4 16 "drop 12 bs"]
    by simp
  then show ?thesis
    using assms by (simp add: header_of_bytes_def header_body_bytes_def sizeof_header_def)
qed

lemma leader_size_nat: "unat leader_size = 64"
  by (simp add: leader_size_def)

lemma header_init_wf: "length uuid = 16 \<Longrightarrow> header_body_wf (h_a (header_init uuid))"
  by (simp add: header_init_def header_body_wf_def file_signature1_def Let_def)

lemma header_init_valid: "header_is_valid ((header_init uuid)\<lparr>h_footer_pos := p\<rparr>)"
  by (simp add: header_init_def header_is_valid_def header_get_crc_def Let_def)

definition trailer_wf :: "trailer \<Rightarrow> bool" where
  "trailer_wf t \<longleftrightarrow> length (t_index_records (t_a t)) = 5 \<and> length (t_signature1 (t_a t)) = 8
     \<and> length (t_signature2 t) = 8"

lemma length_trailer_bytes:
  assumes "trailer_wf t"
  shows "length (trailer_bytes t) = sizeof_trailer"
  using assms by (simp add: trailer_wf_def trailer_bytes_def trailer_body_bytes_def sizeof_trailer_def
      length_concat comp_def sum_list_triv)

lemma trailer_of_trailer_bytes:
  assumes "trailer_wf t"
  shows "trailer_of_bytes (trailer_bytes t) = t"
proof -
  obtain a b c d e where "t_index_records (t_a t) = [a, b, c, d, e]"
    using assms by (auto simp: trailer_wf_def length_Suc_conv numeral_eq_Suc)
  then show ?thesis
    using assms
    by (simp add: trailer_of_bytes_def trailer_bytes_def trailer_body_bytes_def trailer_wf_def upt_rec)
qed

lemma new_store_image:
  assumes "length uuid = 16"
  shows "\<exists>file. build_new_store uuid now = Inr file \<and> length file = unat min_region_size
    \<and> get_footer_pos file = Inr leader_size
    \<and> take 4 file = file_signature1"
proof -
  let ?h = "(header_init uuid)\<lparr>h_footer_pos := leader_size\<rparr>"
  define t where "t = (let t = trailer_init (replicate 5 0); t = t\<lparr>t_a := (t_a t)\<lparr>t_time := now\<rparr>\<rparr>
    in t\<lparr>t_crc := trailer_get_crc t\<rparr>)"
  define pad :: "u8 list" where "pad = replicate (unat min_region_size - 168) 0"
  define img where "img = header_bytes ?h @ lock_block_bytes @ trailer_bytes t @ pad"
  have wf: "header_body_wf (h_a ?h)"
    using header_init_wf [OF assms] by simp
  have lens: "length (header_bytes ?h) = 48" "length lock_block_bytes = 16" "length (trailer_bytes t) = 104"
    using length_header_bytes [OF wf] length_trailer_bytes [of t]
    by (simp_all add: sizeof_header_def lock_block_bytes_def t_def trailer_wf_def trailer_init_def default_signature1_def
        default_signature2_def sizeof_trailer_def Let_def)
  have "build_new_store uuid now = Inr img"
    using lens unfolding build_new_store_def t_def [unfolded Let_def, symmetric] Let_def
    by (simp add: rbind_def rassert_def leader_size_def sizeof_trailer_def unat_min_region_size
        small_files_enabled_def img_def pad_def)
  moreover have flen: "length img = 2 ^ 22"
    using lens by (simp add: img_def pad_def unat_min_region_size)
  moreover have "header_of_bytes img = ?h"
    using header_of_header_bytes [OF wf] by (simp add: img_def)
  then have "get_footer_pos img = Inr leader_size"
    using header_init_valid [of leader_size uuid] flen
    by (simp add: get_footer_pos_def Let_def header_init_def sizeof_header_def leader_size_def sizeof_trailer_def)
  moreover have "take 4 img = file_signature1"
    by (simp add: img_def header_bytes_def header_body_bytes_def header_init_def Let_def file_signature1_def)
  ultimately show ?thesis
    by (simp add: unat_min_region_size)
qed

section \<open>Properties\<close>





end
