(* ===== verification/Storage_Access.thy ===== *)
theory Storage_Access
  imports Storage
begin

text \<open>
  What the storage layer promises to its clients: the file is one flat sequence of bytes. Addresses
  of mapped bytes translate to pointers to those bytes, growing the file keeps all pointers, a
  copy touches exactly the bytes that were asked for, and write protection covers whole pages of
  committed data only.
\<close>

section \<open>Addresses and pointers\<close>

text \<open>The position in the file of the byte that a pointer points at.\<close>

definition pointer_position :: "storage \<Rightarrow> pointer \<Rightarrow> nat option" where
  "pointer_position s p =
     (case find (\<lambda>r. data r = fst p) (regions s) of
        None \<Rightarrow> None
      | Some r \<Rightarrow> if snd p < unat (r_size r) then Some (unat (r_offset r) + snd p) else None)"

lemma find_region:
  assumes "distinct (map data rs)" and "r \<in> set rs"
  shows "find (\<lambda>q. data q = data r) rs = Some r"
  using assms by (induction rs) auto

lemma storage_ok_entry:
  assumes "storage_ok s n" and "a < n * 2 ^ 22"
  obtains r where "r \<in> set (regions s)" and "in_region r a" and "sat s (a div 2 ^ 22) = entry_for r (a div 2 ^ 22)"
proof -
  have "a div 2 ^ 22 < n"
    using assms(2) by (simp add: div_less_iff_less_mult)
  then obtain r where r: "r \<in> set (regions s)" "in_region r (a div 2 ^ 22 * 2 ^ 22)"
    "sat s (a div 2 ^ 22) = entry_for r (a div 2 ^ 22)"
    using assms(1) by (auto simp: storage_ok_def)
  obtain k j where "unat (r_offset r) = k * 2 ^ 22" "unat (r_size r) = j * 2 ^ 22"
    using assms(1) r(1) mapped_segments_member [of 0 "regions s" n r] by (auto simp: storage_ok_def)
  then have "in_region r a"
    using r(2) by (simp add: in_region_segment)
  with r that show thesis by blast
qed

lemma storage_ok_segment:
  assumes "storage_ok s n" and "unat a < n * 2 ^ 22"
  shows "unat (segment a) = unat a div 2 ^ 22"
proof -
  have "n \<le> 2 ^ 16"
    using assms(1) mapped_segments_bound [of 0 "regions s" n] by (simp add: storage_ok_def)
  then have "unat a div 2 ^ 22 < 2 ^ 16"
    using assms(2) by (simp add: div_less_iff_less_mult)
  then show ?thesis
    by (simp add: unat_segment)
qed

lemma address_to_pointer_ok:
  assumes ok: "storage_ok s n" and a: "unat a < n * 2 ^ 22"
  shows "\<exists>r \<in> set (regions s). in_region r (unat a)
    \<and> sat_region (sat s (unat (segment a))) = Some r
    \<and> address_to_pointer s a = Some (data r, unat a - unat (r_offset r))"
proof -
  obtain r where r: "r \<in> set (regions s)" "in_region r (unat a)"
    "sat s (unat a div 2 ^ 22) = entry_for r (unat a div 2 ^ 22)"
    using ok a by (rule storage_ok_entry)
  obtain k where "unat (r_offset r) = k * 2 ^ 22" "k * 2 ^ 22 \<le> unat a"
    using ok r mapped_segments_member [of 0 "regions s" n r] by (auto simp: storage_ok_def in_region_def)
  then have "unat (r_offset r) \<le> unat a div 2 ^ 22 * 2 ^ 22"
    by (simp add: less_eq_div_iff_mult_less_eq)
  then have "unat a div 2 ^ 22 * 2 ^ 22 - unat (r_offset r) + unat a mod 2 ^ 22 = unat a - unat (r_offset r)"
    by (metis add_diff_assoc2 div_mult_mod_eq)
  then show ?thesis
    using r storage_ok_segment [OF ok a]
    by (intro bexI [of _ r]) (simp_all add: address_to_pointer_def segment_base_def entry_for_def unat_offset)
qed

lemma pointer_position_in_region:
  assumes "storage_ok s n" and "r \<in> set (regions s)" and "in_region r a"
  shows "pointer_position s (data r, a - unat (r_offset r)) = Some a"
  using assms find_region [of "regions s" r]
  by (auto simp: pointer_position_def storage_ok_def in_region_def)

section \<open>Copies\<close>

text \<open>The file positions that a sequence of copier calls touches, in order.\<close>

definition call_positions :: "storage \<Rightarrow> (pointer \<times> nat) list \<Rightarrow> nat option list" where
  "call_positions s calls =
     concat (map (\<lambda>((d, i), n). map (\<lambda>j. pointer_position s (d, i + j)) [0..<n]) calls)"

lemma call_positions_piece:
  assumes ok: "storage_ok s n" and r: "r \<in> set (regions s)" and "in_region r a"
    and "a - unat (r_offset r) + c \<le> unat (r_size r)"
  shows "map (\<lambda>j. pointer_position s (data r, a - unat (r_offset r) + j)) [0..<c] = map Some [a..<a + c]"
proof (rule nth_equalityI)
  fix i assume "i < length (map (\<lambda>j. pointer_position s (data r, a - unat (r_offset r) + j)) [0..<c])"
  then have i: "i < c" by simp
  then have "in_region r (a + i)"
    using assms(3,4) by (auto simp: in_region_def)
  then have "pointer_position s (data r, a + i - unat (r_offset r)) = Some (a + i)"
    using ok r by (intro pointer_position_in_region)
  moreover have "a + i - unat (r_offset r) = a - unat (r_offset r) + i"
    using assms(3) by (simp add: in_region_def)
  ultimately show "map (\<lambda>j. pointer_position s (data r, a - unat (r_offset r) + j)) [0..<c] ! i
      = map Some [a..<a + c] ! i"
    using i by simp
qed simp

lemma next_region_offset:
  assumes ok: "storage_ok s n" and r: "r \<in> set (regions s)" and t: "t \<in> set (regions s)"
    and e: "in_region t (unat (r_offset r) + unat (r_size r))"
  shows "unat (r_offset t) = unat (r_offset r) + unat (r_size r)"
proof (rule ccontr)
  assume neq: "unat (r_offset t) \<noteq> unat (r_offset r) + unat (r_size r)"
  obtain j where "unat (r_size r) = j * 2 ^ 22" "0 < j"
    using ok r mapped_segments_member [of 0 "regions s" n r] by (auto simp: storage_ok_def)
  then have pos: "0 < unat (r_size r)" by simp
  have "in_region t (unat (r_offset r) + unat (r_size r) - 1)"
    using e neq by (auto simp: in_region_def)
  moreover have "in_region r (unat (r_offset r) + unat (r_size r) - 1)"
    using pos by (simp add: in_region_def)
  ultimately have "t = r"
    using ok r t mapped_segments_unique [of 0 "regions s" n t r] by (auto simp: storage_ok_def)
  then show False
    using e by (simp add: in_region_def)
qed

lemma copy_loop_spec:
  assumes ok: "storage_ok s n"
    and start: "seg * 2 ^ 22 < e" and here: "e - c < (seg + 1) * 2 ^ 22" "seg * 2 ^ 22 \<le> e - c" "c \<le> e"
    and c0: "0 < c" "c \<le> 1024 * 2 ^ 22"
    and e: "2 ^ 22 dvd e" and stop: "\<And>r. r \<in> set (regions s) \<Longrightarrow> in_region r e \<Longrightarrow> unat (r_offset r) = e"
    and fits: "e + sz \<le> n * 2 ^ 22"
  shows "\<exists>calls. copy_loop s seg c sz = Inr calls \<and> call_positions s calls = map Some [e..<e + sz]"
  using assms(2-)
proof (induction sz arbitrary: seg e c rule: less_induct)
  case (less sz)
  show ?case
  proof (cases "sz = 0")
    case True
    then show ?thesis
      by (simp add: copy_loop.simps call_positions_def)
  next
    case False
    obtain q where q: "e = q * 2 ^ 22"
      using less.prems(7) by (metis dvdE mult.commute)
    define inc where "inc = (c + unat segment_size - 1) div unat segment_size"
    have seg': "seg + inc = q"
    proof -
      have "c = (q - seg) * 2 ^ 22 - (e - c - seg * 2 ^ 22)"
        using less.prems q by (simp add: diff_mult_distrib)
      have "inc = q - seg"
        unfolding inc_def unat_segment_size
      proof (rule div_nat_eqI)
        show "2 ^ 22 * (q - seg) \<le> c + 2 ^ 22 - 1"
          using less.prems q by (simp add: diff_mult_distrib2)
        show "c + 2 ^ 22 - 1 < 2 ^ 22 * Suc (q - seg)"
          using less.prems q by (simp add: diff_mult_distrib2)
      qed
      moreover have "seg < q"
        using less.prems(1) q by simp
      ultimately show ?thesis by simp
    qed
    have inc: "inc < 2 ^ 16 - 1"
    proof -
      have "inc \<le> (1024 * 2 ^ 22 + 2 ^ 22 - 1) div 2 ^ 22"
        unfolding inc_def unat_segment_size using less.prems(6) by (intro div_le_mono) simp
      then show ?thesis by simp
    qed
    have e_lt: "e < n * 2 ^ 22"
      using False less.prems(9) by simp
    obtain r where r: "r \<in> set (regions s)" "in_region r e" "sat s (e div 2 ^ 22) = entry_for r (e div 2 ^ 22)"
      using ok e_lt by (rule storage_ok_entry)
    have off: "unat (r_offset r) = e"
      using less.prems(8) r by blast
    obtain k j where kj: "unat (r_offset r) = k * 2 ^ 22" "unat (r_size r) = j * 2 ^ 22"
      "0 < j" "j \<le> 1024" "k + j \<le> n" "n \<le> 2 ^ 16"
      using ok r(1) mapped_segments_member [of 0 "regions s" n r] by (auto simp: storage_ok_def)
    have kq: "k = q" using kj(1) off q by simp
    have sat_r: "sat_region (sat s q) = Some r"
      using r(3) by (simp add: q entry_for_def)
    define c' where "c' = min sz (unat (r_size r))"
    have c': "0 < c'" "c' \<le> sz" "c' \<le> unat (r_size r)"
      using False kj by (simp_all add: c'_def)
    have q_lt: "q < sat_elements"
      using kj kq by (simp add: sat_elements_eq)
    have rest: "\<exists>calls. copy_loop s q c' (sz - c') = Inr calls
        \<and> call_positions s calls = map Some [e + c'..<e + sz]"
    proof (cases "sz = c'")
      case True
      then show ?thesis
        by (simp add: copy_loop.simps call_positions_def)
    next
      case neq: False
      then have c'_eq: "c' = j * 2 ^ 22"
        using kj by (simp add: c'_def min_def split: if_splits)
      have "\<exists>calls. copy_loop s q c' (sz - c') = Inr calls
        \<and> call_positions s calls = map Some [e + c'..<e + c' + (sz - c')]"
      proof (rule less.IH)
        show "sz - c' < sz" using c' by simp
        show "q * 2 ^ 22 < e + c'" and "e + c' - c' < (q + 1) * 2 ^ 22" and "q * 2 ^ 22 \<le> e + c' - c'"
          and "c' \<le> e + c'"
          using q c' by simp_all
        show "0 < c'" by fact
        show "c' \<le> 1024 * 2 ^ 22" using c'_eq kj by simp
        show "2 ^ 22 dvd e + c'" using q c'_eq by simp
        show "e + c' + (sz - c') \<le> n * 2 ^ 22" using less.prems(9) c' by simp
        show "unat (r_offset t) = e + c'" if "t \<in> set (regions s)" "in_region t (e + c')" for t
          using next_region_offset [OF ok r(1) that(1)] that(2) off kj c'_eq by simp
      qed
      then show ?thesis using c' by simp
    qed
    then obtain calls where calls: "copy_loop s q c' (sz - c') = Inr calls"
      "call_positions s calls = map Some [e + c'..<e + sz]" by blast
    have inc_eq: "(c + unat segment_size - Suc 0) div unat segment_size = inc"
      by (simp add: inc_def)
    have "copy_loop s seg c sz = Inr (((data r, 0), c') # calls)"
      using False inc q_lt sat_r c' calls(1) seg'
      by (subst copy_loop.simps) (simp add: Let_def inc_eq c'_def [symmetric] rbind_def)
    moreover have "call_positions s (((data r, 0), c') # calls) = map Some [e..<e + sz]"
    proof -
      have "map (\<lambda>j. pointer_position s (data r, j)) [0..<c'] = map Some [e..<e + c']"
        using call_positions_piece [OF ok r(1,2), of c'] off c' by simp
      moreover have "[e..<e + sz] = [e..<e + c'] @ [e + c'..<e + sz]"
        using c' upt_add_eq_append [of e "e + c'" "sz - c'"] by simp
      ultimately show ?thesis
        using calls(2) by (simp add: call_positions_def)
    qed
    ultimately show ?thesis by blast
  qed
qed

lemma storage_copy_ok:
  assumes ok: "storage_ok s n" and a: "unat a < n * 2 ^ 22" and fits: "unat a + sz \<le> n * 2 ^ 22"
  shows "\<exists>calls. storage_copy s a sz = Inr calls \<and> call_positions s calls = map Some [unat a..<unat a + sz]"
proof -
  let ?a = "unat a"
  obtain r where r: "r \<in> set (regions s)" "in_region r ?a" "sat_region (sat s (unat (segment a))) = Some r"
    "address_to_pointer s a = Some (data r, ?a - unat (r_offset r))"
    using address_to_pointer_ok [OF ok a] by blast
  then obtain i where v: "sat_value (sat s (unat (segment a))) = Some (data r, i)"
    and p: "i + unat (offset a) = ?a - unat (r_offset r)"
    by (auto simp: address_to_pointer_def segment_base_def split: option.splits)
  define e where "e = unat (r_offset r) + unat (r_size r)"
  have e: "unat (r_offset r) \<le> ?a" "?a < e"
    using r(2) by (simp_all add: in_region_def e_def)
  define c where "c = min (e - ?a) sz"
  have c_eq: "min (unat (r_size r) - (?a - unat (r_offset r))) sz = c"
    using e by (simp add: c_def e_def)
  obtain k j where kj: "unat (r_offset r) = k * 2 ^ 22" "unat (r_size r) = j * 2 ^ 22" "j \<le> 1024"
    using ok r(1) mapped_segments_member [of 0 "regions s" n r] by (auto simp: storage_ok_def)
  have "\<exists>calls. copy_loop s (unat (segment a)) c (sz - c) = Inr calls
      \<and> call_positions s calls = map Some [?a + c..<?a + sz]"
  proof (cases "sz \<le> e - ?a")
    case True
    then show ?thesis
      by (simp add: c_def copy_loop.simps call_positions_def)
  next
    case False
    then have c: "c = e - ?a" by (simp add: c_def)
    have seg: "unat (segment a) = ?a div 2 ^ 22"
      using ok a by (rule storage_ok_segment)
    have "\<exists>calls. copy_loop s (unat (segment a)) c (sz - c) = Inr calls
      \<and> call_positions s calls = map Some [e..<e + (sz - c)]"
    proof (rule copy_loop_spec [OF ok])
      show "unat (segment a) * 2 ^ 22 < e"
        using e(2) by (simp add: seg order_le_less_trans [OF div_times_less_eq_dividend])
      show "e - c < (unat (segment a) + 1) * 2 ^ 22" "unat (segment a) * 2 ^ 22 \<le> e - c" "c \<le> e" "0 < c"
        using c e seg dividend_less_div_times [of "2 ^ 22" ?a] div_times_less_eq_dividend [of ?a "2 ^ 22"]
        by auto
      show "c \<le> 1024 * 2 ^ 22"
        using c e kj by (simp add: e_def)
      show "2 ^ 22 dvd e"
        using kj by (simp add: e_def)
      show "unat (r_offset t) = e" if "t \<in> set (regions s)" "in_region t e" for t
        using next_region_offset [OF ok r(1) that(1)] that(2) by (simp add: e_def)
      show "e + (sz - c) \<le> n * 2 ^ 22"
        using fits c e False by simp
    qed
    then show ?thesis
      using c e False by (simp add: add.commute)
  qed
  then obtain calls where calls: "copy_loop s (unat (segment a)) c (sz - c) = Inr calls"
    "call_positions s calls = map Some [?a + c..<?a + sz]" by blast
  have "?a - unat (r_offset r) \<le> unat (r_size r)"
    using e by (simp add: e_def)
  then have "storage_copy s a sz = Inr (((data r, ?a - unat (r_offset r)), c) # calls)"
    using v r(3) calls(1) by (simp add: storage_copy_def Let_def p c_eq rbind_def)
  moreover have "call_positions s (((data r, ?a - unat (r_offset r)), c) # calls) = map Some [?a..<?a + sz]"
  proof -
    have "?a - unat (r_offset r) + c \<le> unat (r_size r)"
      using e by (simp add: c_def e_def)
    then show ?thesis
      using call_positions_piece [OF ok r(1,2), of c] calls(2) upt_add_eq_append [of ?a "?a + c" "sz - c"]
      by (simp add: call_positions_def c_def)
  qed
  ultimately show ?thesis by blast
qed

lemma request_spans_iff:
  assumes "storage_ok s n" and "0 < sz" and "unat a + unat sz \<le> n * 2 ^ 22"
  shows "request_spans_regions s a sz \<longleftrightarrow>
    \<not> (\<exists>r \<in> set (regions s). in_region r (unat a) \<and> in_region r (unat a + unat sz - 1))"
proof -
  have pos: "0 < unat sz"
    using assms(2) by (simp add: word_less_nat_alt)
  have n16: "n \<le> 2 ^ 16"
    using assms(1) mapped_segments_bound [of 0 "regions s" n] by (simp add: storage_ok_def)
  have e: "unat (a + sz - 1) = unat a + unat sz - 1"
  proof -
    have "unat (a + sz) = unat a + unat sz"
      using assms(3) n16 by (intro unat_plus_no_wrap) simp
    then show ?thesis
      using pos by (subst unat_diff_no_wrap) (simp_all add: word_le_nat_alt)
  qed
  obtain r where r: "r \<in> set (regions s)" "in_region r (unat a)" "sat_region (sat s (unat (segment a))) = Some r"
    using address_to_pointer_ok [OF assms(1), of a] assms(3) pos by auto
  have "unat a + unat sz - 1 < n * 2 ^ 22"
    using assms(3) pos by linarith
  then obtain t where t: "t \<in> set (regions s)" "in_region t (unat a + unat sz - 1)"
    "sat_region (sat s (unat (segment (a + sz - 1)))) = Some t"
    using address_to_pointer_ok [OF assms(1), of "a + sz - 1"] unfolding e by blast
  have uniq: "q = r" if "q \<in> set (regions s)" "in_region q b" "in_region r b" for q b
    using that r(1) assms(1) mapped_segments_unique [of 0 "regions s" n q r] by (auto simp: storage_ok_def)
  have "request_spans_regions s a sz \<longleftrightarrow> r \<noteq> t"
    using assms(2) r(3) t(3) by (auto simp: request_spans_regions_def)
  also have "\<dots> \<longleftrightarrow> \<not> (\<exists>q \<in> set (regions s). in_region q (unat a) \<and> in_region q (unat a + unat sz - 1))"
    using r t uniq by blast
  finally show ?thesis .
qed

section \<open>Write protection\<close>

lemma unat_round_down:
  assumes "page_size = 2 ^ k" and "k < 64"
  shows "unat (round_down x page_size) = unat x div 2 ^ k * 2 ^ k"
proof -
  have "round_down x page_size = push_bit k (drop_bit k x)"
    by (rule bit_word_eqI)
      (auto simp: round_down_def assms bit_and_iff bit_not_iff bit_push_bit_iff bit_drop_bit_eq
        mask_eq_exp_minus_1 [symmetric] bit_mask_iff)
  moreover have d: "unat (drop_bit k x) = unat x div 2 ^ k"
    by (subst unat_drop_bit_eq) (rule drop_bit_eq_div)
  moreover have "unat x div 2 ^ k * 2 ^ k < 2 ^ 64"
    using unsigned_less [of x, where 'a = nat] by (simp add: le_less_trans [OF div_times_less_eq_dividend])
  moreover have "unat (2 ^ k :: u64) = 2 ^ k"
    using assms(2) by (simp add: unat_exp)
  ultimately show ?thesis
    by (simp add: push_bit_eq_mult unat_word_ariths)
qed

lemma protect_loop_spec:
  assumes ok: "storage_ok s n" and "mapped_segments 0 rs = Some m" and "set rs \<subseteq> set (regions s)"
    and page: "\<forall>r \<in> set (regions s). r_offset r mod page_size = 0"
  shows "\<exists>calls. protect_loop page_size s f l (rev rs) = Inr calls
    \<and> set (call_positions s (map (\<lambda>(p, c). (p, unat c)) calls))
        = Some ` ({unat f..<unat l} \<inter> {..<m * 2 ^ 22})"
  using assms(2,3)
proof (induction rs arbitrary: m rule: rev_induct)
  case Nil
  then show ?case by (simp add: call_positions_def)
next
  case (snoc r rs)
  from snoc.prems(1) obtain k where k: "mapped_segments 0 rs = Some k" "mapped_segments k [r] = Some m"
    by (auto simp: mapped_segments_append bind_eq_Some_conv)
  from mapped_segments_member [OF k(2), of r] k(2) obtain j where
    j: "unat (r_offset r) = k * 2 ^ 22" "unat (r_size r) = j * 2 ^ 22" "m = k + j" "k + j \<le> 2 ^ 16"
    by (auto split: if_splits)
  have mn: "m \<le> n" and rin: "r \<in> set (regions s)"
  proof -
    show "r \<in> set (regions s)" using snoc.prems(2) by simp
    then obtain k' j' where "unat (r_offset r) = k' * 2 ^ 22" "unat (r_size r) = j' * 2 ^ 22" "k' + j' \<le> n"
      using ok mapped_segments_member [of 0 "regions s" n r] by (auto simp: storage_ok_def)
    then show "m \<le> n" using j by simp
  qed
  have pg: "rassert (r_offset r mod page_size = 0) = Inr ()"
    using page rin by (simp add: rassert_def)
  have e: "unat (r_offset r + r_size r) = m * 2 ^ 22"
    using j by (simp add: unat_plus_no_wrap add_mult_distrib)
  obtain calls where calls: "protect_loop page_size s f l (rev rs) = Inr calls"
    "set (call_positions s (map (\<lambda>(p, c). (p, unat c)) calls)) = Some ` ({unat f..<unat l} \<inter> {..<k * 2 ^ 22})"
    using snoc.IH [OF k(1)] snoc.prems(2) by auto
  define fo where "fo = max (r_offset r) f"
  define lo where "lo = min (r_offset r + r_size r) l"
  have fo: "unat fo = max (k * 2 ^ 22) (unat f)" and lo: "unat lo = min (m * 2 ^ 22) (unat l)"
    using j(1) e by (auto simp: fo_def lo_def max_def min_def word_le_nat_alt)
  have range: "{unat f..<unat l} \<inter> {..<m * 2 ^ 22} = {unat fo..<unat lo} \<union> ({unat f..<unat l} \<inter> {..<k * 2 ^ 22})"
    using j(3) unfolding fo lo by auto
  consider (stop) "m * 2 ^ 22 < unat fo" | (call) "unat fo < unat lo" | (skip) "unat fo \<le> m * 2 ^ 22" "unat lo \<le> unat fo"
    by linarith
  then show ?case
  proof cases
    case stop
    then have "{unat f..<unat l} \<inter> {..<m * 2 ^ 22} = {}"
      using j(3) by (auto simp: fo)
    with stop e show ?thesis
      by (intro exI [of _ "[]"])
        (simp add: Let_def fo_def [symmetric] word_less_nat_alt [of "r_offset r + r_size r"] call_positions_def pg rbind_def)
  next
    case call
    have in_r: "in_region r (unat fo)"
      using call j by (simp add: in_region_def fo lo)
    obtain t where t: "t \<in> set (regions s)" "in_region t (unat fo)"
      "address_to_pointer s fo = Some (data t, unat fo - unat (r_offset t))"
      using address_to_pointer_ok [OF ok, of fo] call mn by (auto simp: lo)
    have "t = r"
      using ok t(1,2) rin in_r mapped_segments_unique [of 0 "regions s" n t r] by (auto simp: storage_ok_def)
    with t(3) have ptr: "address_to_pointer s fo = Some (data r, unat fo - unat (r_offset r))" by simp
    have len: "unat (lo - fo) = unat lo - unat fo"
      using call by (intro unat_diff_no_wrap) (simp add: word_le_nat_alt)
    have "unat fo - unat (r_offset r) + (unat lo - unat fo) \<le> unat (r_size r)"
      using call j by (simp add: fo lo)
    then have piece: "map (\<lambda>i. pointer_position s (data r, unat fo - unat (r_offset r) + i)) [0..<unat lo - unat fo]
        = map Some [unat fo..<unat lo]"
      using call_positions_piece [OF ok rin in_r, of "unat lo - unat fo"] call by simp
    have "\<not> r_offset r + r_size r < fo" "f \<le> fo" "fo < lo"
      using call e lo by (simp_all add: word_less_nat_alt fo_def)
    moreover have "lo - r_offset r \<le> r_size r"
    proof -
      have "unat (lo - r_offset r) = unat lo - k * 2 ^ 22"
        using call j(1) fo by (subst unat_diff_no_wrap) (simp_all add: word_le_nat_alt)
      then show ?thesis
        using j lo by (simp add: word_le_nat_alt)
    qed
    ultimately have "protect_loop page_size s f l (rev (rs @ [r]))
        = Inr (((data r, unat fo - unat (r_offset r)), lo - fo) # calls)"
      using ptr calls(1) pg
      by (simp add: Let_def fo_def [symmetric] lo_def [symmetric] rbind_def rassert_def)
    moreover have "set (call_positions s (map (\<lambda>(p, c). (p, unat c)) (((data r, unat fo - unat (r_offset r)), lo - fo) # calls)))
        = Some ` {unat fo..<unat lo} \<union> Some ` ({unat f..<unat l} \<inter> {..<k * 2 ^ 22})"
      using calls(2) piece len by (simp add: call_positions_def)
    ultimately show ?thesis
      unfolding range image_Un
      by (intro exI [of _ "((data r, unat fo - unat (r_offset r)), lo - fo) # calls"]) simp
  next
    case skip
    have "protect_loop page_size s f l (rev (rs @ [r])) = Inr calls"
      using skip e calls(1) pg
      by (simp add: Let_def fo_def [symmetric] lo_def [symmetric] word_less_nat_alt rbind_def)
    moreover have "{unat fo..<unat lo} = {}"
      using skip by simp
    ultimately show ?thesis
      using calls(2) unfolding range by auto
  qed
qed

section \<open>Shrinking\<close>

lemma map_bytes_drop:
  assumes "storage_ok s n" and "regions s = rs @ [r]" and "rs \<noteq> []"
    and "r_offset (last rs) \<le> small" and "small < r_offset r"
  shows "map_bytes small s = (Inr (), s\<lparr>regions := rs\<rparr>)"
proof -
  obtain k where "mapped_segments 0 rs = Some k" "mapped_segments k [r] = Some n"
    using assms(1,2) by (auto simp: storage_ok_def mapped_segments_append bind_eq_Some_conv)
  then have r: "unat (r_offset r) = k * 2 ^ 22" "k < n"
    by (auto split: if_splits dest!: dvd_imp_le simp: div_greater_zero_iff)
  have "unat (region_end r) = n * 2 ^ 22"
    using mapped_segments_end [of 0 "regions s" n] assms(1,2) by (simp add: storage_ok_def)
  then have "small < region_end r" "\<not> region_end r < small"
    using assms(5) r by (simp_all add: word_less_nat_alt)
  moreover have "rev (pop_regions small (rev (regions s))) = rs"
    using assms(2-5) by (cases rs rule: rev_cases) simp_all
  ultimately show ?thesis
    using assms(2) by (simp add: map_bytes_def run_simps Let_def)
qed

lemma shrink_then_grow:
  assumes "storage_ok s n" and "regions s = rs @ [r]" and "rs \<noteq> []"
    and "r_offset (last rs) \<le> small" and "small < r_offset r"
    and "r_offset r < large" and "unat large \<le> 2 ^ 38"
  shows "\<exists>s'. map_bytes small s = (Inr (), s') \<and> regions s' = rs \<and> sat s' = sat s
    \<and> fst (map_bytes large s') = Inl Assertion"
proof -
  define s' where "s' = s\<lparr>regions := rs\<rparr>"
  obtain k where k: "mapped_segments 0 rs = Some k" "mapped_segments k [r] = Some n"
    using assms(1,2) by (auto simp: storage_ok_def mapped_segments_append bind_eq_Some_conv)
  then have r: "unat (r_offset r) = k * 2 ^ 22" "k < n"
    by (auto split: if_splits dest!: dvd_imp_le simp: div_greater_zero_iff)
  have k0: "0 < k"
    using mapped_segments_member [OF k(1), of "last rs"] assms(3) by fastforce
  have shrink: "map_bytes small s = (Inr (), s')"
    using map_bytes_drop [OF assms(1-5)] by (simp add: s'_def)
  have "k * 2 ^ 22 < unat large"
    using assms(6) r by (simp add: word_less_nat_alt)
  moreover have "mapped_segments 0 (regions s') = Some k"
    using k(1) by (simp add: s'_def)
  ultimately obtain s2 rs' where
    step: "map_bytes large s' = update_master_pointers (length (regions s')) s2"
    and s2: "regions s2 = regions s' @ rs'" "rs' \<noteq> []" "sat s2 = sat s'"
    and new: "mapped_segments k rs' = Some (round_up_nat (unat large) (2 ^ 22) div 2 ^ 22)"
    using map_bytes_grow_regions [OF _ _ assms(7) refl, of s' k] by metis
  have "sat_value (sat s i) \<noteq> None" if "i < n" for i
    using assms(1) that by (auto simp: storage_ok_def entry_for_def)
  then have "sat_value (sat s2 (k - 1)) \<noteq> None" "sat_value (sat s2 k) \<noteq> None"
    using r(2) k0 s2(3) by (simp_all add: s'_def)
  then have "fst (map_bytes large s') = Inl Assertion"
    unfolding step using update_master_pointers_stale [OF k(1) new assms(3) s2(2), of s2] s2(1)
    by (simp add: s'_def)
  with shrink show ?thesis
    by (auto simp: s'_def)
qed

lemma protect_ok:
  assumes "storage_ok s n" and "page_size = 2 ^ k" and "k \<le> 22"
  shows "\<exists>calls. protect page_size s a b = Inr calls
    \<and> set (call_positions s (map (\<lambda>(p, c). (p, unat c)) calls))
        = Some ` {i. unat a div 2 ^ k * 2 ^ k \<le> i \<and> i < unat b div 2 ^ k * 2 ^ k
                     \<and> round_up_nat 64 (2 ^ k) \<le> i \<and> i < n * 2 ^ 22}"
proof -
  have ps: "unat page_size = 2 ^ k"
    using assms(2,3) by (simp add: unat_exp)
  have k2: "(2::nat) ^ k < 2 ^ 32"
    using assms(3) by (intro power_strict_increasing) simp_all
  have "unat (leader_size + page_size - 1) = 64 + 2 ^ k - 1"
  proof -
    have "unat (leader_size + page_size) = 64 + 2 ^ k"
      using k2 ps by (subst unat_plus_no_wrap) (simp_all add: leader_size_def)
    then show ?thesis
      by (subst unat_diff_no_wrap) (simp_all add: word_le_nat_alt)
  qed
  then have lead: "unat (round_down (leader_size + page_size - 1) page_size) = round_up_nat 64 (2 ^ k)"
    using assms by (subst unat_round_down) (simp_all add: round_up_nat_def)
  have umax: "unat (max x y) = max (unat x) (unat y)" for x y :: u64
    by (auto simp: max_def word_le_nat_alt)
  have k64: "k < 64"
    using assms(3) by simp
  have range: "{unat (max (round_down a page_size) (round_down (leader_size + page_size - 1) page_size))
        ..<unat (round_down b page_size)} \<inter> {..<n * 2 ^ 22}
      = {i. unat a div 2 ^ k * 2 ^ k \<le> i \<and> i < unat b div 2 ^ k * 2 ^ k
            \<and> round_up_nat 64 (2 ^ k) \<le> i \<and> i < n * 2 ^ 22}"
    unfolding umax lead unfolding unat_round_down [OF assms(2) k64] by auto
  have "mapped_segments 0 (regions s) = Some n"
    using assms(1) by (simp add: storage_ok_def)
  moreover have "\<forall>r \<in> set (regions s). r_offset r mod page_size = 0"
  proof
    fix r assume "r \<in> set (regions s)"
    then obtain i where "unat (r_offset r) = i * 2 ^ 22"
      using assms(1) mapped_segments_member [of 0 "regions s" n r] by (auto simp: storage_ok_def)
    moreover have "(2::nat) ^ k dvd 2 ^ 22"
      using assms(3) by (rule le_imp_power_dvd)
    ultimately show "r_offset r mod page_size = 0"
      by (simp add: word_unat_eq_iff unat_mod ps dvd_mult)
  qed
  moreover have "rassert (0 < page_size \<and> is_power_of_two page_size) = Inr ()"
  proof -
    have "is_power_of_two page_size"
      unfolding is_power_of_two_iff using assms(2) k64 by (intro exI [of _ k]) (simp add: one_bit_def)
    then show ?thesis
      by (simp add: rassert_def word_less_nat_alt ps)
  qed
  ultimately show ?thesis
    unfolding protect_def range [symmetric] using protect_loop_spec [OF assms(1), of "regions s" n]
    by (simp add: rbind_def)
qed

section \<open>Properties\<close>

text \<open>
  Two stores on which the properties are evaluated: one with no regions yet and one with two
  regions of one segment each.
\<close>

definition empty_storage :: storage where
  "empty_storage = \<lparr>regions = [], sat = (\<lambda>_. null_entry), file_size = 0, mappings = 0\<rparr>"

definition two_regions :: storage where
  "two_regions =
     (let r0 = \<lparr>data = 0, r_offset = 0, r_size = 0x400000\<rparr>;
          r1 = \<lparr>data = 1, r_offset = 0x400000, r_size = 0x400000\<rparr>
      in \<lparr>regions = [r0, r1],
          sat = (\<lambda>i. if i = 0 then entry_for r0 0 else if i = 1 then entry_for r1 1 else null_entry),
          file_size = 0x800000, mappings = 2\<rparr>)"

lemma empty_storage_ok: "storage_ok empty_storage 0" "sat_clear_from empty_storage 0"
  by (simp_all add: empty_storage_def storage_ok_def sat_clear_from_def)

lemma two_regions_ok: "storage_ok two_regions 2"
  by (simp add: two_regions_def Let_def storage_ok_def in_region_def less_2_cases_iff unat_full_region_size)

text \<open>
  C5. Growing the mapped part of the file succeeds for every size up to the 2^38 bytes that the
  segment address table can describe: no assertion of the storage layer fires, the file gets the
  new size rounded up to a whole number of segments, its regions stay contiguous with a table
  entry for every segment, every address below the new size translates to the byte at
  that position in the file, and no pointer handed out before changes.
\<close>

theorem map_bytes_grows_flat_file:
  assumes "storage_ok s n" and "sat_clear_from s n"
    and "n * 2 ^ 22 < unat new_size" and "unat new_size \<le> 2 ^ 38"
  shows "\<exists>s'. map_bytes new_size s = (Inr (), s')
    \<and> storage_ok s' (round_up_nat (unat new_size) (2 ^ 22) div 2 ^ 22)
    \<and> sat_clear_from s' (round_up_nat (unat new_size) (2 ^ 22) div 2 ^ 22)
    \<and> file_size s' = round_up new_size min_region_size
    \<and> (\<forall>a. unat a < unat new_size \<longrightarrow>
          Option.bind (address_to_pointer s' a) (pointer_position s') = Some (unat a))
    \<and> (\<forall>a. unat a < n * 2 ^ 22 \<longrightarrow> address_to_pointer s' a = address_to_pointer s a)"
proof -
  let ?m = "round_up_nat (unat new_size) (2 ^ 22) div 2 ^ 22"
  obtain s' where s': "map_bytes new_size s = (Inr (), s')" "storage_ok s' ?m" "sat_clear_from s' ?m"
    "\<forall>i < n. sat s' i = sat s i" "file_size s' = round_up new_size min_region_size"
    using map_bytes_grow [OF assms refl] by blast
  have m: "unat new_size \<le> ?m * 2 ^ 22"
    using round_up_nat_spec(1) [of "2 ^ 22" "unat new_size"] by (simp add: round_up_nat_def)
  have "Option.bind (address_to_pointer s' a) (pointer_position s') = Some (unat a)"
    if "unat a < unat new_size" for a
    using address_to_pointer_ok [OF s'(2), of a] pointer_position_in_region [OF s'(2)] that m by auto
  moreover have "address_to_pointer s' a = address_to_pointer s a" if "unat a < n * 2 ^ 22" for a
  proof -
    have "unat (segment a) < n"
      using storage_ok_segment [OF assms(1) that] that by (simp add: div_less_iff_less_mult)
    then show ?thesis
      using s'(4) by (simp add: address_to_pointer_def segment_base_def)
  qed
  ultimately show ?thesis
    using s' by blast
qed

theorem map_bytes_grows_flat_file_witness:
  "\<exists>s'. map_bytes 0x500000 empty_storage = (Inr (), s') \<and> storage_ok s' 2
    \<and> Option.bind (address_to_pointer s' 0x4ABCDE) (pointer_position s') = Some 0x4ABCDE"
proof -
  have "round_up_nat 0x500000 (2 ^ 22) div 2 ^ 22 = 2"
    by (simp add: round_up_nat_def)
  then show ?thesis
    using map_bytes_grows_flat_file [OF empty_storage_ok, of "0x500000"] by force
qed

text \<open>
  C11. A copy between a buffer and the store, whatever regions it crosses, runs without a
  failed assertion and touches exactly the bytes of the requested extent, each once and in
  ascending order.
\<close>

theorem storage_copy_touches_extent:
  assumes "storage_ok s n" and "unat a < n * 2 ^ 22" and "unat a + sz \<le> n * 2 ^ 22"
  shows "\<exists>calls. storage_copy s a sz = Inr calls
    \<and> call_positions s calls = map Some [unat a..<unat a + sz]"
  using assms by (rule storage_copy_ok)

theorem storage_copy_touches_extent_witness:
  "\<exists>calls. storage_copy two_regions 0x3FFFF0 0x20 = Inr calls
    \<and> call_positions two_regions calls = map Some [0x3FFFF0..<0x400010]"
  using storage_copy_touches_extent [OF two_regions_ok, of "0x3FFFF0" "0x20"] by simp

text \<open>
  C16. The store decides that a request has to be copied (rather than addressed in place)
  exactly when its first and its last byte are in different regions.
\<close>

theorem request_spans_regions_iff:
  assumes "storage_ok s n" and "0 < sz" and "unat a + unat sz \<le> n * 2 ^ 22"
  shows "request_spans_regions s a sz \<longleftrightarrow>
    \<not> (\<exists>r \<in> set (regions s). in_region r (unat a) \<and> in_region r (unat a + unat sz - 1))"
  using assms by (rule request_spans_iff)

theorem request_spans_regions_iff_witness:
  "request_spans_regions two_regions 0x3FFFF0 0x20 \<longleftrightarrow>
    \<not> (\<exists>r \<in> set (regions two_regions). in_region r 0x3FFFF0 \<and> in_region r 0x40000F)"
  using request_spans_regions_iff [OF two_regions_ok, of "0x20" "0x3FFFF0"] by simp



text \<open>
  C17. Shrinking the mapped part of the file does not clear the table entries of the regions that
  it drops (the source's loop resets copies of the entries): once a shrink has dropped the last
  region, growing again fails an assertion.
\<close>

theorem map_bytes_shrink_then_grow_asserts:
  assumes "storage_ok s n" and "regions s = rs @ [r]" and "rs \<noteq> []"
    and "r_offset (last rs) \<le> small" and "small < r_offset r"
    and "r_offset r < large" and "unat large \<le> 2 ^ 38"
  shows "\<exists>s'. map_bytes small s = (Inr (), s') \<and> regions s' = rs \<and> sat s' = sat s
    \<and> fst (map_bytes large s') = Inl Assertion"
  using assms by (rule shrink_then_grow)

theorem map_bytes_shrink_then_grow_asserts_witness:
  "\<exists>s'. map_bytes 0x100000 two_regions = (Inr (), s') \<and> fst (map_bytes 0x500000 s') = Inl Assertion"
  using map_bytes_shrink_then_grow_asserts [OF two_regions_ok,
      of "[regions two_regions ! 0]" "regions two_regions ! 1" "0x100000" "0x500000"]
  by (auto simp: two_regions_def Let_def)

end
