(* ===== verification/Array_Stack.thy ===== *)
theory Array_Stack
  imports Pstore_Prelude
begin

text \<open>
  A stack in a fixed-size array (\<^verbatim>\<open>include/pstore/core/array_stack.hpp\<close>), and the abstract stack
  that it implements as long as its capacity is not exceeded.
\<close>

section \<open>Operations\<close>

text \<open>The array, with an arbitrary value where nothing was pushed yet, and the number of elements.\<close>

record 'a array_stack =
  stack_c :: "'a list"
  stack_elements :: nat

definition stack_init :: "'a \<Rightarrow> nat \<Rightarrow> 'a array_stack" where
  "stack_init x n = \<lparr>stack_c = replicate n x, stack_elements = 0\<rparr>"

definition stack_begin_end :: "'a array_stack \<Rightarrow> 'a list" where
  "stack_begin_end s = take (stack_elements s) (stack_c s)"

definition stack_eq :: "'a array_stack \<Rightarrow> 'a array_stack \<Rightarrow> bool" where
  "stack_eq s t \<longleftrightarrow> stack_elements s = stack_elements t \<and> stack_begin_end s = stack_begin_end t"

definition stack_empty :: "'a array_stack \<Rightarrow> bool" where
  "stack_empty s \<longleftrightarrow> stack_elements s = 0"

definition stack_size :: "'a array_stack \<Rightarrow> nat" where
  "stack_size s = stack_elements s"

definition stack_top :: "'a array_stack \<Rightarrow> exn + 'a" where
  "stack_top s =
     rbind (rassert (0 < stack_elements s)) (\<lambda>_. Inr (stack_c s ! (stack_elements s - 1)))"

definition stack_push :: "'a \<Rightarrow> 'a array_stack \<Rightarrow> exn + 'a array_stack" where
  "stack_push x s =
     rbind (rassert (stack_elements s < length (stack_c s))) (\<lambda>_.
     Inr (s\<lparr>stack_c := (stack_c s)[stack_elements s := x], stack_elements := stack_elements s + 1\<rparr>))"

definition stack_set_top :: "'a \<Rightarrow> 'a array_stack \<Rightarrow> exn + 'a array_stack" where
  "stack_set_top x s =
     rbind (rassert (0 < stack_elements s)) (\<lambda>_.
     Inr (s\<lparr>stack_c := (stack_c s)[stack_elements s - 1 := x]\<rparr>))"

definition stack_pop :: "'a array_stack \<Rightarrow> exn + 'a array_stack" where
  "stack_pop s =
     rbind (rassert (0 < stack_elements s)) (\<lambda>_. Inr (s\<lparr>stack_elements := stack_elements s - 1\<rparr>))"

section \<open>The abstract stack\<close>

text \<open>
  A bounded stack, as its clients see it: a list of elements, the top one first, and a capacity.
\<close>

locale bounded_stack =
  fixes wf :: "'s \<Rightarrow> bool" and elems :: "'s \<Rightarrow> 'a list" and capacity :: "'s \<Rightarrow> nat"
    and push :: "'a \<Rightarrow> 's \<Rightarrow> exn + 's" and pop :: "'s \<Rightarrow> exn + 's" and top :: "'s \<Rightarrow> exn + 'a"
  assumes push_ok: "wf s \<Longrightarrow> length (elems s) < capacity s \<Longrightarrow>
      \<exists>s'. push x s = Inr s' \<and> wf s' \<and> elems s' = x # elems s \<and> capacity s' = capacity s"
    and push_full: "wf s \<Longrightarrow> \<not> length (elems s) < capacity s \<Longrightarrow> push x s = Inl Assertion"
    and pop_ok: "wf s \<Longrightarrow> elems s = x # xs \<Longrightarrow>
      \<exists>s'. pop s = Inr s' \<and> wf s' \<and> elems s' = xs \<and> capacity s' = capacity s"
    and pop_empty: "wf s \<Longrightarrow> elems s = [] \<Longrightarrow> pop s = Inl Assertion"
    and top_ok: "wf s \<Longrightarrow> elems s = x # xs \<Longrightarrow> top s = Inr x"
    and top_empty: "wf s \<Longrightarrow> elems s = [] \<Longrightarrow> top s = Inl Assertion"
begin

lemma push_pop: "wf s \<Longrightarrow> push x s = Inr s' \<Longrightarrow> \<exists>s''. pop s' = Inr s'' \<and> wf s'' \<and> elems s'' = elems s"
  using push_ok [of s x] push_full [of s x] pop_ok by fastforce

lemma push_top: "wf s \<Longrightarrow> push x s = Inr s' \<Longrightarrow> top s' = Inr x"
  using push_ok [of s x] push_full [of s x] top_ok by fastforce

end

definition stack_wf :: "'a array_stack \<Rightarrow> bool" where
  "stack_wf s \<longleftrightarrow> stack_elements s \<le> length (stack_c s)"

definition stack_elems :: "'a array_stack \<Rightarrow> 'a list" where
  "stack_elems s = rev (stack_begin_end s)"

lemmas stack_defs =
  stack_wf_def stack_elems_def stack_begin_end_def stack_push_def stack_pop_def stack_top_def
  rbind_def rassert_def

lemma stack_elems_Cons:
  assumes "stack_wf s" and "stack_elems s = x # xs"
  shows "0 < stack_elements s" and "stack_c s ! (stack_elements s - 1) = x"
    and "rev (take (stack_elements s - 1) (stack_c s)) = xs"
proof -
  show pos: "0 < stack_elements s"
    using assms by (cases "stack_elements s") (simp_all add: stack_elems_def stack_begin_end_def)
  have "take (stack_elements s) (stack_c s)
      = take (stack_elements s - 1) (stack_c s) @ [stack_c s ! (stack_elements s - 1)]"
    using assms(1) pos take_Suc_conv_app_nth [of "stack_elements s - 1" "stack_c s"]
    by (simp add: stack_wf_def)
  with assms(2) show "stack_c s ! (stack_elements s - 1) = x"
    "rev (take (stack_elements s - 1) (stack_c s)) = xs"
    by (simp_all add: stack_elems_def stack_begin_end_def)
qed

interpretation astack: bounded_stack stack_wf stack_elems "\<lambda>s. length (stack_c s)" stack_push stack_pop stack_top
proof
  fix s :: "'a array_stack" and x xs
  assume wf: "stack_wf s"
  then have len: "length (stack_elems s) = stack_elements s"
    by (simp add: stack_elems_def stack_begin_end_def stack_wf_def)
  show "\<exists>s'. stack_push x s = Inr s' \<and> stack_wf s' \<and> stack_elems s' = x # stack_elems s
      \<and> length (stack_c s') = length (stack_c s)" if "length (stack_elems s) < length (stack_c s)"
    using that len by (simp add: stack_defs take_Suc_conv_app_nth)
  show "stack_push x s = Inl Assertion" if "\<not> length (stack_elems s) < length (stack_c s)"
    using that len by (simp add: stack_defs)
  show "stack_pop s = Inl Assertion" "stack_top s = Inl Assertion" if "stack_elems s = []"
    using arg_cong [OF that, of length] len by (simp_all add: stack_pop_def stack_top_def rbind_def rassert_def)
  assume "stack_elems s = x # xs"
  from stack_elems_Cons [OF wf this] wf
  show "\<exists>s'. stack_pop s = Inr s' \<and> stack_wf s' \<and> stack_elems s' = xs
      \<and> length (stack_c s') = length (stack_c s)" and "stack_top s = Inr x"
    by (simp_all add: stack_defs)
qed

section \<open>Properties\<close>



end
