(* ===== verification/Hamt_Nodes.thy ===== *)
theory Hamt_Nodes
  imports Array_Stack Little_Endian Aligned
begin

unbundle bit_operations_syntax

text \<open>
  The nodes of the hash array mapped tries (\<^verbatim>\<open>include/pstore/core/hamt_map_types.hpp\<close>,
  \<^verbatim>\<open>lib/core/hamt_map_types.cpp\<close>): tagged index pointers, internal nodes with a bitmap and as many
  children as it has one-bits, linear nodes for keys whose hashes are the same, their images in
  the store, and the nodes' life on the C++ heap.
\<close>

section \<open>Constants\<close>

definition hash_index_bits :: nat where "hash_index_bits = pop_count (8 * 8 - 1 :: u64)"
definition hash_size :: nat where "hash_size = 8 * 8"
definition max_hash_bits :: nat where
  "max_hash_bits = (hash_size + 7) div hash_index_bits * hash_index_bits"
definition hash_index_mask :: u64 where "hash_index_mask = push_bit hash_index_bits 1 - 1"
definition max_internal_depth :: nat where "max_internal_depth = max_hash_bits div hash_index_bits"
definition max_tree_depth :: nat where "max_tree_depth = max_internal_depth + 2"
definition internal_node_bit :: u64 where "internal_node_bit = 1"
definition heap_node_bit :: u64 where "heap_node_bit = 2"
definition not_found :: u64 where "not_found = - 1"

definition depth_is_internal_node :: "nat \<Rightarrow> bool" where
  "depth_is_internal_node shift \<longleftrightarrow> shift < max_hash_bits"

section \<open>Index pointers\<close>

type_synonym index_pointer = u64

definition is_internal :: "index_pointer \<Rightarrow> bool" where
  "is_internal p \<longleftrightarrow> p AND internal_node_bit \<noteq> 0"

definition is_linear :: "index_pointer \<Rightarrow> bool" where
  "is_linear p \<longleftrightarrow> is_internal p"

definition is_leaf :: "index_pointer \<Rightarrow> bool" where
  "is_leaf p \<longleftrightarrow> \<not> is_internal p"

definition is_heap :: "index_pointer \<Rightarrow> bool" where
  "is_heap p \<longleftrightarrow> p AND heap_node_bit \<noteq> 0"

definition is_address :: "index_pointer \<Rightarrow> bool" where
  "is_address p \<longleftrightarrow> \<not> is_heap p"

definition is_empty_pointer :: "index_pointer \<Rightarrow> bool" where
  "is_empty_pointer p \<longleftrightarrow> p = 0"

definition tag :: "u64 \<Rightarrow> index_pointer" where
  "tag p = p OR internal_node_bit OR heap_node_bit"

definition untag :: "index_pointer \<Rightarrow> u64" where
  "untag p = p AND NOT internal_node_bit AND NOT heap_node_bit"

definition untag_internal_address :: "index_pointer \<Rightarrow> u64" where
  "untag_internal_address p = p AND NOT internal_node_bit"

section \<open>Parent stacks\<close>

text \<open>
  A \<^verbatim>\<open>parent_stack\<close> is an \<^verbatim>\<open>array_stack\<close> of \<open>max_tree_depth\<close> elements, here as the list of its
  elements with the top first; pushing onto a full one fails an assertion.
\<close>

record parent_type =
  pt_node :: index_pointer
  pt_position :: u64

type_synonym parent_stack = "parent_type list"

definition parent :: "index_pointer \<Rightarrow> u64 \<Rightarrow> parent_type" where
  "parent n p = \<lparr>pt_node = n, pt_position = p\<rparr>"

definition push_parent :: "index_pointer \<Rightarrow> u64 \<Rightarrow> parent_stack \<Rightarrow> exn + parent_stack" where
  "push_parent n p ps =
     (if length ps < max_tree_depth then Inr (parent n p # ps) else Inl Assertion)"

section \<open>Nodes\<close>

record internal_node =
  i_signature :: "u8 list"
  i_bitmap :: u64
  i_children :: "index_pointer list"

record linear_node =
  l_signature :: "u8 list"
  l_leaves :: "u64 list"

definition internal_signature :: "u8 list" where
  "internal_signature = map (\<lambda>c. of_nat (of_char c)) ''Internal''"

definition linear_signature :: "u8 list" where
  "linear_signature = map (\<lambda>c. of_nat (of_char c)) ''IndxLner''"

subsection \<open>Internal nodes\<close>

definition internal_size_bytes :: "nat \<Rightarrow> exn + nat" where
  "internal_size_bytes num_children =
     rbind (rassert (0 < num_children \<and> num_children < max_hash_bits)) (\<lambda>_. Inr (16 + 8 * num_children))"

definition internal_size :: "internal_node \<Rightarrow> exn + nat" where
  "internal_size n = rbind (rassert (i_bitmap n \<noteq> 0)) (\<lambda>_. Inr (pop_count (i_bitmap n)))"

definition get_new_index :: "u64 \<Rightarrow> u64 \<Rightarrow> u64" where
  "get_new_index new_hash existing_hash = (if existing_hash \<le> new_hash then 1 else 0)"

definition internal_node1 :: "index_pointer \<Rightarrow> u64 \<Rightarrow> internal_node" where
  "internal_node1 leaf hash =
     \<lparr>i_signature = internal_signature, i_bitmap = one_bit (unat hash), i_children = [leaf]\<rparr>"

definition internal_node2 :: "index_pointer \<Rightarrow> index_pointer \<Rightarrow> u64 \<Rightarrow> u64 \<Rightarrow> internal_node" where
  "internal_node2 existing_leaf new_leaf existing_hash new_hash =
     \<lparr>i_signature = internal_signature,
      i_bitmap = one_bit (unat existing_hash) OR one_bit (unat new_hash),
      i_children = (if get_new_index new_hash existing_hash = 0 then [new_leaf, existing_leaf]
                    else [existing_leaf, new_leaf])\<rparr>"

definition internal_node_copy :: "internal_node \<Rightarrow> internal_node" where
  "internal_node_copy rhs =
     \<lparr>i_signature = internal_signature, i_bitmap = i_bitmap rhs,
      i_children = take (pop_count (i_bitmap rhs)) (i_children rhs)\<rparr>"

definition child_at :: "internal_node \<Rightarrow> nat \<Rightarrow> exn + index_pointer" where
  "child_at n i =
     rbind (internal_size n) (\<lambda>size.
     rbind (rassert (i < size)) (\<lambda>_.
     if i < length (i_children n) then Inr (i_children n ! i) else Inl Undefined))"

definition internal_lookup :: "internal_node \<Rightarrow> u64 \<Rightarrow> exn + index_pointer \<times> u64" where
  "internal_lookup n hash_index =
     rbind (rassert (hash_index < push_bit hash_index_bits 1)) (\<lambda>_.
     let bit_pos = one_bit (unat hash_index) in
     if i_bitmap n AND bit_pos \<noteq> 0
     then let index = pop_count (i_bitmap n AND (bit_pos - 1)) in
          if index < length (i_children n) then Inr (i_children n ! index, of_nat index) else Inl Undefined
     else Inr (0, not_found))"

text \<open>\<^verbatim>\<open>insert_child\<close>, without its last line, which pushes the node onto the parent stack.\<close>

definition internal_insert_child :: "internal_node \<Rightarrow> u64 \<Rightarrow> index_pointer \<Rightarrow> exn + internal_node \<times> nat" where
  "internal_insert_child n hash leaf =
     (let hash_index = hash AND hash_index_mask;
          bit_pos = one_bit (unat hash_index) :: u64
      in rbind (rassert (bit_pos \<noteq> 0)) (\<lambda>_.
         rbind (rassert (i_bitmap n AND bit_pos = 0)) (\<lambda>_.
         let index = pop_count (i_bitmap n AND (bit_pos - 1)); old_size = pop_count (i_bitmap n) in
         rbind (rassert (old_size < hash_size)) (\<lambda>_.
         rbind (rassert (index \<le> old_size)) (\<lambda>_.
         let n' = n\<lparr>i_children := take index (i_children n) @ leaf # drop index (i_children n),
                    i_bitmap := i_bitmap n OR bit_pos\<rparr>
         in rbind (rassert (pop_count (i_bitmap n') = old_size + 1)) (\<lambda>_. Inr (n', index)))))))"

subsection \<open>Linear nodes\<close>

definition linear_size_bytes :: "nat \<Rightarrow> nat" where
  "linear_size_bytes n = 16 + 8 * n"

definition linear_node_init :: "nat \<Rightarrow> linear_node" where
  "linear_node_init n = \<lparr>l_signature = linear_signature, l_leaves = replicate n 0\<rparr>"

definition linear_node_copy :: "linear_node \<Rightarrow> linear_node" where
  "linear_node_copy rhs = \<lparr>l_signature = linear_signature, l_leaves = l_leaves rhs\<rparr>"

definition linear_allocate_node :: "nat \<Rightarrow> linear_node \<Rightarrow> linear_node" where
  "linear_allocate_node num_children from_node =
     (let new_node = linear_node_init num_children;
          num_to_copy = min num_children (length (l_leaves from_node))
      in new_node\<lparr>l_leaves := take num_to_copy (l_leaves from_node) @ drop num_to_copy (l_leaves new_node)\<rparr>)"

definition linear_node2 :: "u64 \<Rightarrow> u64 \<Rightarrow> linear_node" where
  "linear_node2 a b = (linear_node_init 2)\<lparr>l_leaves := (l_leaves (linear_node_init 2))[0 := a, 1 := b]\<rparr>"

definition leaf_at :: "linear_node \<Rightarrow> nat \<Rightarrow> exn + u64" where
  "leaf_at n i = rbind (rassert (i < length (l_leaves n))) (\<lambda>_. Inr (l_leaves n ! i))"

definition linear_set :: "linear_node \<Rightarrow> nat \<Rightarrow> u64 \<Rightarrow> exn + linear_node" where
  "linear_set n i a =
     rbind (rassert (i < length (l_leaves n))) (\<lambda>_. Inr (n\<lparr>l_leaves := (l_leaves n)[i := a]\<rparr>))"

section \<open>Images in the store\<close>

definition internal_bytes :: "internal_node \<Rightarrow> u8 list" where
  "internal_bytes n = i_signature n @ le_bytes 8 (i_bitmap n) @ concat (map (le_bytes 8) (i_children n))"

definition linear_bytes :: "linear_node \<Rightarrow> u8 list" where
  "linear_bytes n =
     l_signature n @ le_bytes 8 (of_nat (length (l_leaves n)) :: u64) @ concat (map (le_bytes 8) (l_leaves n))"

definition words_of_bytes :: "nat \<Rightarrow> u8 list \<Rightarrow> u64 list" where
  "words_of_bytes n bs = map (\<lambda>i. le_word (take 8 (drop (8 * i) bs))) [0..<n]"

definition internal_of_bytes :: "u8 list \<Rightarrow> internal_node" where
  "internal_of_bytes bs =
     \<lparr>i_signature = take 8 bs, i_bitmap = le_word (take 8 (drop 8 bs)),
      i_children = words_of_bytes ((length bs - 16) div 8) (drop 16 bs)\<rparr>"

definition linear_of_bytes :: "u8 list \<Rightarrow> linear_node" where
  "linear_of_bytes bs =
     \<lparr>l_signature = take 8 bs, l_leaves = words_of_bytes ((length bs - 16) div 8) (drop 16 bs)\<rparr>"

text \<open>The root record of an index.\<close>

record header_block =
  hb_signature :: "u8 list"
  hb_size :: u64
  hb_root :: u64

definition index_signature :: "u8 list" where
  "index_signature = map (\<lambda>c. of_nat (of_char c)) ''IndxHedr''"

definition header_block_bytes :: "header_block \<Rightarrow> u8 list" where
  "header_block_bytes h = hb_signature h @ le_bytes 8 (hb_size h) @ le_bytes 8 (hb_root h)"

definition header_block_of_bytes :: "u8 list \<Rightarrow> header_block" where
  "header_block_of_bytes bs =
     \<lparr>hb_signature = take 8 bs, hb_size = le_word (take 8 (drop 8 bs)), hb_root = le_word (take 8 (drop 16 bs))\<rparr>"

text \<open>An index object: the data members of \<^verbatim>\<open>hamt_map\<close>.\<close>

record hamt =
  hm_revision :: u32
  hm_root :: index_pointer
  hm_size :: u64

section \<open>The heap\<close>

datatype heap_node = Heap_internal internal_node | Heap_linear linear_node

record mem =
  heap :: "u64 \<rightharpoonup> heap_node"

text \<open>
  The global \<^verbatim>\<open>operator new\<close> is a parameter: given the heap and a number of bytes it returns the
  address of a new block, or nothing when there is no memory left. What the code relies on is
  that the block is not in use, that its address is not null and that its two low bits are clear.
\<close>

type_synonym allocator = "(u64 \<rightharpoonup> heap_node) \<Rightarrow> nat \<Rightarrow> u64 option"

definition allocator_ok :: "allocator \<Rightarrow> bool" where
  "allocator_ok new \<longleftrightarrow>
     (\<forall>h n p. new h n = Some p \<longrightarrow> h p = None \<and> p \<noteq> 0 \<and> p AND 3 = 0)"

definition heap_new :: "allocator \<Rightarrow> nat \<Rightarrow> heap_node \<Rightarrow> ('z mem_scheme, u64) sx" where
  "heap_new new bytes n = (\<lambda>s.
     case new (heap s) bytes of
       None \<Rightarrow> (Inl Bad_alloc, s)
     | Some p \<Rightarrow> (Inr p, s\<lparr>heap := (heap s)(p \<mapsto> n)\<rparr>))"

definition heap_delete :: "u64 \<Rightarrow> ('z mem_scheme, unit) sx" where
  "heap_delete p = (\<lambda>s.
     if heap s p = None then (Inl Undefined, s) else (Inr (), s\<lparr>heap := (heap s)(p := None)\<rparr>))"

definition heap_internal :: "u64 \<Rightarrow> 'z mem_scheme \<Rightarrow> exn + internal_node" where
  "heap_internal p s = (case heap s p of Some (Heap_internal n) \<Rightarrow> Inr n | _ \<Rightarrow> Inl Undefined)"

definition heap_linear :: "u64 \<Rightarrow> 'z mem_scheme \<Rightarrow> exn + linear_node" where
  "heap_linear p s = (case heap s p of Some (Heap_linear n) \<Rightarrow> Inr n | _ \<Rightarrow> Inl Undefined)"

definition heap_put :: "u64 \<Rightarrow> heap_node \<Rightarrow> ('z mem_scheme, unit) sx" where
  "heap_put p n = smodify (\<lambda>s. s\<lparr>heap := (heap s)(p \<mapsto> n)\<rparr>)"

text \<open>\<^verbatim>\<open>internal_node::operator new\<close> always makes room for all children.\<close>

definition internal_allocate :: "allocator \<Rightarrow> internal_node \<Rightarrow> ('z mem_scheme, u64) sx" where
  "internal_allocate new n =
     sbind (slift (internal_size_bytes hash_size)) (\<lambda>bytes. heap_new new bytes (Heap_internal n))"

definition linear_allocate :: "allocator \<Rightarrow> linear_node \<Rightarrow> ('z mem_scheme, u64) sx" where
  "linear_allocate new n = heap_new new (linear_size_bytes (length (l_leaves n))) (Heap_linear n)"

text \<open>\<^verbatim>\<open>make_writable\<close>: the heap address of the node, and that of the copy if one was made.\<close>

definition make_writable :: "allocator \<Rightarrow> index_pointer \<Rightarrow> internal_node \<Rightarrow> ('z mem_scheme, u64 option \<times> u64) sx" where
  "make_writable new node internal =
     (if is_heap node
      then sbind (sread (heap_internal (untag node))) (\<lambda>inode.
           sseq (sassert (i_signature inode = internal_signature)) (sret (None, untag node)))
      else sbind (internal_allocate new (internal_node_copy internal)) (\<lambda>p. sret (Some p, p)))"

text \<open>The destructor of a \<^verbatim>\<open>unique_ptr\<close> when an exception leaves its scope.\<close>

definition with_unique_ptr :: "u64 option \<Rightarrow> ('z mem_scheme, 'a) sx \<Rightarrow> ('z mem_scheme, 'a) sx" where
  "with_unique_ptr p m = (\<lambda>s.
     case m s of
       (Inl e, s') \<Rightarrow> (Inl e, case p of None \<Rightarrow> s' | Some q \<Rightarrow> s'\<lparr>heap := (heap s')(q := None)\<rparr>)
     | (Inr x, s') \<Rightarrow> (Inr x, s'))"

section \<open>Facts about the constants\<close>

lemma hash_index_bits_eq: "hash_index_bits = 6"
proof -
  have "positions (63 :: u64) = filter (\<lambda>i. i < 6) [0..<64]"
    unfolding positions_def
  proof (rule filter_cong)
    fix i :: nat assume "i \<in> set [0..<64]"
    have "(63 :: u64) = mask 6"
      by (simp add: mask_eq_exp_minus_1)
    moreover have "bit (mask 6 :: u64) i \<longleftrightarrow> i < 6"
      by (auto simp: bit_mask_iff simp del: mask_numeral)
    ultimately show "bit (63 :: u64) i \<longleftrightarrow> i < 6"
      by metis
  qed simp
  also have "\<dots> = [0..<6]"
    by (simp add: filter_upt_less)
  finally show ?thesis
    by (simp add: hash_index_bits_def pop_count_def)
qed

lemma constants_eq:
  "hash_size = 64" "max_hash_bits = 66" "hash_index_mask = 63" "max_internal_depth = 11" "max_tree_depth = 13"
  by (simp_all add: hash_size_def max_hash_bits_def hash_index_mask_def max_internal_depth_def
      max_tree_depth_def hash_index_bits_eq)

lemmas hamt_constants = hash_index_bits_eq constants_eq internal_node_bit_def heap_node_bit_def

lemma depth_is_internal_node_iff: "depth_is_internal_node d \<longleftrightarrow> d < 66"
  by (simp add: depth_is_internal_node_def hamt_constants)

section \<open>Facts about index pointers\<close>

lemma node_bits: "internal_node_bit = one_bit 0" "heap_node_bit = one_bit 1"
  by (simp_all add: internal_node_bit_def heap_node_bit_def one_bit_def)

lemma is_internal_bit: "is_internal p \<longleftrightarrow> bit p 0"
  and is_leaf_bit: "is_leaf p \<longleftrightarrow> \<not> bit p 0"
  and is_heap_bit: "is_heap p \<longleftrightarrow> bit p 1"
  by (simp_all add: is_internal_def is_leaf_def is_heap_def node_bits and_single_bit_eq_0_iff)

lemma bit_tag: "bit (tag p) i \<longleftrightarrow> bit p i \<or> i = 0 \<or> i = 1"
  by (auto simp: tag_def node_bits bit_or_iff bit_one_shift)

lemma bit_untag: "bit (untag p) i \<longleftrightarrow> bit p i \<and> i \<noteq> 0 \<and> i \<noteq> 1"
  by (auto simp: untag_def node_bits bit_and_iff bit_not_iff bit_one_shift dest: bit_imp_le_length)

lemma bit_untag_internal: "bit (untag_internal_address p) i \<longleftrightarrow> bit p i \<and> i \<noteq> 0"
  by (auto simp: untag_internal_address_def node_bits bit_and_iff bit_not_iff bit_one_shift
      dest: bit_imp_le_length)

lemma and_3_bits: "(p::u64) AND 3 = 0 \<longleftrightarrow> \<not> bit p 0 \<and> \<not> bit p 1"
proof -
  have "(3::u64) = one_bit 0 OR one_bit 1"
    by (simp add: one_bit_def)
  then have b3: "bit (3::u64) i \<longleftrightarrow> i = 0 \<or> i = 1" for i
    by (auto simp only: bit_or_iff bit_one_shift) simp_all
  show ?thesis
  proof
    assume "p AND 3 = 0"
    then have "\<not> bit (p AND 3) 0" "\<not> bit (p AND 3) 1"
      by simp_all
    then show "\<not> bit p 0 \<and> \<not> bit p 1"
      by (simp add: bit_and_iff)
  next
    assume "\<not> bit p 0 \<and> \<not> bit p 1"
    then have "\<not> bit (p AND 3) i" for i
      unfolding bit_and_iff b3 by (auto intro!: gr0I)
    then show "p AND 3 = 0"
      by (intro bit_word_eqI) simp
  qed
qed

text \<open>A pointer to a heap node, one to a stored node, and one to a leaf.\<close>

lemma tag_pointer [simp]: "is_heap (tag p)" "is_internal (tag p)" "\<not> is_leaf (tag p)" "tag p \<noteq> 0"
proof -
  show "is_heap (tag p)" "is_internal (tag p)" "\<not> is_leaf (tag p)"
    by (simp_all add: is_heap_bit is_internal_bit is_leaf_bit bit_tag)
  have "bit (tag p) 0" by (simp add: bit_tag)
  then show "tag p \<noteq> 0" by auto
qed

lemma untag_tag: "p AND 3 = 0 \<Longrightarrow> untag (tag p) = p"
  by (rule bit_word_eqI) (auto simp: bit_tag bit_untag and_3_bits intro!: gr0I)

lemma tag_untag: "is_heap p \<Longrightarrow> is_internal p \<Longrightarrow> tag (untag p) = p"
  by (rule bit_word_eqI) (auto simp: bit_tag bit_untag is_heap_bit is_internal_bit)

lemma untag_aligned: "untag p AND 3 = 0"
  by (simp add: and_3_bits bit_untag)

lemma leaf_pointer: "a AND 3 = 0 \<Longrightarrow> is_leaf a" "a AND 3 = 0 \<Longrightarrow> \<not> is_heap a"
  by (simp_all add: and_3_bits is_leaf_bit is_heap_bit)

lemma stored_pointer:
  assumes "a AND 3 = 0"
  shows "is_internal (a OR internal_node_bit)" "\<not> is_leaf (a OR internal_node_bit)"
    "\<not> is_heap (a OR internal_node_bit)" "untag_internal_address (a OR internal_node_bit) = a"
    "a OR internal_node_bit \<noteq> 0"
proof -
  have b: "bit (a OR internal_node_bit) i \<longleftrightarrow> bit a i \<or> i = 0" for i
    by (auto simp: node_bits bit_or_iff bit_one_shift)
  show "is_internal (a OR internal_node_bit)" "\<not> is_leaf (a OR internal_node_bit)"
    "\<not> is_heap (a OR internal_node_bit)"
    using assms by (simp_all add: is_internal_bit is_leaf_bit is_heap_bit b and_3_bits)
  show "untag_internal_address (a OR internal_node_bit) = a"
    using assms by (intro bit_word_eqI) (auto simp: bit_untag_internal b and_3_bits intro!: gr0I)
  have "bit (a OR internal_node_bit) 0" by (simp add: b)
  then show "a OR internal_node_bit \<noteq> 0" by auto
qed

lemma untag_internal_leaf: "a AND 3 = 0 \<Longrightarrow> untag_internal_address a = a"
  by (rule bit_word_eqI) (auto simp: bit_untag_internal and_3_bits intro!: gr0I)

lemma is_leaf_not_internal: "is_leaf p \<longleftrightarrow> \<not> is_internal p"
  by (simp add: is_leaf_def)

section \<open>Facts about nodes\<close>

lemma hash_index_less: "h AND hash_index_mask < push_bit hash_index_bits 1" "unat (h AND hash_index_mask) < 64"
proof -
  have "h AND 63 \<le> 63" by (rule word_and_le1)
  then have "unat (h AND 63) \<le> 63" by (simp add: word_le_nat_alt)
  then show "h AND hash_index_mask < push_bit hash_index_bits 1" "unat (h AND hash_index_mask) < 64"
    by (simp_all add: hamt_constants word_less_nat_alt)
qed

definition node_wf :: "internal_node \<Rightarrow> bool" where
  "node_wf n \<longleftrightarrow> i_signature n = internal_signature \<and> i_bitmap n \<noteq> 0
     \<and> length (i_children n) = pop_count (i_bitmap n)"

lemma internal_lookup_found:
  assumes "node_wf n" and "unat h < 64" and "bit (i_bitmap n) (unat h)"
  shows "internal_lookup n h
    = Inr (i_children n ! index_below (i_bitmap n) (unat h), of_nat (index_below (i_bitmap n) (unat h)))"
proof -
  have "h < push_bit hash_index_bits 1"
    using assms(2) by (simp add: hamt_constants word_less_nat_alt)
  then show ?thesis
    using assms positions_at(1) [of "unat h" "i_bitmap n"]
    by (simp add: internal_lookup_def rbind_def rassert_def Let_def node_wf_def index_below_def
        and_single_bit_eq_0_iff)
qed

lemma internal_lookup_not_found:
  assumes "unat h < 64" and "\<not> bit (i_bitmap n) (unat h)"
  shows "internal_lookup n h = Inr (0, not_found)"
proof -
  have "h < push_bit hash_index_bits 1"
    using assms(1) by (simp add: hamt_constants word_less_nat_alt)
  then show ?thesis
    using assms by (simp add: internal_lookup_def rbind_def rassert_def Let_def and_single_bit_eq_0_iff)
qed

lemma index_below_less_64: "index_below (b::u64) i \<le> 64"
  unfolding index_below_def using pop_count_le [of "b AND (one_bit i - 1)"] by simp

lemma of_nat_not_found: "i \<le> 2 ^ 38 \<Longrightarrow> of_nat i \<noteq> not_found"
proof
  assume i: "i \<le> 2 ^ 38" and "(of_nat i :: u64) = not_found"
  then have "unat (of_nat i :: u64) = unat (- 1 :: u64)"
    by (simp add: not_found_def)
  then show False
    using i by (simp add: unsigned_of_nat take_bit_nat_eq_self unsigned_minus_1_eq_mask mask_eq_exp_minus_1)
qed

lemma internal_insert_child_ok:
  assumes wf: "node_wf n" and nb: "\<not> bit (i_bitmap n) (unat (hash AND hash_index_mask))"
  defines "i \<equiv> index_below (i_bitmap n) (unat (hash AND hash_index_mask))"
  shows "internal_insert_child n hash leaf
    = Inr (n\<lparr>i_children := take i (i_children n) @ leaf # drop i (i_children n),
             i_bitmap := i_bitmap n OR one_bit (unat (hash AND hash_index_mask))\<rparr>, i)"
proof -
  let ?j = "unat (hash AND hash_index_mask)"
  have j: "?j < 64" by (rule hash_index_less)
  have pos: "positions (i_bitmap n OR one_bit ?j)
      = take i (positions (i_bitmap n)) @ ?j # drop i (positions (i_bitmap n))"
    and le: "i \<le> pop_count (i_bitmap n)"
    using positions_insert [of ?j "i_bitmap n"] j nb by (simp_all add: i_def)
  have len: "pop_count (i_bitmap n OR one_bit ?j) = pop_count (i_bitmap n) + 1"
    using le by (simp add: pop_count_def pos)
  have "pop_count (i_bitmap n) < 64"
    using pop_count_le [of "i_bitmap n OR one_bit ?j"] len by simp
  moreover have "(one_bit ?j :: u64) \<noteq> 0"
    using j by (simp add: one_bit_neq_0)
  moreover have "i_bitmap n AND one_bit ?j = 0"
    using nb j by (simp add: and_single_bit_eq_0_iff)
  ultimately show ?thesis
    using le len
    by (simp add: internal_insert_child_def Let_def rbind_def rassert_def hamt_constants i_def index_below_def)
qed

section \<open>Images and nodes\<close>

lemma length_concat_words: "length (concat (map (le_bytes 8) ws)) = 8 * length ws"
  by (induction ws) simp_all

lemma words_of_concat: "words_of_bytes (length ws) (concat (map (le_bytes 8) ws)) = ws"
proof -
  have "take 8 (drop (8 * i) (concat (map (le_bytes 8) ws))) = le_bytes 8 (ws ! i)" if "i < length ws" for i
    using that
  proof (induction ws arbitrary: i)
    case (Cons w ws)
    then show ?case
      by (cases i) simp_all
  qed simp
  then show ?thesis
    by (auto simp: words_of_bytes_def intro!: nth_equalityI)
qed

lemma length_internal_bytes:
  "length (i_signature n) = 8 \<Longrightarrow> length (internal_bytes n) = 16 + 8 * length (i_children n)"
  by (simp add: internal_bytes_def length_concat_words)

lemma length_linear_bytes:
  "length (l_signature n) = 8 \<Longrightarrow> length (linear_bytes n) = 16 + 8 * length (l_leaves n)"
  by (simp add: linear_bytes_def length_concat_words)

lemma internal_of_internal_bytes: "length (i_signature n) = 8 \<Longrightarrow> internal_of_bytes (internal_bytes n) = n"
  using words_of_concat [of "i_children n"]
  by (simp add: internal_of_bytes_def length_internal_bytes) (simp add: internal_bytes_def)

lemma linear_of_linear_bytes: "length (l_signature n) = 8 \<Longrightarrow> linear_of_bytes (linear_bytes n) = n"
  using words_of_concat [of "l_leaves n"]
  by (simp add: linear_of_bytes_def length_linear_bytes) (simp add: linear_bytes_def)

lemma header_block_of_header_block_bytes:
  "length (hb_signature h) = 8 \<Longrightarrow> header_block_of_bytes (header_block_bytes h) = h"
  by (simp add: header_block_of_bytes_def header_block_bytes_def)

lemma length_signatures [simp]:
  "length internal_signature = 8" "length linear_signature = 8" "length index_signature = 8"
  by (simp_all add: internal_signature_def linear_signature_def index_signature_def)

end
