(* ===== verification/Database.thy ===== *)
theory Database
  imports File_Header Storage_Access Hamt_Nodes
begin

unbundle bit_operations_syntax

text \<open>
  A database handle (\<^verbatim>\<open>include/pstore/core/database.hpp\<close>, \<^verbatim>\<open>lib/core/database.cpp\<close>). Its state is
  the storage layer's, the bytes of the file, the sizes, the flags and the cached indices, on top
  of the heap. A request for memory
  (\<^verbatim>\<open>database::get\<close>) gives pieces of mapped memory: one piece that is used in place or, when the
  request spans regions, the pieces that a shadow buffer is copied from and to. Reads and writes go
  through these pieces; the theory shows that this is the same as accessing the bytes of one flat
  file.
\<close>

section \<open>State\<close>

record database = mem +
  db_storage :: storage
  db_memory :: "nat \<Rightarrow> u8"
  db_footer_pos :: u64
  db_logical_size :: u64
  db_closed :: bool
  db_modified :: bool
  db_read_only :: "(pointer \<times> u64) list"
  db_page_size :: u64
  db_indices :: "hamt option list"

text \<open>Running an operation of the storage layer.\<close>

definition on_storage :: "(storage, 'a) sx \<Rightarrow> ('z database_scheme, 'a) sx" where
  "on_storage m = (\<lambda>s. case m (db_storage s) of (r, st) \<Rightarrow> (r, s\<lparr>db_storage := st\<rparr>))"

section \<open>Sizes\<close>

definition update_footer_pos :: "u64 \<Rightarrow> ('z database_scheme, unit) sx" where
  "update_footer_pos new_footer_pos =
     sseq (sassert (leader_size \<le> new_footer_pos))
       (smodify (\<lambda>s. s\<lparr>db_footer_pos := new_footer_pos,
          db_logical_size := max (db_logical_size s) (new_footer_pos + of_nat sizeof_trailer)\<rparr>))"

definition update_logical_size :: "u64 \<Rightarrow> ('z database_scheme, unit) sx" where
  "update_logical_size new_logical_size =
     sbind (sgets db_footer_pos) (\<lambda>f.
     sseq (sassert (f + of_nat sizeof_trailer \<le> new_logical_size))
       (smodify (\<lambda>s. s\<lparr>db_logical_size := max (db_logical_size s) new_logical_size\<rparr>)))"

definition truncate_logical_size :: "u64 \<Rightarrow> ('z database_scheme, unit) sx" where
  "truncate_logical_size new_logical_size =
     sbind (sgets db_footer_pos) (\<lambda>f.
     sseq (sassert (f + of_nat sizeof_trailer \<le> new_logical_size))
       (smodify (\<lambda>s. s\<lparr>db_logical_size := new_logical_size\<rparr>)))"

section \<open>Access\<close>

text \<open>The bytes of the file from a position on, and the header, which is always mapped.\<close>

definition file_bytes :: "'z database_scheme \<Rightarrow> nat \<Rightarrow> nat \<Rightarrow> u8 list" where
  "file_bytes s p n = map (db_memory s) [p..<p + n]"

definition db_header :: "'z database_scheme \<Rightarrow> header" where
  "db_header s = header_of_bytes (file_bytes s 0 sizeof_header)"

definition first_writable_address :: "'z database_scheme \<Rightarrow> address" where
  "first_writable_address s = h_footer_pos (db_header s) + of_nat sizeof_trailer"

type_synonym pieces = "(pointer \<times> nat) list"

definition get_spanning :: "'z database_scheme \<Rightarrow> address \<Rightarrow> u64 \<Rightarrow> exn + pieces" where
  "get_spanning s addr sz = storage_copy (db_storage s) addr (unat sz)"

definition get :: "'z database_scheme \<Rightarrow> address \<Rightarrow> u64 \<Rightarrow> bool \<Rightarrow> exn + pieces" where
  "get s addr sz writable =
     (if db_closed s then Inl (Raise store_closed)
      else if writable \<and> addr < first_writable_address s then Inl (Raise read_only_address)
      else let start = addr; logical_size = db_logical_size s in
        if logical_size < start \<or> logical_size - start < sz then Inl (Raise bad_address)
        else if request_spans_regions (db_storage s) addr sz then get_spanning s addr sz
        else (case address_to_pointer (db_storage s) addr of
                None \<Rightarrow> if sz = 0 then Inr [] else Inl Undefined
              | Some p \<Rightarrow> Inr [(p, unat sz)]))"

text \<open>Loading from and storing to the pieces of a request.\<close>

definition load :: "'z database_scheme \<Rightarrow> pieces \<Rightarrow> exn + u8 list" where
  "load s ps =
     (let qs = call_positions (db_storage s) ps in
      if None \<in> set qs then Inl Undefined else Inr (map (\<lambda>q. db_memory s (the q)) qs))"

definition write_at :: "(nat \<Rightarrow> u8) \<Rightarrow> nat list \<Rightarrow> u8 list \<Rightarrow> nat \<Rightarrow> u8" where
  "write_at m ps bs = fold (\<lambda>(p, b) m. m(p := b)) (zip ps bs) m"

definition store :: "pieces \<Rightarrow> u8 list \<Rightarrow> ('z database_scheme, unit) sx" where
  "store ps bs = (\<lambda>s.
     let qs = call_positions (db_storage s) ps in
     if None \<in> set qs \<or> length qs \<noteq> length bs then (Inl Undefined, s)
     else (Inr (), s\<lparr>db_memory := write_at (db_memory s) (map the qs) bs\<rparr>))"

definition getro :: "'z database_scheme \<Rightarrow> address \<Rightarrow> u64 \<Rightarrow> exn + u8 list" where
  "getro s addr sz = rbind (get s addr sz False) (load s)"

text \<open>The overload for a typed address checks its alignment.\<close>

definition getro_typed :: "u64 \<Rightarrow> 'z database_scheme \<Rightarrow> address \<Rightarrow> u64 \<Rightarrow> exn + u8 list" where
  "getro_typed align s addr sz =
     (if addr mod align \<noteq> 0 then Inl (Raise bad_alignment) else getro s addr sz)"

definition get_footer :: "'z database_scheme \<Rightarrow> exn + trailer" where
  "get_footer s =
     rbind (getro_typed 8 s (db_footer_pos s) (of_nat sizeof_trailer)) (\<lambda>bs. Inr (trailer_of_bytes bs))"

definition get_current_revision :: "'z database_scheme \<Rightarrow> exn + u32" where
  "get_current_revision s = rbind (get_footer s) (\<lambda>t. Inr (t_generation (t_a t)))"

section \<open>Operations\<close>

definition db_allocate :: "u64 \<Rightarrow> u64 \<Rightarrow> ('z database_scheme, address) sx" where
  "db_allocate bytes align =
     sseq (sassert (is_power_of_two align))
     (sbind (sgets db_closed) (\<lambda>c. if c then sraise (Raise store_closed) else
      sseq (smodify (\<lambda>s. s\<lparr>db_modified := True\<rparr>))
      (sbind (sgets db_logical_size) (\<lambda>result.
       sbind (sgets db_footer_pos) (\<lambda>f.
       sseq (sassert (f + of_nat sizeof_trailer \<le> result))
       (let extra_for_alignment = calc_alignment result align in
        sseq (sassert (extra_for_alignment < align))
        (let new_logical_size = result + bytes + extra_for_alignment in
         sseq (on_storage (map_bytes new_logical_size))
         (sseq (update_logical_size new_logical_size)
          (sret (result + extra_for_alignment))))))))))"

definition db_truncate :: "u64 \<Rightarrow> ('z database_scheme, unit) sx" where
  "db_truncate sz =
     sbind (sgets db_closed) (\<lambda>c. if c then sraise (Raise store_closed) else
     sseq (smodify (\<lambda>s. s\<lparr>db_modified := True\<rparr>))
     (sseq (on_storage (map_bytes sz)) (truncate_logical_size sz)))"

text \<open>The header's \<^verbatim>\<open>footer_pos\<close> is at offset 40 of the file.\<close>

definition set_new_footer :: "u64 \<Rightarrow> ('z database_scheme, unit) sx" where
  "set_new_footer new_footer_pos =
     sseq (update_footer_pos new_footer_pos)
       (smodify (\<lambda>s. s\<lparr>db_memory := write_at (db_memory s) [40..<48] (le_bytes 8 new_footer_pos)\<rparr>))"

definition db_protect :: "address \<Rightarrow> address \<Rightarrow> ('z database_scheme, unit) sx" where
  "db_protect fst_a lst =
     sbind (sread (\<lambda>s. protect (db_page_size s) (db_storage s) fst_a lst)) (\<lambda>calls.
     smodify (\<lambda>s. s\<lparr>db_read_only := db_read_only s @ calls\<rparr>))"

section \<open>Validation of trailers\<close>

definition trailer_validate :: "'z database_scheme \<Rightarrow> address \<Rightarrow> exn + bool" where
  "trailer_validate s pos =
     (if pos = 0 then Inr True
      else if pos < leader_size \<or> pos mod 8 \<noteq> 0 then Inl (Raise footer_corrupt)
      else rbind (getro_typed 8 s pos (of_nat sizeof_trailer)) (\<lambda>bs.
        let footer = trailer_of_bytes bs; prev_pos = t_prev_generation (t_a footer) in
        if \<not> crc_is_valid footer \<or> \<not> signature_is_valid footer then Inl (Raise footer_corrupt)
        else rbind (if of_nat sizeof_trailer \<le> pos
                    then rbind (typed_minus (of_nat sizeof_trailer) pos 1) (\<lambda>q. Inr (q < prev_pos))
                    else Inr False) (\<lambda>overlap.
          if overlap then Inl (Raise footer_corrupt)
          else if pos < t_size (t_a footer) then Inl (Raise footer_corrupt)
          else
            let transaction_first_byte =
              (if prev_pos = 0 then leader_size else typed_plus (of_nat sizeof_trailer) prev_pos 1)
            in rbind (address_minus pos (t_size (t_a footer))) (\<lambda>q.
               if q \<noteq> transaction_first_byte then Inl (Raise footer_corrupt) else Inr True))))"

section \<open>Flat access\<close>

text \<open>
  The invariant: the storage layer's, with nothing mapped that is not in use by the last region,
  and the sizes in order.
\<close>

definition db_ok :: "'z database_scheme \<Rightarrow> bool" where
  "db_ok s \<longleftrightarrow>
     (\<exists>n. storage_ok (db_storage s) n \<and> sat_clear_from (db_storage s) n
          \<and> unat (db_logical_size s) \<le> n * 2 ^ 22 \<and> n * 2 ^ 22 \<le> unat (file_size (db_storage s)))
     \<and> regions (db_storage s) \<noteq> []
     \<and> r_offset (last (regions (db_storage s))) \<le> db_logical_size s
     \<and> unat leader_size \<le> unat (db_footer_pos s)
     \<and> unat (db_footer_pos s) + sizeof_trailer \<le> unat (db_logical_size s)"

lemma on_storage_run [run_simps]:
  "on_storage m s = (case m (db_storage s) of (r, st) \<Rightarrow> (r, s\<lparr>db_storage := st\<rparr>))"
  by (simp add: on_storage_def)

lemma get_empty:
  assumes "\<not> db_closed s" and "addr \<le> db_logical_size s" and "writable \<longrightarrow> first_writable_address s \<le> addr"
  shows "\<exists>ps. get s addr 0 writable = Inr ps \<and> call_positions (db_storage s) ps = []"
  using assms by (auto simp: get_def request_spans_regions_def call_positions_def Let_def split: option.splits)

lemma get_nonempty:
  assumes "db_ok s" and "\<not> db_closed s" and "0 < sz"
    and "unat addr + unat sz \<le> unat (db_logical_size s)"
    and "writable \<longrightarrow> first_writable_address s \<le> addr"
  shows "\<exists>ps. get s addr sz writable = Inr ps
    \<and> call_positions (db_storage s) ps = map Some [unat addr..<unat addr + unat sz]"
proof -
  let ?st = "db_storage s"
  obtain n where ok: "storage_ok ?st n" and fits: "unat addr + unat sz \<le> n * 2 ^ 22"
    using assms(1,4) by (auto simp: db_ok_def)
  have pos: "0 < unat sz"
    using assms(3) by (simp add: word_less_nat_alt)
  have a: "unat addr < n * 2 ^ 22"
    using fits pos by linarith
  have le: "addr \<le> db_logical_size s"
    using assms(4) by (simp add: word_le_nat_alt)
  then have bounds: "\<not> db_logical_size s < addr" "\<not> db_logical_size s - addr < sz"
    using assms(4) by (auto simp: word_less_nat_alt unat_diff_no_wrap)
  show ?thesis
  proof (cases "request_spans_regions ?st addr sz")
    case True
    obtain ps where "storage_copy ?st addr (unat sz) = Inr ps"
      "call_positions ?st ps = map Some [unat addr..<unat addr + unat sz]"
      using storage_copy_ok [OF ok a fits] by blast
    with True bounds assms(2,5) show ?thesis
      by (auto simp: get_def get_spanning_def Let_def)
  next
    case False
    obtain r where r: "r \<in> set (regions ?st)" "in_region r (unat addr)"
      "address_to_pointer ?st addr = Some (data r, unat addr - unat (r_offset r))"
      using address_to_pointer_ok [OF ok a] by blast
    obtain q where q: "q \<in> set (regions ?st)" "in_region q (unat addr)" "in_region q (unat addr + unat sz - 1)"
      using False request_spans_iff [OF ok assms(3) fits] by blast
    have "q = r"
      using ok r(1,2) q(1,2) mapped_segments_unique [of 0 "regions ?st" n q r] by (auto simp: storage_ok_def)
    with q(3) r(2) pos have "unat addr - unat (r_offset r) + unat sz \<le> unat (r_size r)"
      by (auto simp: in_region_def)
    from call_positions_piece [OF ok r(1,2) this]
    have "call_positions ?st [((data r, unat addr - unat (r_offset r)), unat sz)]
        = map Some [unat addr..<unat addr + unat sz]"
      by (simp add: call_positions_def)
    with False bounds assms(2,5) r(3) show ?thesis
      by (auto simp: get_def Let_def)
  qed
qed

lemma get_ok:
  assumes "db_ok s" and "\<not> db_closed s"
    and "unat addr + unat sz \<le> unat (db_logical_size s)"
    and "writable \<longrightarrow> first_writable_address s \<le> addr"
  shows "\<exists>ps. get s addr sz writable = Inr ps
    \<and> call_positions (db_storage s) ps = map Some [unat addr..<unat addr + unat sz]"
proof (cases "sz = 0")
  case True
  moreover have "addr \<le> db_logical_size s"
    using assms(3) by (simp add: word_le_nat_alt)
  ultimately show ?thesis
    using get_empty assms(2,4) by simp
next
  case False
  then have "0 < sz" by (simp add: word_greater_zero_iff)
  then show ?thesis
    using assms by (intro get_nonempty)
qed

lemma load_flat:
  "call_positions (db_storage s) ps = map Some [p..<p + n] \<Longrightarrow> load s ps = Inr (file_bytes s p n)"
  by (simp add: load_def file_bytes_def Let_def image_iff)

lemma getro_ok:
  assumes "db_ok s" and "\<not> db_closed s"
    and "unat addr + unat sz \<le> unat (db_logical_size s)"
  shows "getro s addr sz = Inr (file_bytes s (unat addr) (unat sz))"
  using get_ok [OF assms, of False] load_flat [of s] by (auto simp: getro_def rbind_def)

lemma write_at_Cons: "write_at m (p # ps) (b # bs) = write_at (m(p := b)) ps bs"
  by (simp add: write_at_def)

lemma write_at_outside: "i \<notin> set ps \<Longrightarrow> write_at m ps bs i = m i"
proof (induction ps arbitrary: bs m)
  case (Cons p ps)
  then show ?case
    by (cases bs) (simp_all add: write_at_Cons, simp add: write_at_def)
qed (simp add: write_at_def)

lemma write_at_inside:
  "distinct ps \<Longrightarrow> length ps = length bs \<Longrightarrow> j < length ps \<Longrightarrow> write_at m ps bs (ps ! j) = bs ! j"
proof (induction ps arbitrary: bs m j)
  case (Cons p ps)
  then obtain b bs' where bs: "bs = b # bs'"
    by (cases bs) auto
  show ?case
  proof (cases j)
    case 0
    then show ?thesis
      using Cons.prems write_at_outside [of p ps "m(p := b)" bs'] by (simp add: bs write_at_Cons)
  next
    case (Suc i)
    then show ?thesis
      using Cons.IH [of bs' i "m(p := b)"] Cons.prems by (simp add: bs write_at_Cons del: fun_upd_apply)
  qed
qed simp

definition overwrite :: "(nat \<Rightarrow> u8) \<Rightarrow> nat \<Rightarrow> u8 list \<Rightarrow> nat \<Rightarrow> u8" where
  "overwrite m p bs = (\<lambda>i. if p \<le> i \<and> i < p + length bs then bs ! (i - p) else m i)"

lemma write_at_flat: "write_at m [p..<p + length bs] bs = overwrite m p bs"
proof
  fix i
  show "write_at m [p..<p + length bs] bs i = overwrite m p bs i"
  proof (cases "p \<le> i \<and> i < p + length bs")
    case True
    then have "[p..<p + length bs] ! (i - p) = i" by simp
    moreover have "i - p < length bs"
      using True by linarith
    ultimately show ?thesis
      using True write_at_inside [of "[p..<p + length bs]" bs "i - p" m] by (simp add: overwrite_def)
  next
    case False
    then show ?thesis
      using write_at_outside [of i "[p..<p + length bs]" m bs] by (auto simp: overwrite_def)
  qed
qed

lemma store_flat:
  assumes "call_positions (db_storage s) ps = map Some [p..<p + length bs]"
  shows "store ps bs s = (Inr (), s\<lparr>db_memory := overwrite (db_memory s) p bs\<rparr>)"
proof -
  have "map the (map Some [p..<p + length bs]) = [p..<p + length bs]"
    by (simp add: comp_def)
  then show ?thesis
    using assms write_at_flat [of "db_memory s" p bs] by (simp add: store_def Let_def image_iff)
qed

text \<open>What is in the file at a position.\<close>

definition stored :: "'z database_scheme \<Rightarrow> nat \<Rightarrow> u8 list \<Rightarrow> bool" where
  "stored s p bs \<longleftrightarrow> file_bytes s p (length bs) = bs"

lemma stored_overwrite: "stored (s\<lparr>db_memory := overwrite m p bs\<rparr>) p bs"
  by (auto simp: stored_def file_bytes_def overwrite_def intro: nth_equalityI)

lemma stored_cong:
  assumes "\<And>i. p \<le> i \<Longrightarrow> i < p + length bs \<Longrightarrow> db_memory s' i = db_memory s i"
  shows "stored s' p bs \<longleftrightarrow> stored s p bs"
proof -
  have "file_bytes s' p (length bs) = file_bytes s p (length bs)"
    using assms by (simp add: file_bytes_def)
  then show ?thesis
    by (simp add: stored_def)
qed

lemma getro_stored:
  assumes "db_ok s" and "\<not> db_closed s" and "stored s (unat addr) bs"
    and "unat addr + length bs \<le> unat (db_logical_size s)" and "unat sz = length bs"
  shows "getro s addr sz = Inr bs"
  using getro_ok [OF assms(1,2)] assms(3-5) by (simp add: stored_def)

section \<open>Allocation\<close>

lemma pop_regions_keep:
  "rs \<noteq> [] \<Longrightarrow> r_offset (last rs) \<le> sz \<Longrightarrow> rev (pop_regions sz (rev rs)) = rs"
  by (cases rs rule: rev_cases) simp_all

lemma map_bytes_no_smaller:
  assumes ok: "storage_ok st n" and clear: "sat_clear_from st n" and ne: "regions st \<noteq> []"
    and lst: "r_offset (last (regions st)) \<le> sz" and fits: "unat sz \<le> 2 ^ 38"
  shows "\<exists>st' m. map_bytes sz st = (Inr (), st') \<and> storage_ok st' m \<and> sat_clear_from st' m
    \<and> unat sz \<le> m * 2 ^ 22 \<and> n \<le> m \<and> regions st' \<noteq> [] \<and> r_offset (last (regions st')) \<le> sz
    \<and> file_size st' = (if n * 2 ^ 22 < unat sz then round_up sz min_region_size else file_size st)
    \<and> (n * 2 ^ 22 \<le> unat (file_size st) \<longrightarrow> m * 2 ^ 22 \<le> unat (file_size st'))"
proof (cases "n * 2 ^ 22 < unat sz")
  case True
  define m where "m = round_up_nat (unat sz) (2 ^ 22) div 2 ^ 22"
  obtain st' where st': "map_bytes sz st = (Inr (), st')" "storage_ok st' m" "sat_clear_from st' m"
    "\<exists>rs. regions st' = regions st @ rs" "file_size st' = round_up sz min_region_size"
    using map_bytes_grow [OF ok clear True fits m_def] by blast
  have m: "unat sz \<le> m * 2 ^ 22" "m * 2 ^ 22 < unat sz + 2 ^ 22"
    using round_up_nat_spec(1,2) [of "2 ^ 22" "unat sz"] by (simp_all add: m_def round_up_nat_def)
  have ne': "regions st' \<noteq> []"
    using st'(4) ne by auto
  then obtain k j where "unat (r_offset (last (regions st'))) = k * 2 ^ 22" "0 < j" "k + j \<le> m"
    using st'(2) mapped_segments_member [of 0 "regions st'" m "last (regions st')"]
    by (auto simp: storage_ok_def)
  then have "unat (r_offset (last (regions st'))) \<le> unat sz"
    using m(2) by simp
  moreover have "m * 2 ^ 22 \<le> unat (file_size st')"
    using fits st'(5) by (simp add: unat_round_up m_def round_up_nat_def)
  ultimately show ?thesis
    using st' ne' m(1) True by (auto simp: word_le_nat_alt)
next
  case False
  have "unat (region_end (last (regions st))) = n * 2 ^ 22"
    using ok ne mapped_segments_end [of 0 "regions st" n] by (simp add: storage_ok_def)
  then have "\<not> region_end (last (regions st)) < sz"
    using False by (simp add: word_less_nat_alt)
  then have "map_bytes sz st = (Inr (), st)"
    using ne pop_regions_keep [OF ne lst] by (simp add: map_bytes_def run_simps Let_def)
  then show ?thesis
    using ok clear ne lst False by (intro exI [of _ st] exI [of _ n]) auto
qed

lemma unat_sizeof_trailer [simp]: "unat (of_nat sizeof_trailer :: u64) = sizeof_trailer"
  by (simp add: sizeof_trailer_def)

lemma db_ok_footer_no_wrap:
  assumes "db_ok s"
  shows "unat (db_footer_pos s + of_nat sizeof_trailer) = unat (db_footer_pos s) + sizeof_trailer"
proof (subst unat_plus_no_wrap)
  have "unat (db_logical_size s) < 2 ^ 64"
    using unsigned_less [of "db_logical_size s", where 'a = nat] by simp
  then show "unat (db_footer_pos s) + unat (of_nat sizeof_trailer :: u64) < 2 ^ LENGTH(64)"
    using assms by (simp add: db_ok_def)
qed simp

lemma db_ok_modified [simp]: "db_ok (s\<lparr>db_modified := b\<rparr>) = db_ok s"
  by (simp add: db_ok_def)

text \<open>The contract of \<^verbatim>\<open>database::allocate\<close>.\<close>

lemma db_allocate_ok:
  assumes ok: "db_ok s" and "\<not> db_closed s" and "is_power_of_two align"
    and fits: "unat (db_logical_size s) + unat bytes + unat align \<le> 2 ^ 38"
  shows "\<exists>a st l. db_allocate bytes align s
      = (Inr a, s\<lparr>db_modified := True, db_storage := st, db_logical_size := l\<rparr>)
    \<and> unat a = round_up_nat (unat (db_logical_size s)) (unat align)
    \<and> unat l = unat a + unat bytes
    \<and> db_ok (s\<lparr>db_modified := True, db_storage := st, db_logical_size := l\<rparr>)"
proof -
  let ?l = "db_logical_size s"
  obtain k where k: "k < 64" "align = one_bit k"
    using assms(3) by (auto simp: is_power_of_two_iff)
  have al: "unat align = 2 ^ k"
    using k by (simp add: unat_one_bit)
  define x where "x = calc_alignment ?l align"
  have r: "unat ?l \<le> round_up_nat (unat ?l) (2 ^ k)" "round_up_nat (unat ?l) (2 ^ k) < unat ?l + 2 ^ k"
    using round_up_nat_spec(1,2) [of "2 ^ k" "unat ?l"] by simp_all
  have x: "unat x = round_up_nat (unat ?l) (2 ^ k) - unat ?l"
    using unat_calc_alignment [of k ?l] k fits al by (simp add: x_def)
  have x_lt: "x < align"
    using x r al by (simp add: word_less_nat_alt)
  have a: "unat (?l + x) = round_up_nat (unat ?l) (unat align)"
    using fits r by (subst unat_plus_no_wrap) (simp_all add: x al)
  have nl: "unat (?l + bytes + x) = round_up_nat (unat ?l) (unat align) + unat bytes"
  proof -
    have "unat (?l + bytes) = unat ?l + unat bytes"
      using fits by (intro unat_plus_no_wrap) simp
    then show ?thesis
      using fits r by (subst unat_plus_no_wrap) (simp_all add: x al)
  qed
  have le: "unat ?l \<le> unat (?l + bytes + x)"
    using nl r al by simp
  obtain n where n: "storage_ok (db_storage s) n" "sat_clear_from (db_storage s) n"
    and fsz: "n * 2 ^ 22 \<le> unat (file_size (db_storage s))"
    using ok by (auto simp: db_ok_def)
  have "regions (db_storage s) \<noteq> []" "r_offset (last (regions (db_storage s))) \<le> ?l + bytes + x"
    using ok le by (auto simp: db_ok_def word_le_nat_alt)
  moreover have "unat (?l + bytes + x) \<le> 2 ^ 38"
    using nl fits r al by simp
  ultimately obtain st m where st: "map_bytes (?l + bytes + x) (db_storage s) = (Inr (), st)"
    "storage_ok st m" "sat_clear_from st m" "unat (?l + bytes + x) \<le> m * 2 ^ 22" "regions st \<noteq> []"
    "r_offset (last (regions st)) \<le> ?l + bytes + x" "m * 2 ^ 22 \<le> unat (file_size st)"
    using map_bytes_no_smaller [OF n] fsz by blast
  have f1: "db_footer_pos s + of_nat sizeof_trailer \<le> ?l"
    using ok db_ok_footer_no_wrap [OF ok] by (simp add: word_le_nat_alt db_ok_def)
  have f2: "db_footer_pos s + of_nat sizeof_trailer \<le> ?l + bytes + x"
    using f1 le by (simp add: word_le_nat_alt)
  have mx: "max ?l (?l + bytes + x) = ?l + bytes + x"
    using le by (simp add: max_def word_le_nat_alt)
  have "db_allocate bytes align s = (Inr (?l + x),
      s\<lparr>db_modified := True, db_storage := st, db_logical_size := ?l + bytes + x\<rparr>)"
    using assms(2,3) f1 f2 x_lt st(1) mx
    by (simp add: db_allocate_def run_simps Let_def x_def [symmetric] update_logical_size_def)
  moreover have "db_ok (s\<lparr>db_modified := True, db_storage := st, db_logical_size := ?l + bytes + x\<rparr>)"
    using ok st le by (auto simp: db_ok_def)
  ultimately show ?thesis
    using a nl by (intro exI [of _ "?l + x"] exI [of _ st] exI [of _ "?l + bytes + x"]) simp
qed

end
