(* ===== verification/Transaction.thy ===== *)
theory Transaction
  imports Database
begin

unbundle bit_operations_syntax

text \<open>
  Transactions (\<^verbatim>\<open>include/pstore/core/transaction.hpp\<close>, \<^verbatim>\<open>lib/core/transaction.cpp\<close>) and the
  archive that writes objects into one (\<^verbatim>\<open>include/pstore/core/db_archive.hpp\<close>): a transaction only
  ever appends to the store, so what was stored before it stays as it was.
\<close>

section \<open>Operations\<close>

record transaction = database +
  tx_size :: u64
  tx_dbsize :: u64
  tx_first :: address

definition is_open :: "'z transaction_scheme \<Rightarrow> bool" where
  "is_open s \<longleftrightarrow> tx_first s \<noteq> 0"

definition tx_allocate :: "u64 \<Rightarrow> u64 \<Rightarrow> ('z transaction_scheme, address) sx" where
  "tx_allocate sz align =
     sbind (sgets db_logical_size) (\<lambda>old_size.
     sbind (db_allocate sz align) (\<lambda>result.
     sbind (sgets id) (\<lambda>s.
     sseq (if tx_first s = 0
           then if tx_size s \<noteq> 0 then sraise (Raise cannot_allocate_after_commit)
                else smodify (\<lambda>s. s\<lparr>tx_first := result\<rparr>)
           else sret ())
       (let bytes_allocated = db_logical_size s - old_size in
        sseq (sassert (sz \<le> bytes_allocated))
          (sseq (smodify (\<lambda>s. s\<lparr>tx_size := tx_size s + bytes_allocated\<rparr>))
            (sret result))))))"

definition tx_alloc_rw :: "u64 \<Rightarrow> u64 \<Rightarrow> ('z transaction_scheme, pieces \<times> address) sx" where
  "tx_alloc_rw sz align =
     sbind (tx_allocate sz align) (\<lambda>addr.
     sbind (sread (\<lambda>s. get s addr sz True)) (\<lambda>ptr. sret (ptr, addr)))"

text \<open>
  The accessors of a transaction check that the request is within the memory that it has
  allocated; with \<open>writable\<close>, they give memory that may be written.
\<close>

definition tx_get :: "address \<Rightarrow> u64 \<Rightarrow> bool \<Rightarrow> ('z transaction_scheme, pieces) sx" where
  "tx_get addr sz writable =
     sbind (sgets id) (\<lambda>s.
     sseq (sassert (tx_first s \<le> addr \<and> addr + sz \<le> tx_first s + tx_size s))
       (sread (\<lambda>s. get s addr sz writable)))"

definition rollback :: "('z transaction_scheme, unit) sx" where
  "rollback =
     sbind (sgets id) (\<lambda>s.
     if is_open s
     then sseq (smodify (\<lambda>s. s\<lparr>tx_first := 0\<rparr>))
            (if tx_dbsize s < db_logical_size s
             then sseq (db_truncate (tx_dbsize s))
                    (sbind (sgets id) (\<lambda>s. sassert (db_logical_size s = tx_dbsize s)))
             else sret ())
     else sret ())"

section \<open>The archive\<close>

text \<open>\<^verbatim>\<open>database_writer_policy::put\<close>: room for the value is allocated and the value copied to it.\<close>

definition tx_put :: "u64 \<Rightarrow> u8 list \<Rightarrow> ('z transaction_scheme, address) sx" where
  "tx_put align bs =
     sbind (tx_alloc_rw (of_nat (length bs)) align) (\<lambda>(ptr, addr).
     sseq (store ptr bs) (sret addr))"

text \<open>
  An object is written as a sequence of such calls; the address of the first is the object's.
\<close>

fun put_all :: "(u64 \<Rightarrow> u8 list \<Rightarrow> ('s, address) sx) \<Rightarrow> (u64 \<times> u8 list) list \<Rightarrow> ('s, address option) sx" where
  "put_all put [] = sret None"
| "put_all put ((align, bs) # rest) =
     sbind (put align bs) (\<lambda>a. sseq (sbind (put_all put rest) (\<lambda>_. sret ())) (sret (Some a)))"

section \<open>Appending\<close>

text \<open>Where the parts of an object are when the first is written at or after position \<open>p\<close>.\<close>

fun laid_out :: "(nat \<Rightarrow> u8) \<Rightarrow> nat \<Rightarrow> (u64 \<times> u8 list) list \<Rightarrow> bool" where
  "laid_out m p [] = True"
| "laid_out m p ((al, bs) # rest) =
     (let q = round_up_nat p (unat al) in
      map m [q..<q + length bs] = bs \<and> laid_out m (q + length bs) rest)"

fun layout_end :: "nat \<Rightarrow> (u64 \<times> 'b list) list \<Rightarrow> nat" where
  "layout_end p [] = p"
| "layout_end p ((al, bs) # rest) = layout_end (round_up_nat p (unat al) + length bs) rest"

definition layout_space :: "(u64 \<times> 'b list) list \<Rightarrow> nat" where
  "layout_space ps = sum_list (map (\<lambda>(al, bs). unat al + length bs) ps)"

lemma layout_space_simps [simp]:
  "layout_space [] = 0" "layout_space ((al, bs) # ps) = unat al + length bs + layout_space ps"
  by (simp_all add: layout_space_def)

lemma power_of_two_pos: "is_power_of_two al \<Longrightarrow> 0 < unat al"
  by (auto simp: is_power_of_two_iff unat_one_bit)

lemma layout_end_between:
  assumes "\<forall>(al, bs) \<in> set ps. is_power_of_two al"
  shows "p \<le> layout_end p ps \<and> layout_end p ps \<le> p + layout_space ps"
  using assms
proof (induction ps arbitrary: p)
  case (Cons x ps)
  obtain al bs where x: "x = (al, bs)" by force
  have "0 < unat al"
    using Cons.prems by (simp add: x power_of_two_pos)
  moreover have "\<forall>(al, bs) \<in> set ps. is_power_of_two al"
    using Cons.prems by simp
  ultimately show ?case
    using Cons.IH [of "round_up_nat p (unat al) + length bs"] round_up_nat_spec(1,2) [of "unat al" p]
    by (simp add: x)
qed simp

lemmas layout_end_bounds = layout_end_between [THEN conjunct1] layout_end_between [THEN conjunct2]

lemma laid_out_cong:
  assumes "\<forall>(al, bs) \<in> set ps. is_power_of_two al"
    and "\<And>i. p \<le> i \<Longrightarrow> i < layout_end p ps \<Longrightarrow> m' i = m i"
  shows "laid_out m' p ps \<longleftrightarrow> laid_out m p ps"
  using assms
proof (induction ps arbitrary: p)
  case (Cons x ps)
  obtain al bs where x: "x = (al, bs)" by force
  define q where "q = round_up_nat p (unat al)"
  have "p \<le> q"
    using Cons.prems(1) round_up_nat_spec(1) [of "unat al" p] by (simp add: x q_def power_of_two_pos)
  moreover have "q + length bs \<le> layout_end p (x # ps)"
    using layout_end_bounds(1) [of ps "q + length bs"] Cons.prems(1) by (simp add: x q_def)
  ultimately have "map m' [q..<q + length bs] = map m [q..<q + length bs]"
    using Cons.prems(2) by (intro map_cong) auto
  moreover have "laid_out m' (q + length bs) ps \<longleftrightarrow> laid_out m (q + length bs) ps"
  proof (rule Cons.IH)
    show "\<forall>(al, bs) \<in> set ps. is_power_of_two al"
      using Cons.prems(1) by simp
    show "m' i = m i" if "q + length bs \<le> i" "i < layout_end (q + length bs) ps" for i
      using Cons.prems(2) [of i] that \<open>p \<le> q\<close> by (simp add: x q_def)
  qed
  ultimately show ?case
    by (simp add: x q_def Let_def del: map_eq_conv)
qed simp

text \<open>
  A store that can be appended to: what a writer of objects relies on. \<open>keep\<close> is whatever else
  of the state a \<open>put\<close> does not touch.
\<close>

locale append_store =
  fixes ok :: "'s \<Rightarrow> bool" and logical :: "'s \<Rightarrow> nat" and byte :: "'s \<Rightarrow> nat \<Rightarrow> u8" and keep :: "'s \<Rightarrow> 'k"
    and put :: "u64 \<Rightarrow> u8 list \<Rightarrow> ('s, address) sx"
  assumes put_ok: "\<lbrakk>ok s; is_power_of_two al; logical s + unat al + length bs \<le> 2 ^ 38\<rbrakk> \<Longrightarrow>
    \<exists>a s'. put al bs s = (Inr a, s') \<and> ok s' \<and> keep s' = keep s
      \<and> unat a = round_up_nat (logical s) (unat al) \<and> logical s' = unat a + length bs
      \<and> map (byte s') [unat a..<unat a + length bs] = bs
      \<and> (\<forall>i < logical s. byte s' i = byte s i)"
begin

lemma put_all_ok:
  assumes "ok s" and "\<forall>(al, bs) \<in> set ps. is_power_of_two al" and "logical s + layout_space ps \<le> 2 ^ 38"
  shows "\<exists>a s'. put_all put ps s = (Inr a, s') \<and> ok s' \<and> keep s' = keep s
    \<and> (ps \<noteq> [] \<longrightarrow> (\<exists>b. a = Some b \<and> unat b = round_up_nat (logical s) (unat (fst (hd ps)))))
    \<and> logical s' = layout_end (logical s) ps \<and> laid_out (byte s') (logical s) ps
    \<and> (\<forall>i < logical s. byte s' i = byte s i)"
  using assms
proof (induction ps arbitrary: s)
  case Nil
  then show ?case by (auto simp: run_simps)
next
  case (Cons x ps)
  obtain al bs where x: "x = (al, bs)" by force
  have al: "is_power_of_two al"
    using Cons.prems(2) by (simp add: x)
  have r: "logical s \<le> round_up_nat (logical s) (unat al)" "round_up_nat (logical s) (unat al) < logical s + unat al"
    using round_up_nat_spec(1,2) [of "unat al" "logical s"] power_of_two_pos [OF al] by simp_all
  have "logical s + unat al + length bs \<le> 2 ^ 38"
    using Cons.prems(3) by (simp add: x)
  from put_ok [OF Cons.prems(1) al this] obtain a s1 where
    s1: "put al bs s = (Inr a, s1)" "ok s1" "keep s1 = keep s" "unat a = round_up_nat (logical s) (unat al)"
      "logical s1 = unat a + length bs" "map (byte s1) [unat a..<unat a + length bs] = bs"
      "\<forall>i < logical s. byte s1 i = byte s i" by blast
  have "logical s1 + layout_space ps \<le> 2 ^ 38"
    using Cons.prems(3) s1(4,5) r by (simp add: x)
  moreover have pow: "\<forall>(al, bs) \<in> set ps. is_power_of_two al"
    using Cons.prems(2) by simp
  ultimately obtain b s2 where
    s2: "put_all put ps s1 = (Inr b, s2)" "ok s2" "keep s2 = keep s1" "logical s2 = layout_end (logical s1) ps"
      "laid_out (byte s2) (logical s1) ps" "\<forall>i < logical s1. byte s2 i = byte s1 i"
    using Cons.IH [OF s1(2)] by blast
  have "map (byte s2) [unat a..<unat a + length bs] = map (byte s1) [unat a..<unat a + length bs]"
    using s2(6) s1(5) by (intro map_cong) auto
  then have "laid_out (byte s2) (logical s) (x # ps)"
    using s2(5) s1(4-6) by (simp add: x Let_def del: map_eq_conv)
  moreover have "\<forall>i < logical s. byte s2 i = byte s i"
    using s1(4,5,7) s2(6) r by simp
  ultimately show ?case
    using s1 s2 by (simp add: x run_simps)
qed

end

section \<open>The transaction as an append-only store\<close>

text \<open>
  The invariant of a transaction that can allocate: nothing was committed by it, all of what it may
  write is behind the last committed trailer, and its size is what the store has grown by since it
  began.
\<close>

definition tx_sized :: "'z transaction_scheme \<Rightarrow> bool" where
  "tx_sized s \<longleftrightarrow> tx_dbsize s \<le> db_logical_size s \<and> tx_size s = db_logical_size s - tx_dbsize s
     \<and> is_power_of_two (db_page_size s) \<and> db_page_size s \<le> 2 ^ 22"

definition tx_ok :: "'z transaction_scheme \<Rightarrow> bool" where
  "tx_ok s \<longleftrightarrow> db_ok s \<and> \<not> db_closed s \<and> (tx_first s = 0 \<longrightarrow> tx_size s = 0)
     \<and> unat (h_footer_pos (db_header s)) + sizeof_trailer \<le> unat (db_logical_size s) \<and> tx_sized s"

lemma tx_sized_same [simp]:
  "tx_sized (s\<lparr>db_memory := m\<rparr>) = tx_sized s" "tx_sized (s\<lparr>heap := h\<rparr>) = tx_sized s"
  by (simp_all add: tx_sized_def)

lemma db_header_cong:
  assumes "\<And>i. i < sizeof_header \<Longrightarrow> db_memory s' i = db_memory s i"
  shows "db_header s' = db_header s"
proof -
  have "file_bytes s' 0 sizeof_header = file_bytes s 0 sizeof_header"
    using assms by (simp add: file_bytes_def)
  then show ?thesis
    by (simp add: db_header_def)
qed

lemma first_writable_no_wrap:
  assumes "unat (h_footer_pos (db_header s)) + sizeof_trailer \<le> unat (a::u64)"
  shows "first_writable_address s \<le> a"
proof -
  have "unat (first_writable_address s) = unat (h_footer_pos (db_header s)) + sizeof_trailer"
    unfolding first_writable_address_def
    using assms unsigned_less [of a, where 'a = nat] by (subst unat_plus_no_wrap) simp_all
  then show ?thesis
    using assms by (simp add: word_le_nat_alt)
qed

lemma tx_allocate_ok:
  assumes ok: "tx_ok s" and al: "is_power_of_two align"
    and fits: "unat (db_logical_size s) + unat align + unat sz \<le> 2 ^ 38"
  shows "\<exists>a s'. tx_allocate sz align s = (Inr a, s') \<and> tx_ok s' \<and> heap s' = heap s
    \<and> unat a = round_up_nat (unat (db_logical_size s)) (unat align)
    \<and> unat (db_logical_size s') = unat a + unat sz \<and> db_memory s' = db_memory s
    \<and> db_footer_pos s' = db_footer_pos s \<and> db_indices s' = db_indices s
    \<and> tx_dbsize s' = tx_dbsize s \<and> tx_first s' = (if tx_first s = 0 then a else tx_first s)
    \<and> tx_size s' = tx_size s + (db_logical_size s' - db_logical_size s)"
proof -
  have db: "db_ok s" "\<not> db_closed s"
    using ok by (simp_all add: tx_ok_def)
  have fits': "unat (db_logical_size s) + unat sz + unat align \<le> 2 ^ 38"
    using fits by simp
  obtain a st l where
    alloc: "db_allocate sz align s = (Inr a, s\<lparr>db_modified := True, db_storage := st, db_logical_size := l\<rparr>)"
    and a: "unat a = round_up_nat (unat (db_logical_size s)) (unat align)" and l: "unat l = unat a + unat sz"
    and ok': "db_ok (s\<lparr>db_modified := True, db_storage := st, db_logical_size := l\<rparr>)"
    using db_allocate_ok [OF db al fits'] by blast
  define s1 where "s1 = s\<lparr>db_modified := True, db_storage := st, db_logical_size := l,
    tx_first := if tx_first s = 0 then a else tx_first s, tx_size := tx_size s + (l - db_logical_size s)\<rparr>"
  have a_ge: "unat (db_logical_size s) \<le> unat a"
    using a round_up_nat_spec(1) [of "unat align"] power_of_two_pos [OF al] by simp
  have "db_logical_size s \<le> l"
    using a_ge l by (simp add: word_le_nat_alt)
  then have "unat (l - db_logical_size s) = unat l - unat (db_logical_size s)"
    by (rule unat_diff_no_wrap)
  then have grown: "sz \<le> l - db_logical_size s"
    using a_ge l by (simp add: word_le_nat_alt)
  have "tx_allocate sz align s = (Inr a, s1)"
    using ok alloc grown by (simp add: tx_allocate_def run_simps tx_ok_def Let_def s1_def)
  moreover have "db_header s1 = db_header s"
    by (rule db_header_cong) (simp add: s1_def)
  moreover have "a \<noteq> 0"
  proof
    assume "a = 0"
    with a_ge have "unat (db_logical_size s) = 0" by simp
    with db(1) show False by (simp add: db_ok_def sizeof_trailer_def)
  qed
  moreover have "tx_sized s1"
    using ok a_ge l by (auto simp: tx_ok_def tx_sized_def s1_def word_le_nat_alt)
  ultimately have "tx_allocate sz align s = (Inr a, s1) \<and> tx_ok s1"
    using ok ok' a_ge l by (auto simp: tx_ok_def s1_def db_ok_def)
  then show ?thesis
    using a l by (auto simp: s1_def)
qed

text \<open>The rest of the state that a \<^verbatim>\<open>put\<close> leaves alone.\<close>

definition tx_keep ::
  "'z transaction_scheme \<Rightarrow> (u64 \<rightharpoonup> heap_node) \<times> u64 \<times> hamt option list \<times> u64 \<times> header" where
  "tx_keep s = (heap s, db_footer_pos s, db_indices s, tx_dbsize s, db_header s)"

lemma overwrite_same: "map (overwrite m p bs) [p..<p + length bs] = bs"
  by (rule nth_equalityI) (simp_all add: overwrite_def)

lemma tx_alloc_rw_ok:
  assumes ok: "tx_ok s" and al: "is_power_of_two align"
    and fits: "unat (db_logical_size s) + unat align + unat sz \<le> 2 ^ 38"
  shows "\<exists>ps a s'. tx_alloc_rw sz align s = (Inr (ps, a), s') \<and> tx_ok s' \<and> tx_keep s' = tx_keep s
    \<and> db_memory s' = db_memory s \<and> unat a = round_up_nat (unat (db_logical_size s)) (unat align)
    \<and> unat (db_logical_size s) \<le> unat a \<and> unat (db_logical_size s') = unat a + unat sz
    \<and> call_positions (db_storage s') ps = map Some [unat a..<unat a + unat sz]"
proof -
  obtain a s1 where alloc: "tx_allocate sz align s = (Inr a, s1)"
    and s1: "tx_ok s1" "heap s1 = heap s" "unat a = round_up_nat (unat (db_logical_size s)) (unat align)"
      "unat (db_logical_size s1) = unat a + unat sz" "db_memory s1 = db_memory s"
      "db_footer_pos s1 = db_footer_pos s" "db_indices s1 = db_indices s" "tx_dbsize s1 = tx_dbsize s"
    using tx_allocate_ok [OF ok al fits] by force
  have a_ge: "unat (db_logical_size s) \<le> unat a"
    using s1(3) round_up_nat_spec(1) [of "unat align"] power_of_two_pos [OF al] by simp
  have hdr: "db_header s1 = db_header s"
    by (rule db_header_cong) (simp add: s1)
  have "first_writable_address s1 \<le> a"
    using ok a_ge hdr by (intro first_writable_no_wrap) (simp add: tx_ok_def)
  then obtain ps where ps: "get s1 a sz True = Inr ps"
    "call_positions (db_storage s1) ps = map Some [unat a..<unat a + unat sz]"
    using get_ok [of s1 a sz True] s1(1,4) by (auto simp: tx_ok_def)
  then show ?thesis
    using alloc s1 a_ge hdr by (simp add: tx_alloc_rw_def run_simps tx_keep_def)
qed

lemma tx_store_ok:
  assumes ok: "tx_ok s" and pos: "call_positions (db_storage s) ps = map Some [p..<p + length bs]" and p: "sizeof_header \<le> p"
  shows "store ps bs s = (Inr (), s\<lparr>db_memory := overwrite (db_memory s) p bs\<rparr>)"
    and "tx_ok (s\<lparr>db_memory := overwrite (db_memory s) p bs\<rparr>)"
    and "tx_keep (s\<lparr>db_memory := overwrite (db_memory s) p bs\<rparr>) = tx_keep s"
proof -
  have "db_header (s\<lparr>db_memory := overwrite (db_memory s) p bs\<rparr>) = db_header s"
    using p by (intro db_header_cong) (simp add: overwrite_def)
  then show "tx_ok (s\<lparr>db_memory := overwrite (db_memory s) p bs\<rparr>)"
    "tx_keep (s\<lparr>db_memory := overwrite (db_memory s) p bs\<rparr>) = tx_keep s"
    using ok by (simp_all add: tx_ok_def db_ok_def tx_keep_def)
qed (rule store_flat [OF pos])

lemma tx_ok_header: "tx_ok s \<Longrightarrow> sizeof_header \<le> unat (db_logical_size s)"
  by (simp add: tx_ok_def db_ok_def sizeof_trailer_def sizeof_header_def leader_size_def)

lemma tx_put_ok:
  assumes ok: "tx_ok s" and al: "is_power_of_two align"
    and fits: "unat (db_logical_size s) + unat align + length bs \<le> 2 ^ 38"
  shows "\<exists>a s'. tx_put align bs s = (Inr a, s') \<and> tx_ok s' \<and> tx_keep s' = tx_keep s
    \<and> unat a = round_up_nat (unat (db_logical_size s)) (unat align)
    \<and> unat (db_logical_size s') = unat a + length bs
    \<and> map (db_memory s') [unat a..<unat a + length bs] = bs
    \<and> (\<forall>i < unat (db_logical_size s). db_memory s' i = db_memory s i)"
proof -
  have len: "unat (of_nat (length bs) :: u64) = length bs"
    using fits by (simp add: unsigned_of_nat take_bit_nat_eq_self)
  obtain ps a s1 where alloc: "tx_alloc_rw (of_nat (length bs)) align s = (Inr (ps, a), s1)"
    and s1: "tx_ok s1" "tx_keep s1 = tx_keep s" "db_memory s1 = db_memory s"
      "unat a = round_up_nat (unat (db_logical_size s)) (unat align)" "unat (db_logical_size s) \<le> unat a"
      "unat (db_logical_size s1) = unat a + length bs" "call_positions (db_storage s1) ps = map Some [unat a..<unat a + length bs]"
    using tx_alloc_rw_ok [OF ok al, of "of_nat (length bs)"] fits len by force
  have "sizeof_header \<le> unat a"
    using tx_ok_header [OF ok] s1(5) by simp
  note st = tx_store_ok [OF s1(1,7) this]
  define s2 where "s2 = s1\<lparr>db_memory := overwrite (db_memory s1) (unat a) bs\<rparr>"
  have "tx_put align bs s = (Inr a, s2)" "tx_ok s2" "tx_keep s2 = tx_keep s"
    using alloc st s1(2) by (simp_all add: tx_put_def run_simps s2_def)
  moreover have "map (db_memory s2) [unat a..<unat a + length bs] = bs"
    using overwrite_same [of "db_memory s1" "unat a" bs] by (simp add: s2_def)
  moreover have "\<forall>i < unat (db_logical_size s). db_memory s2 i = db_memory s i"
    using s1(3,5) by (simp add: s2_def overwrite_def)
  ultimately show ?thesis
    using s1(4,6) by (simp add: s2_def)
qed

interpretation txs: append_store tx_ok "\<lambda>s. unat (db_logical_size s)" db_memory tx_keep tx_put
  by unfold_locales (rule tx_put_ok)

section \<open>Rolling back\<close>

lemma map_bytes_drop_none:
  assumes "regions st \<noteq> []" and "r_offset (last (regions st)) \<le> sz" and "sz \<le> region_end (last (regions st))"
  shows "map_bytes sz st = (Inr (), st)"
  using assms leD [OF assms(3)] pop_regions_keep [OF assms(1,2)]
  by (simp add: map_bytes_def run_simps Let_def)

lemma map_bytes_shrink:
  assumes "storage_ok st n" and "regions st \<noteq> []" and "unat sz < n * 2 ^ 22"
  shows "map_bytes sz st = (Inr (), st\<lparr>regions := rev (pop_regions sz (rev (regions st)))\<rparr>)"
proof -
  have "unat (region_end (last (regions st))) = n * 2 ^ 22"
    using assms(1,2) mapped_segments_end [of 0 "regions st" n] by (simp add: storage_ok_def)
  then have "sz < region_end (last (regions st))" "\<not> region_end (last (regions st)) < sz"
    using assms(3) by (simp_all add: word_less_nat_alt)
  with assms(2) show ?thesis
    by (simp add: map_bytes_def run_simps Let_def)
qed

lemma rollback_run:
  assumes ok: "tx_ok s" and "is_open s" and lt: "tx_dbsize s < db_logical_size s"
    and foot: "unat (db_footer_pos s) + sizeof_trailer \<le> unat (tx_dbsize s)"
  shows "rollback s = (Inr (), s\<lparr>tx_first := 0, db_modified := True,
    db_storage := (db_storage s)\<lparr>regions := rev (pop_regions (tx_dbsize s) (rev (regions (db_storage s))))\<rparr>,
    db_logical_size := tx_dbsize s\<rparr>)"
proof -
  have db: "db_ok s" "\<not> db_closed s"
    using ok by (simp_all add: tx_ok_def)
  obtain n where n: "storage_ok (db_storage s) n" "unat (db_logical_size s) \<le> n * 2 ^ 22"
    and ne: "regions (db_storage s) \<noteq> []"
    using db(1) by (auto simp: db_ok_def)
  have "unat (tx_dbsize s) < n * 2 ^ 22"
    using lt n(2) by (simp add: word_less_nat_alt)
  note shrink = map_bytes_shrink [OF n(1) ne this]
  have "db_footer_pos s + of_nat sizeof_trailer \<le> tx_dbsize s"
    using foot db_ok_footer_no_wrap [OF db(1)] by (simp add: word_le_nat_alt)
  then show ?thesis
    using assms(2) lt db(2) shrink
    by (simp add: rollback_def db_truncate_def run_simps truncate_logical_size_def)
qed

section \<open>Properties\<close>

text \<open>
  C6. Writing an object into a transaction, as any sequence of values with any power-of-two
  alignments, succeeds while there is room in the address space, puts each value at the next
  aligned position, and changes no byte that was in the store before.
\<close>

theorem transaction_appends_object:
  assumes "tx_ok s" and "\<forall>(al, bs) \<in> set ps. is_power_of_two al"
    and "unat (db_logical_size s) + layout_space ps \<le> 2 ^ 38" and "ps \<noteq> []"
  shows "\<exists>a s'. put_all tx_put ps s = (Inr (Some a), s') \<and> tx_ok s'
    \<and> unat a = round_up_nat (unat (db_logical_size s)) (unat (fst (hd ps)))
    \<and> unat (db_logical_size s') = layout_end (unat (db_logical_size s)) ps
    \<and> laid_out (db_memory s') (unat (db_logical_size s)) ps
    \<and> (\<forall>i < unat (db_logical_size s). db_memory s' i = db_memory s i)"
  using txs.put_all_ok [OF assms(1-3)] assms(4) by auto

text \<open>
  A database on the one-region storage of a new file, with the first trailer right behind the
  leader, and a transaction on it.
\<close>

definition small_storage :: storage where
  "small_storage =
     (let r0 = \<lparr>data = 0, r_offset = 0, r_size = 0x400000\<rparr>
      in \<lparr>regions = [r0], sat = (\<lambda>i. if i = 0 then entry_for r0 0 else null_entry),
          file_size = 0x400000, mappings = 1\<rparr>)"

definition small_tx :: transaction where
  "small_tx =
     \<lparr>heap = Map.empty, db_storage = small_storage,
      db_memory = overwrite (\<lambda>_. 0) 40 (le_bytes 8 (64 :: u64)),
      db_footer_pos = 64, db_logical_size = 168, db_closed = False, db_modified = False, db_read_only = [],
      db_page_size = 4096, db_indices = replicate 5 None, tx_size = 0, tx_dbsize = 168, tx_first = 0\<rparr>"

lemma small_storage_ok: "storage_ok small_storage 1" "sat_clear_from small_storage 1"
  by (simp_all add: small_storage_def Let_def storage_ok_def in_region_def sat_clear_from_def
      unat_full_region_size)

lemma small_tx_footer: "h_footer_pos (db_header small_tx) = 64"
proof -
  have "file_bytes small_tx 0 sizeof_header = map (db_memory small_tx) [0..<40] @ le_bytes 8 (64 :: u64)"
    using overwrite_same [of "\<lambda>_. 0" 40 "le_bytes 8 (64 :: u64)"] upt_add_eq_append [of 0 40 8]
    by (simp add: file_bytes_def sizeof_header_def small_tx_def)
  then show ?thesis
    by (simp add: db_header_def header_of_bytes_def)
qed

lemma small_tx_ok: "tx_ok small_tx"
proof -
  have "db_ok small_tx"
    unfolding db_ok_def using small_storage_ok
    by (auto simp: small_tx_def small_storage_def Let_def leader_size_def sizeof_trailer_def intro!: exI [of _ 1])
  then show ?thesis
    using small_tx_footer by (simp add: tx_ok_def small_tx_def sizeof_trailer_def tx_sized_def is_power_of_two_def)
qed

theorem transaction_appends_object_witness:
  "\<exists>a s'. put_all tx_put [(1, [7]), (8, replicate 8 1)] small_tx = (Inr (Some a), s') \<and> tx_ok s'
    \<and> unat a = 168 \<and> unat (db_logical_size s') = 184"
proof -
  have "round_up_nat 169 8 = 176" "round_up_nat 168 (Suc 0) = 168"
    by (simp_all add: round_up_nat_def)
  then show ?thesis
    using transaction_appends_object [OF small_tx_ok, of "[(1, [7]), (8, replicate 8 1)]"]
    by (auto simp: small_tx_def is_power_of_two_def)
qed


definition open_tx :: transaction where
  "open_tx = small_tx\<lparr>db_logical_size := 200, tx_first := 168, tx_size := 32\<rparr>"

lemma open_tx_ok: "tx_ok open_tx"
proof -
  have "db_ok open_tx"
    unfolding db_ok_def open_tx_def using small_storage_ok
    by (auto simp: small_tx_def small_storage_def Let_def leader_size_def sizeof_trailer_def intro!: exI [of _ 1])
  moreover have "db_header open_tx = db_header small_tx"
    by (rule db_header_cong) (simp add: open_tx_def)
  ultimately show ?thesis
    using small_tx_footer by (simp add: tx_ok_def open_tx_def sizeof_trailer_def small_tx_def tx_sized_def is_power_of_two_def)
qed



definition grown_tx :: transaction where
  "grown_tx = small_tx\<lparr>db_storage := two_regions, db_logical_size := 0x500000, tx_first := 168, tx_size := 0x4FFF58\<rparr>"

lemma grown_tx_ok: "tx_ok grown_tx"
proof -
  have "sat_clear_from two_regions 2"
    by (simp add: two_regions_def Let_def sat_clear_from_def)
  then have "db_ok grown_tx"
    unfolding db_ok_def grown_tx_def using two_regions_ok
    by (auto simp: small_tx_def two_regions_def Let_def leader_size_def sizeof_trailer_def intro!: exI [of _ 2])
  moreover have "db_header grown_tx = db_header small_tx"
    by (rule db_header_cong) (simp add: grown_tx_def)
  ultimately show ?thesis
    using small_tx_footer by (simp add: tx_ok_def grown_tx_def sizeof_trailer_def small_tx_def tx_sized_def is_power_of_two_def)
qed


text \<open>
  C23. An allocation by a transaction that was already committed raises an error, but only after
  it has grown the store: the store's size then no longer ends at its last trailer.
\<close>

theorem allocate_after_commit_grows_store:
  assumes "db_ok s" and "\<not> db_closed s" and "is_power_of_two align"
    and "unat (db_logical_size s) + unat bytes + unat align \<le> 2 ^ 38"
    and "tx_first s = 0" and "tx_size s \<noteq> 0"
  shows "\<exists>s'. tx_allocate bytes align s = (Inl (Raise cannot_allocate_after_commit), s')
    \<and> unat (db_logical_size s') = round_up_nat (unat (db_logical_size s)) (unat align) + unat bytes
    \<and> db_footer_pos s' = db_footer_pos s"
proof -
  obtain a st l where
    alloc: "db_allocate bytes align s = (Inr a, s\<lparr>db_modified := True, db_storage := st, db_logical_size := l\<rparr>)"
    and "unat a = round_up_nat (unat (db_logical_size s)) (unat align)" "unat l = unat a + unat bytes"
    using db_allocate_ok [OF assms(1-4)] by blast
  then show ?thesis
    using assms(5,6) by (simp add: tx_allocate_def run_simps)
qed

theorem allocate_after_commit_grows_store_witness:
  "\<exists>s'. tx_allocate 16 8 (small_tx\<lparr>tx_size := 104\<rparr>) = (Inl (Raise cannot_allocate_after_commit), s')
    \<and> unat (db_logical_size s') = 184"
proof -
  have "db_ok (small_tx\<lparr>tx_size := 104\<rparr>)"
    using small_tx_ok by (simp add: tx_ok_def db_ok_def)
  moreover have "round_up_nat 168 8 = 168"
    by (simp add: round_up_nat_def)
  ultimately show ?thesis
    using allocate_after_commit_grows_store [of "small_tx\<lparr>tx_size := 104\<rparr>" 8 16]
    by (auto simp: small_tx_def is_power_of_two_def)
qed

end
