(* ===== verification/Hamt_Map.thy ===== *)
theory Hamt_Map
  imports Transaction
begin

unbundle bit_operations_syntax

text \<open>
  The index map \<^verbatim>\<open>hamt_map\<close> (\<^verbatim>\<open>include/pstore/core/hamt_map.hpp\<close>) and the parts of its nodes that
  use the store (\<^verbatim>\<open>lib/core/hamt_map_types.cpp\<close>). The class template's arguments are a parameter
  of the operations: the hash function, and the serializer of the key and value types, as
  the sequence of values that writing a pair puts into the archive and the functions that read a
  key or a pair back. Keys are compared with equality. So is the global \<^verbatim>\<open>operator new\<close>, and what
  the machine makes of a shift by at least 64 bits, which C++ leaves undefined and which
  \<^verbatim>\<open>insert_node\<close> evaluates at the deepest level.
\<close>

record ('k, 'v) params =
  p_hash :: "'k \<Rightarrow> u64"
  p_puts :: "'k \<Rightarrow> 'v \<Rightarrow> (u64 \<times> u8 list) list"
  p_key :: "database \<Rightarrow> address \<Rightarrow> exn + 'k"
  p_load :: "database \<Rightarrow> address \<Rightarrow> exn + 'k \<times> 'v"
  p_new :: allocator
  p_wide_shift :: "u64 \<Rightarrow> nat \<Rightarrow> u64"

lemma rbind_cong [fundef_cong]:
  "r = r' \<Longrightarrow> (\<And>x. r' = Inr x \<Longrightarrow> f x = f' x) \<Longrightarrow> rbind r f = rbind r' f'"
  by (auto simp: rbind_def split: sum.splits)

section \<open>Reading nodes\<close>

fun valid_children :: "address \<Rightarrow> index_pointer list \<Rightarrow> bool" where
  "valid_children addr [] = True"
| "valid_children addr (child # rest) =
     (if is_heap child \<or> addr \<le> untag_internal_address child then False
      else if child \<in> set rest then False
      else valid_children addr rest)"

definition validate_after_load :: "internal_node \<Rightarrow> address \<Rightarrow> bool" where
  "validate_after_load internal addr \<longleftrightarrow>
     (if i_signature internal \<noteq> internal_signature then False
      else valid_children addr (i_children internal))"

definition internal_read_node :: "'z database_scheme \<Rightarrow> address \<Rightarrow> exn + internal_node" where
  "internal_read_node s addr =
     rbind (getro s addr 16) (\<lambda>bs.
     let bitmap = le_word (take 8 (drop 8 bs)) :: u64 in
     if bitmap = 0 then Inl (Raise index_corrupt)
     else rbind (internal_size_bytes (pop_count bitmap)) (\<lambda>actual_size.
          rbind (rassert (16 < actual_size)) (\<lambda>_.
          rbind (getro s addr (of_nat actual_size)) (\<lambda>bs.
          let resl = internal_of_bytes bs in
          if \<not> validate_after_load resl addr then Inl (Raise index_corrupt) else Inr resl))))"

definition internal_get_node :: "'z database_scheme \<Rightarrow> index_pointer \<Rightarrow> exn + internal_node" where
  "internal_get_node s node =
     (if is_heap node then heap_internal (untag node) s
      else internal_read_node s (untag_internal_address node))"

definition linear_get_node :: "'z database_scheme \<Rightarrow> index_pointer \<Rightarrow> exn + linear_node" where
  "linear_get_node s node =
     (if is_heap node
      then rbind (heap_linear (untag node) s) (\<lambda>n.
           rbind (rassert (l_signature n = linear_signature)) (\<lambda>_. Inr n))
      else
        let addr = untag_internal_address node in
        rbind (getro_typed 8 s addr 24) (\<lambda>bs.
        let sz = le_word (take 8 (drop 8 bs)) :: u64; in_store_size = 16 + 8 * sz in
        rbind (getro s addr in_store_size) (\<lambda>bs.
        let ln = linear_of_bytes bs in
        if l_signature ln \<noteq> linear_signature then Inl (Raise index_corrupt)
        else if length (l_leaves ln) \<noteq> unat sz then Inl Undefined
        else Inr ln)))"

definition load_leaf_node :: "('k, 'v) params \<Rightarrow> 'z database_scheme \<Rightarrow> address \<Rightarrow> exn + 'k \<times> 'v" where
  "load_leaf_node P s addr = p_load P (database.truncate s) addr"

definition get_key :: "('k, 'v) params \<Rightarrow> 'z database_scheme \<Rightarrow> address \<Rightarrow> exn + 'k" where
  "get_key P s addr = p_key P (database.truncate s) addr"

fun linear_lookup_loop ::
  "('k, 'v) params \<Rightarrow> 'z database_scheme \<Rightarrow> 'k \<Rightarrow> u64 list \<Rightarrow> u64 \<Rightarrow> exn + index_pointer \<times> u64" where
  "linear_lookup_loop P s key [] cnum = Inr (0, not_found)"
| "linear_lookup_loop P s key (child # rest) cnum =
     rbind (get_key P s child) (\<lambda>existing_key.
     if existing_key = key then Inr (child, cnum)
     else linear_lookup_loop P s key rest (cnum + 1))"

definition linear_lookup ::
  "('k, 'v) params \<Rightarrow> 'z database_scheme \<Rightarrow> linear_node \<Rightarrow> 'k \<Rightarrow> exn + index_pointer \<times> u64" where
  "linear_lookup P s n key = linear_lookup_loop P s key (l_leaves n) 0"

section \<open>Inserting\<close>

definition store_leaf_node ::
  "('k, 'v) params \<Rightarrow> 'k \<Rightarrow> 'v \<Rightarrow> parent_stack \<Rightarrow> ('z transaction_scheme, address \<times> parent_stack) sx" where
  "store_leaf_node P k v parents =
     sbind (tx_allocate 0 4) (\<lambda>_.
     sbind (put_all tx_put (p_puts P k v)) (\<lambda>r.
     case r of
       None \<Rightarrow> sraise Undefined
     | Some result \<Rightarrow>
         sseq (sassert (result AND 3 = 0))
           (sbind (slift (push_parent result not_found parents)) (\<lambda>parents. sret (result, parents)))))"

definition delete_node :: "index_pointer \<Rightarrow> nat \<Rightarrow> ('z mem_scheme, unit) sx" where
  "delete_node node shifts =
     (if is_heap node
      then sseq (sassert (\<not> is_leaf node))
             (if depth_is_internal_node shifts
              then sbind (sread (heap_internal (untag node))) (\<lambda>_. heap_delete (untag node))
              else sbind (sread (heap_linear (untag node))) (\<lambda>_. heap_delete (untag node)))
      else sret ())"

function insert_into_leaf ::
  "('k, 'v) params \<Rightarrow> index_pointer \<Rightarrow> 'k \<Rightarrow> 'v \<Rightarrow> u64 \<Rightarrow> u64 \<Rightarrow> nat \<Rightarrow> parent_stack
    \<Rightarrow> ('z transaction_scheme, index_pointer \<times> parent_stack) sx" where
  "insert_into_leaf P existing_leaf k v existing_hash hash shifts parents =
     (if depth_is_internal_node shifts
      then
        let new_hash = hash AND hash_index_mask; old_hash = existing_hash AND hash_index_mask in
        if new_hash \<noteq> old_hash
        then
          sbind (store_leaf_node P k v parents) (\<lambda>(leaf_addr, parents).
          sbind (internal_allocate (p_new P) (internal_node2 existing_leaf leaf_addr old_hash new_hash)) (\<lambda>p.
          sbind (slift (push_parent (tag p) (get_new_index new_hash old_hash) parents)) (\<lambda>parents.
          sret (tag p, parents))))
        else
          sbind (insert_into_leaf P existing_leaf k v (drop_bit hash_index_bits existing_hash)
                   (drop_bit hash_index_bits hash) (shifts + hash_index_bits) parents) (\<lambda>(leaf_ptr, parents).
          sbind (internal_allocate (p_new P) (internal_node1 leaf_ptr old_hash)) (\<lambda>p.
          sbind (slift (push_parent (tag p) 0 parents)) (\<lambda>parents.
          sret (tag p, parents))))
      else
        sbind (store_leaf_node P k v parents) (\<lambda>(leaf_addr, parents).
        sbind (linear_allocate (p_new P) (linear_node2 existing_leaf leaf_addr)) (\<lambda>p.
        sbind (slift (push_parent (tag p) 1 parents)) (\<lambda>parents.
        sret (tag p, parents)))))"
  by pat_completeness auto
termination
  by (relation "measure (\<lambda>(P, e, k, v, eh, h, shifts, ps). max_hash_bits - shifts)")
    (auto simp: depth_is_internal_node_iff hamt_constants)

text \<open>
  \<^verbatim>\<open>insert_into_internal\<close>. It calls \<^verbatim>\<open>insert_node\<close>, which calls it: here \<open>rec\<close> is that call, with
  the child, the hash, the shifts and the parents as its arguments.
\<close>

definition insert_into_internal ::
  "('k, 'v) params \<Rightarrow> (index_pointer \<Rightarrow> u64 \<Rightarrow> parent_stack \<Rightarrow>
      ('z transaction_scheme, (index_pointer \<times> bool) \<times> parent_stack) sx)
    \<Rightarrow> index_pointer \<Rightarrow> 'k \<Rightarrow> 'v \<Rightarrow> u64 \<Rightarrow> nat \<Rightarrow> parent_stack
    \<Rightarrow> ('z transaction_scheme, (index_pointer \<times> bool) \<times> parent_stack) sx" where
  "insert_into_internal P rec node k v hash shifts parents =
     sbind (sread (\<lambda>s. internal_get_node s node)) (\<lambda>internal.
     sbind (slift (internal_lookup internal (hash AND hash_index_mask))) (\<lambda>(child_slot, index).
     if index = not_found
     then
       sbind (make_writable (p_new P) node internal) (\<lambda>(new_node, inode).
       with_unique_ptr new_node
         (sbind (store_leaf_node P k v parents) (\<lambda>(leaf, parents).
          sbind (sread (heap_internal inode)) (\<lambda>n.
          sbind (slift (internal_insert_child n hash leaf)) (\<lambda>(n, position).
          sseq (heap_put inode (Heap_internal n))
            (sbind (slift (push_parent (tag inode) (of_nat position) parents)) (\<lambda>parents.
             sret ((tag inode, False), parents))))))))
     else
       sbind (rec child_slot (drop_bit hash_index_bits hash) parents) (\<lambda>((new_child, key_exists), parents).
       sbind (if new_child \<noteq> child_slot
              then sbind (make_writable (p_new P) node internal) (\<lambda>(new_node, inode).
                   with_unique_ptr new_node
                     (sbind (sread (heap_internal inode)) (\<lambda>n.
                      sbind (slift (child_at n (unat index))) (\<lambda>child.
                      sseq (delete_node child (shifts + hash_index_bits))
                        (sseq (heap_put inode (Heap_internal (n\<lparr>i_children := (i_children n)[unat index := new_child]\<rparr>)))
                          (sret (new_node, tag inode)))))))
              else sret (None, node)) (\<lambda>(new_node, node).
       with_unique_ptr new_node
         (sbind (slift (push_parent node index parents)) (\<lambda>parents. sret ((node, key_exists), parents)))))))"

definition insert_into_linear ::
  "('k, 'v) params \<Rightarrow> index_pointer \<Rightarrow> 'k \<Rightarrow> 'v \<Rightarrow> parent_stack \<Rightarrow> bool
    \<Rightarrow> ('z transaction_scheme, (index_pointer \<times> bool) \<times> parent_stack) sx" where
  "insert_into_linear P node k v parents is_upsert =
     sbind (sread (\<lambda>s. linear_get_node s node)) (\<lambda>orig_node.
     sbind (sread (\<lambda>s. linear_lookup P s orig_node k)) (\<lambda>(child_slot, index).
     if index = not_found
     then
       sbind (linear_allocate (p_new P) (linear_allocate_node (length (l_leaves orig_node) + 1) orig_node)) (\<lambda>p.
       with_unique_ptr (Some p)
         (let index = length (l_leaves orig_node) in
          sbind (store_leaf_node P k v parents) (\<lambda>(leaf, parents).
          sbind (sread (heap_linear p)) (\<lambda>n.
          sbind (slift (linear_set n index leaf)) (\<lambda>n.
          sseq (heap_put p (Heap_linear n))
            (sbind (slift (push_parent (tag p) (of_nat index) parents)) (\<lambda>parents.
             sret ((tag p, False), parents))))))))
     else if is_upsert
     then
       sbind (if is_heap node then sret (None, untag node)
              else sbind (linear_allocate (p_new P) (linear_allocate_node (length (l_leaves orig_node)) orig_node))
                     (\<lambda>p. sret (Some p, p))) (\<lambda>(new_node, lnode).
       with_unique_ptr new_node
         (sbind (store_leaf_node P k v parents) (\<lambda>(leaf, parents).
          sbind (sread (heap_linear lnode)) (\<lambda>n.
          sbind (slift (linear_set n (unat index) leaf)) (\<lambda>n.
          sseq (heap_put lnode (Heap_linear n))
            (let result = (if is_heap node then node else tag lnode) in
             sbind (slift (push_parent result index parents)) (\<lambda>parents.
             sret ((result, True), parents))))))))
     else
       sbind (slift (leaf_at orig_node (unat index))) (\<lambda>leaf.
       sbind (slift (push_parent leaf not_found parents)) (\<lambda>parents.
       sbind (slift (push_parent node index parents)) (\<lambda>parents.
       sret ((node, True), parents))))))"

function insert_node ::
  "('k, 'v) params \<Rightarrow> index_pointer \<Rightarrow> 'k \<Rightarrow> 'v \<Rightarrow> u64 \<Rightarrow> nat \<Rightarrow> parent_stack \<Rightarrow> bool
    \<Rightarrow> ('z transaction_scheme, (index_pointer \<times> bool) \<times> parent_stack) sx" where
  "insert_node P node k v hash shifts parents is_upsert =
     (if is_leaf node
      then
        sbind (sread (\<lambda>s. get_key P s node)) (\<lambda>existing_key.
        if k = existing_key
        then
          if is_upsert
          then sbind (store_leaf_node P k v parents) (\<lambda>(result, parents). sret ((result, True), parents))
          else sbind (slift (push_parent node not_found parents)) (\<lambda>parents. sret ((node, True), parents))
        else
          let existing_hash = (if shifts < 64 then drop_bit shifts (p_hash P existing_key)
                               else p_wide_shift P (p_hash P existing_key) shifts) in
          sbind (insert_into_leaf P node k v existing_hash hash shifts parents) (\<lambda>(result, parents).
          sret ((result, False), parents)))
      else if depth_is_internal_node shifts
      then insert_into_internal P
             (\<lambda>child hash parents. insert_node P child k v hash (shifts + hash_index_bits) parents is_upsert)
             node k v hash shifts parents
      else insert_into_linear P node k v parents is_upsert)"
  by pat_completeness auto
termination
  by (relation "measure (\<lambda>(P, n, k, v, h, shifts, ps, u). max_hash_bits - shifts)")
    (auto simp: depth_is_internal_node_iff hamt_constants)

declare insert_into_leaf.simps [simp del] insert_node.simps [simp del]

definition hamt_empty :: "hamt \<Rightarrow> exn + bool" where
  "hamt_empty m =
     rbind (rassert (is_empty_pointer (hm_root m) = (hm_size m = 0))) (\<lambda>_. Inr (hm_size m = 0))"

fun reverse_parents :: "parent_stack \<Rightarrow> parent_stack \<Rightarrow> exn + parent_stack" where
  "reverse_parents [] parents = Inr parents"
| "reverse_parents (p # rest) parents =
     rbind (push_parent (pt_node p) (pt_position p) parents) (reverse_parents rest)"

definition insert_or_upsert ::
  "('k, 'v) params \<Rightarrow> hamt \<Rightarrow> 'k \<Rightarrow> 'v \<Rightarrow> bool \<Rightarrow> ('z transaction_scheme, hamt \<times> parent_stack \<times> bool) sx" where
  "insert_or_upsert P m k v is_upsert =
     sbind (sread get_current_revision) (\<lambda>revision.
     if hm_revision m \<noteq> revision then sraise (Raise index_not_latest_revision)
     else
       sbind (slift (hamt_empty m)) (\<lambda>e.
       if e
       then
         sbind (store_leaf_node P k v []) (\<lambda>(root, parents).
         sret (m\<lparr>hm_root := root, hm_size := 1\<rparr>, parents, True))
       else
         sbind (insert_node P (hm_root m) k v (p_hash P k) 0 [] is_upsert) (\<lambda>((root, key_exists), rparents).
         sbind (slift (reverse_parents rparents [])) (\<lambda>parents.
         sret (m\<lparr>hm_root := root, hm_size := (if key_exists then hm_size m else hm_size m + 1)\<rparr>,
               parents, \<not> key_exists)))))"

definition hamt_insert ::
  "('k, 'v) params \<Rightarrow> hamt \<Rightarrow> 'k \<Rightarrow> 'v \<Rightarrow> ('z transaction_scheme, hamt \<times> parent_stack \<times> bool) sx" where
  "hamt_insert P m k v = insert_or_upsert P m k v False"

definition hamt_insert_or_assign ::
  "('k, 'v) params \<Rightarrow> hamt \<Rightarrow> 'k \<Rightarrow> 'v \<Rightarrow> ('z transaction_scheme, hamt \<times> parent_stack \<times> bool) sx" where
  "hamt_insert_or_assign P m k v = insert_or_upsert P m k v True"

section \<open>Finding\<close>

function find_loop ::
  "('k, 'v) params \<Rightarrow> 'z database_scheme \<Rightarrow> 'k \<Rightarrow> index_pointer \<Rightarrow> u64 \<Rightarrow> nat \<Rightarrow> parent_stack
    \<Rightarrow> exn + parent_stack option" where
  "find_loop P s key node hash bit_shifts parents =
     (if is_leaf node
      then
        rbind (get_key P s node) (\<lambda>existing_key.
        if existing_key = key
        then rbind (push_parent node not_found parents) (\<lambda>parents. Inr (Some parents))
        else Inr None)
      else
        rbind (if depth_is_internal_node bit_shifts
               then rbind (internal_get_node s node) (\<lambda>internal. internal_lookup internal (hash AND hash_index_mask))
               else rbind (linear_get_node s node) (\<lambda>linear. linear_lookup P s linear key)) (\<lambda>(child_node, index).
        if index = not_found then Inr None
        else
          rbind (push_parent node index parents) (\<lambda>parents.
          find_loop P s key child_node (drop_bit hash_index_bits hash) (bit_shifts + hash_index_bits) parents)))"
  by pat_completeness auto
termination
  by (relation "measure (\<lambda>(P, s, k, n, h, b, ps). max_tree_depth - length ps)")
    (auto simp: push_parent_def split: if_splits)

text \<open>An iterator is its parent stack; the end iterator's is empty.\<close>

definition find :: "('k, 'v) params \<Rightarrow> 'z database_scheme \<Rightarrow> hamt \<Rightarrow> 'k \<Rightarrow> exn + parent_stack" where
  "find P s m key =
     rbind (hamt_empty m) (\<lambda>e.
     if e then Inr []
     else rbind (find_loop P s key (hm_root m) (p_hash P key) 0 []) (\<lambda>r.
          Inr (case r of None \<Rightarrow> [] | Some parents \<Rightarrow> parents)))"

section \<open>Iterating\<close>

function move_to_left_most_child ::
  "'z database_scheme \<Rightarrow> index_pointer \<Rightarrow> parent_stack \<Rightarrow> exn + parent_stack" where
  "move_to_left_most_child s node visited =
     (if is_leaf node then push_parent node not_found visited
      else
        rbind (push_parent node 0 visited) (\<lambda>visited.
        rbind (if length visited \<le> max_internal_depth
               then rbind (internal_get_node s node) (\<lambda>internal. child_at internal 0)
               else rbind (linear_get_node s node) (\<lambda>linear. leaf_at linear 0)) (\<lambda>node.
        move_to_left_most_child s node visited)))"
  by pat_completeness auto
termination
  by (relation "measure (\<lambda>(s, n, ps). max_tree_depth - length ps)")
    (auto simp: push_parent_def split: if_splits)

declare find_loop.simps [simp del] move_to_left_most_child.simps [simp del]

definition get_shift_bits :: "parent_stack \<Rightarrow> nat" where
  "get_shift_bits visited = (length visited - 1) * hash_index_bits"

fun increment_internal_node :: "'z database_scheme \<Rightarrow> parent_stack \<Rightarrow> exn + parent_stack" where
  "increment_internal_node s [] = Inl Assertion"
| "increment_internal_node s [_] = Inr []"
| "increment_internal_node s (_ # p # rest) =
     (let shifts = get_shift_bits (p # rest); is_internal_node = depth_is_internal_node shifts in
      rbind (if is_internal_node
             then rbind (internal_get_node s (pt_node p)) (\<lambda>internal.
                  rbind (internal_size internal) (\<lambda>size. Inr (Inl internal, size)))
             else rbind (linear_get_node s (pt_node p)) (\<lambda>linear. Inr (Inr linear, length (l_leaves linear))))
        (\<lambda>(n, size).
      rbind (rassert (\<not> is_leaf (pt_node p) \<and> unat (pt_position p) < size)) (\<lambda>_.
      let position = pt_position p + 1 in
      if size \<le> unat position then increment_internal_node s (p # rest)
      else
        let visited = p\<lparr>pt_position := position\<rparr> # rest in
        case n of
          Inl internal \<Rightarrow>
            rbind (child_at internal (unat position)) (\<lambda>child.
            if is_internal child then move_to_left_most_child s child visited
            else push_parent child not_found visited)
        | Inr linear \<Rightarrow>
            rbind (leaf_at linear (unat position)) (\<lambda>leaf. push_parent leaf not_found visited))))"

definition iterator_increment :: "'z database_scheme \<Rightarrow> parent_stack \<Rightarrow> exn + parent_stack" where
  "iterator_increment s visited =
     rbind (rassert (visited \<noteq> [])) (\<lambda>_. increment_internal_node s visited)"

definition get_address :: "parent_stack \<Rightarrow> exn + address" where
  "get_address visited =
     (case visited of
        [] \<Rightarrow> Inl Assertion
      | p # _ \<Rightarrow> rbind (rassert (is_leaf (pt_node p) \<and> pt_position p = not_found)) (\<lambda>_. Inr (pt_node p)))"

definition dereference :: "('k, 'v) params \<Rightarrow> 'z database_scheme \<Rightarrow> parent_stack \<Rightarrow> exn + 'k \<times> 'v" where
  "dereference P s visited = rbind (get_address visited) (load_leaf_node P s)"

definition make_begin_iterator :: "'z database_scheme \<Rightarrow> hamt \<Rightarrow> exn + parent_stack" where
  "make_begin_iterator s m =
     (if hm_root m \<noteq> 0 then move_to_left_most_child s (hm_root m) [] else Inr [])"

definition make_end_iterator :: "hamt \<Rightarrow> parent_stack" where
  "make_end_iterator m = []"

section \<open>Flushing, loading and clearing\<close>

definition linear_flush :: "linear_node \<Rightarrow> ('z transaction_scheme, address) sx" where
  "linear_flush n =
     sbind (tx_alloc_rw (of_nat (linear_size_bytes (length (l_leaves n)))) 8) (\<lambda>(ptr, result).
     sseq (store ptr (linear_bytes (linear_node_copy n))) (sret result))"

definition store_node :: "internal_node \<Rightarrow> ('z transaction_scheme, address) sx" where
  "store_node n =
     sbind (slift (internal_size n)) (\<lambda>size.
     sbind (slift (internal_size_bytes size)) (\<lambda>num_bytes.
     sbind (tx_alloc_rw (of_nat num_bytes) 8) (\<lambda>(ptr, result).
     sseq (store ptr (internal_bytes (internal_node_copy n))) (sret result))))"

text \<open>
  The loop of \<^verbatim>\<open>internal_node::flush\<close> over the children of the node at \<open>self\<close>; \<open>rec\<close> is its
  recursive call.
\<close>

fun flush_children ::
  "(u64 \<Rightarrow> ('z transaction_scheme, address) sx) \<Rightarrow> u64 \<Rightarrow> nat \<Rightarrow> nat list \<Rightarrow> ('z transaction_scheme, unit) sx" where
  "flush_children rec self shifts [] = sret ()"
| "flush_children rec self shifts (i # is) =
     sbind (sread (heap_internal self)) (\<lambda>n.
     sbind (slift (child_at n i)) (\<lambda>p.
     sseq (if is_heap p
           then
             if shifts < max_hash_bits
             then
               sseq (sassert (is_internal p))
                 (sbind (rec (untag p)) (\<lambda>a.
                  sbind (sread (heap_internal self)) (\<lambda>n.
                  sseq (heap_put self (Heap_internal (n\<lparr>i_children := (i_children n)[i := a]\<rparr>)))
                    (heap_delete (untag p)))))
             else
               sseq (sassert (is_linear p))
                 (sbind (sread (heap_linear (untag p))) (\<lambda>linear.
                  sbind (linear_flush linear) (\<lambda>a.
                  sbind (sread (heap_internal self)) (\<lambda>n.
                  sseq (heap_put self (Heap_internal (n\<lparr>i_children := (i_children n)[i := a OR internal_node_bit]\<rparr>)))
                    (heap_delete (untag p))))))
           else sret ())
       (flush_children rec self shifts is)))"

function internal_flush :: "nat \<Rightarrow> u64 \<Rightarrow> ('z transaction_scheme, address) sx" where
  "internal_flush shifts self =
     (let shifts = shifts + hash_index_bits in
      sbind (sread (heap_internal self)) (\<lambda>n.
      sbind (slift (internal_size n)) (\<lambda>size.
      sseq (flush_children
              (\<lambda>p. if shifts < max_hash_bits then internal_flush shifts p else sraise Undefined)
              self shifts [0..<size])
        (sbind (sread (heap_internal self)) (\<lambda>n.
         sbind (store_node n) (\<lambda>a. sret (a OR internal_node_bit)))))))"
  by pat_completeness auto
termination
  by (relation "measure (\<lambda>(shifts, p). max_hash_bits - shifts)")
    (auto simp: hamt_constants)

function hamt_clear_node :: "index_pointer \<Rightarrow> nat \<Rightarrow> ('z mem_scheme, unit) sx" where
  "hamt_clear_node node shifts =
     sseq (sassert (is_heap node \<and> \<not> is_leaf node))
       (sseq (if depth_is_internal_node shifts
              then sbind (sread (heap_internal (untag node))) (\<lambda>internal.
                   foldr (\<lambda>p m. sseq (if is_heap p then hamt_clear_node p (shifts + hash_index_bits) else sret ()) m)
                     (i_children internal) (sret ()))
              else sret ())
         (delete_node node shifts))"
  by pat_completeness auto
termination
  by (relation "measure (\<lambda>(n, shifts). max_hash_bits - shifts)")
    (auto simp: depth_is_internal_node_iff hamt_constants)

declare internal_flush.simps [simp del] hamt_clear_node.simps [simp del]

definition hamt_clear :: "hamt \<Rightarrow> ('z mem_scheme, hamt) sx" where
  "hamt_clear m =
     (if is_heap (hm_root m)
      then sseq (hamt_clear_node (hm_root m) 0) (sret (m\<lparr>hm_root := 0\<rparr>))
      else sret m)"

definition hamt_flush :: "hamt \<Rightarrow> u32 \<Rightarrow> ('z transaction_scheme, hamt \<times> address) sx" where
  "hamt_flush m generation =
     sbind (sread get_current_revision) (\<lambda>revision.
     if hm_revision m \<noteq> revision then sraise (Raise index_not_latest_revision)
     else
       sbind (if \<not> is_address (hm_root m)
              then sseq (sassert (is_internal (hm_root m)))
                     (sbind (internal_flush 0 (untag (hm_root m))) (\<lambda>root.
                      sseq (heap_delete (untag (hm_root m))) (sret root)))
              else sret (hm_root m)) (\<lambda>root.
       sbind (tx_alloc_rw 24 8) (\<lambda>(ptr, pos).
       sseq (store ptr (header_block_bytes
               \<lparr>hb_signature = index_signature, hb_size = hm_size m, hb_root = root\<rparr>))
         (sret (m\<lparr>hm_root := root, hm_revision := generation\<rparr>, pos)))))"

text \<open>The constructor: an empty map, or the one whose header block is at \<open>pos\<close>.\<close>

definition hamt_init :: "'z database_scheme \<Rightarrow> address \<Rightarrow> exn + hamt" where
  "hamt_init s pos =
     rbind (get_current_revision s) (\<lambda>revision.
     if pos = 0 then Inr \<lparr>hm_revision = revision, hm_root = 0, hm_size = 0\<rparr>
     else
       rbind (getro_typed 8 s pos 24) (\<lambda>bs.
       let hb = header_block_of_bytes bs; root = hb_root hb in
       if hb_signature hb \<noteq> index_signature then Inl (Raise index_corrupt)
       else if is_heap root \<or> (hb_size hb = 0 \<and> \<not> is_empty_pointer root)
               \<or> (0 < hb_size hb \<and> is_empty_pointer root)
               \<or> (hb_size hb = 1 \<and> \<not> is_leaf root) \<or> (1 < hb_size hb \<and> \<not> is_internal root)
       then Inl (Raise index_corrupt)
       else Inr \<lparr>hm_revision = revision, hm_root = root, hm_size = hb_size hb\<rparr>))"

end
