(* ===== verification/Hamt_Repr.thy ===== *)
theory Hamt_Repr
  imports Hamt_Map
begin

unbundle bit_operations_syntax

text \<open>
  What it means for an index pointer to represent a tree of entries: a trie as a value
  (\<open>tree\<close>), the predicate that relates it to the heap and the file (\<open>repr\<close>), what a change of the
  state must leave alone for the relation to be kept, and how the nodes of a represented tree are
  read.
\<close>

section \<open>Lists\<close>

lemma distinct_concat_nth:
  assumes "\<And>xs. xs \<in> set xss \<Longrightarrow> distinct xs"
    and "\<And>i j. i < length xss \<Longrightarrow> j < length xss \<Longrightarrow> i \<noteq> j \<Longrightarrow> set (xss ! i) \<inter> set (xss ! j) = {}"
  shows "distinct (concat xss)"
  using assms
proof (induction xss)
  case (Cons xs xss)
  have "distinct (concat xss)"
  proof (rule Cons.IH)
    show "set (xss ! i) \<inter> set (xss ! j) = {}" if "i < length xss" "j < length xss" "i \<noteq> j" for i j
      using Cons.prems(2) [of "Suc i" "Suc j"] that by simp
  qed (use Cons.prems(1) in simp)
  moreover have "set xs \<inter> set ys = {}" if "ys \<in> set xss" for ys
  proof -
    obtain j where "j < length xss" "xss ! j = ys"
      using \<open>ys \<in> set xss\<close> by (auto simp: in_set_conv_nth)
    then show ?thesis
      using Cons.prems(2) [of 0 "Suc j"] by simp
  qed
  ultimately show ?case
    using Cons.prems(1) by auto
qed simp

section \<open>Trees\<close>

datatype ('k, 'v) tree =
    Leaf u64 'k 'v
  | Inode index_pointer u64 "('k, 'v) tree list"
  | Lnode index_pointer "(u64 \<times> 'k \<times> 'v) list"

primrec tptr :: "('k, 'v) tree \<Rightarrow> index_pointer" where
  "tptr (Leaf a k v) = a"
| "tptr (Inode p b ts) = p"
| "tptr (Lnode p es) = p"

fun entries :: "('k, 'v) tree \<Rightarrow> (u64 \<times> 'k \<times> 'v) list" where
  "entries (Leaf a k v) = [(a, k, v)]"
| "entries (Inode p b ts) = concat (map entries ts)"
| "entries (Lnode p es) = es"

definition ekey :: "u64 \<times> 'k \<times> 'v \<Rightarrow> 'k" where
  "ekey e = fst (snd e)"

abbreviation keys :: "('k, 'v) tree \<Rightarrow> 'k list" where
  "keys t \<equiv> map ekey (entries t)"

text \<open>The addresses of a tree's nodes on the heap.\<close>

definition roots :: "index_pointer \<Rightarrow> u64 list" where
  "roots p = (if is_heap p then [untag p] else [])"

fun hptrs :: "('k, 'v) tree \<Rightarrow> u64 list" where
  "hptrs (Leaf a k v) = []"
| "hptrs (Inode p b ts) = roots p @ concat (map hptrs ts)"
| "hptrs (Lnode p es) = roots p"

text \<open>
  The paths from the root of a tree to its entries, in the order of iteration: what a parent
  stack holds, with the root first.
\<close>

fun paths :: "('k, 'v) tree \<Rightarrow> (parent_type list \<times> u64 \<times> 'k \<times> 'v) list" where
  "paths (Leaf a k v) = [([parent a not_found], (a, k, v))]"
| "paths (Inode p b ts) =
     concat (map (\<lambda>(i, ps). map (\<lambda>(qs, e). (parent p (of_nat i) # qs, e)) ps) (enumerate 0 (map paths ts)))"
| "paths (Lnode p es) = map (\<lambda>(i, e). ([parent p (of_nat i), parent (fst e) not_found], e)) (enumerate 0 es)"

lemma ekey_simp [simp]: "ekey (a, k, v) = k"
  by (simp add: ekey_def)

section \<open>Representation\<close>

definition on_disk :: "'z database_scheme \<Rightarrow> u64 \<Rightarrow> u8 list \<Rightarrow> bool" where
  "on_disk s a bs \<longleftrightarrow> 64 \<le> unat a \<and> unat a + length bs \<le> unat (db_logical_size s)
     \<and> map (db_memory s) [unat a..<unat a + length bs] = bs"

definition leaf_ok :: "('k, 'v) params \<Rightarrow> 'z database_scheme \<Rightarrow> u64 \<times> 'k \<times> 'v \<Rightarrow> bool" where
  "leaf_ok P s e = (case e of (a, k, v) \<Rightarrow>
     a AND 3 = 0 \<and> 64 \<le> unat a \<and> laid_out (db_memory s) (unat a) (p_puts P k v)
     \<and> layout_end (unat a) (p_puts P k v) \<le> unat (db_logical_size s))"

abbreviation inode :: "u64 \<Rightarrow> index_pointer list \<Rightarrow> internal_node" where
  "inode b cs \<equiv> \<lparr>i_signature = internal_signature, i_bitmap = b, i_children = cs\<rparr>"

abbreviation lnode :: "u64 list \<Rightarrow> linear_node" where
  "lnode as \<equiv> \<lparr>l_signature = linear_signature, l_leaves = as\<rparr>"

definition internal_ok :: "'z database_scheme \<Rightarrow> index_pointer \<Rightarrow> u64 \<Rightarrow> index_pointer list \<Rightarrow> bool" where
  "internal_ok s p b cs \<longleftrightarrow> is_internal p
     \<and> (if is_heap p then heap s (untag p) = Some (Heap_internal (inode b cs))
        else on_disk s (untag_internal_address p) (internal_bytes (inode b cs))
             \<and> valid_children (untag_internal_address p) cs)"

definition linear_ok :: "'z database_scheme \<Rightarrow> index_pointer \<Rightarrow> u64 list \<Rightarrow> bool" where
  "linear_ok s p as \<longleftrightarrow> is_internal p
     \<and> (if is_heap p then heap s (untag p) = Some (Heap_linear (lnode as))
        else on_disk s (untag_internal_address p) (linear_bytes (lnode as))
             \<and> untag_internal_address p mod 8 = 0)"

text \<open>The part of a hash that selects the child of a node at depth \<open>d\<close>.\<close>

definition hslice :: "nat \<Rightarrow> u64 \<Rightarrow> nat" where
  "hslice d h = unat (drop_bit d h AND hash_index_mask)"

fun repr :: "('k, 'v) params \<Rightarrow> 'z database_scheme \<Rightarrow> nat \<Rightarrow> ('k, 'v) tree \<Rightarrow> bool" where
  "repr P s d (Leaf a k v) = leaf_ok P s (a, k, v)"
| "repr P s d (Inode p b ts) =
     (d < 66 \<and> b \<noteq> 0 \<and> length ts = pop_count b \<and> internal_ok s p b (map tptr ts)
      \<and> (\<forall>i < length ts. \<forall>k \<in> set (keys (ts ! i)). hslice d (p_hash P k) = positions b ! i)
      \<and> (\<forall>t \<in> set ts. repr P s (d + 6) t))"
| "repr P s d (Lnode p es) =
     (d = 66 \<and> es \<noteq> [] \<and> linear_ok s p (map fst es) \<and> distinct (map ekey es)
      \<and> (\<forall>e \<in> set es. leaf_ok P s e))"

text \<open>
  What the map relies on: the serializer reads back what it wrote, a serialized pair is not
  empty, and \<^verbatim>\<open>operator new\<close> returns new blocks.
\<close>

definition codec_ok :: "('k, 'v) params \<Rightarrow> bool" where
  "codec_ok P \<longleftrightarrow>
     (\<forall>k v. p_puts P k v \<noteq> [] \<and> (\<forall>(al, bs) \<in> set (p_puts P k v). is_power_of_two al)
        \<and> (\<exists>(al, bs) \<in> set (p_puts P k v). bs \<noteq> []))
     \<and> (\<forall>k v s a. db_ok s \<longrightarrow> \<not> db_closed s \<longrightarrow> laid_out (db_memory s) (unat a) (p_puts P k v) \<longrightarrow>
          layout_end (unat a) (p_puts P k v) \<le> unat (db_logical_size s) \<longrightarrow>
          p_load P s a = Inr (k, v) \<and> p_key P s a = Inr k)"

locale index_params =
  fixes P :: "('k, 'v) params"
  assumes codec: "codec_ok P" and new_ok: "allocator_ok (p_new P)"

section \<open>Keeping the representation\<close>

text \<open>The file was only appended to (its leader aside).\<close>

definition later :: "'z database_scheme \<Rightarrow> 'y database_scheme \<Rightarrow> bool" where
  "later s s' \<longleftrightarrow> unat (db_logical_size s) \<le> unat (db_logical_size s')
     \<and> (\<forall>i. 64 \<le> i \<longrightarrow> i < unat (db_logical_size s) \<longrightarrow> db_memory s' i = db_memory s i)"

lemma later_refl: "later s s"
  by (simp add: later_def)

lemma later_trans: "later s t \<Longrightarrow> later t u \<Longrightarrow> later s u"
  by (simp add: later_def)

lemma later_same: "db_logical_size s' = db_logical_size s \<Longrightarrow> db_memory s' = db_memory s \<Longrightarrow> later s s'"
  by (simp add: later_def)

lemma on_disk_later: "later s s' \<Longrightarrow> on_disk s a bs \<Longrightarrow> on_disk s' a bs"
proof -
  assume "later s s'" and d: "on_disk s a bs"
  moreover from this have "map (db_memory s') [unat a..<unat a + length bs] = map (db_memory s) [unat a..<unat a + length bs]"
    by (intro map_cong) (auto simp: later_def on_disk_def)
  ultimately show ?thesis
    by (auto simp: on_disk_def later_def simp del: map_eq_conv)
qed

lemma internal_ok_later:
  assumes "later s s'" and "is_heap p \<Longrightarrow> heap s' (untag p) = heap s (untag p)" and "internal_ok s p b cs"
  shows "internal_ok s' p b cs"
  using assms on_disk_later [OF assms(1)] by (auto simp: internal_ok_def)

lemma linear_ok_later:
  assumes "later s s'" and "is_heap p \<Longrightarrow> heap s' (untag p) = heap s (untag p)" and "linear_ok s p as"
  shows "linear_ok s' p as"
  using assms on_disk_later [OF assms(1)] by (auto simp: linear_ok_def)

context index_params
begin

lemma puts_ok:
  "p_puts P k v \<noteq> []" "\<forall>(al, bs) \<in> set (p_puts P k v). is_power_of_two al"
  using codec by (auto simp: codec_ok_def)

lemma layout_end_less: "p < layout_end p (p_puts P k v)"
proof -
  have "\<exists>(al, bs) \<in> set xs. bs \<noteq> [] \<Longrightarrow> \<forall>(al, bs) \<in> set xs. is_power_of_two al \<Longrightarrow> p < layout_end p xs"
    for xs :: "(u64 \<times> u8 list) list" and p
  proof (induction xs arbitrary: p)
    case (Cons x xs)
    obtain al bs where x: "x = (al, bs)" by force
    have r: "p \<le> round_up_nat p (unat al)"
      using Cons.prems(2) round_up_nat_spec(1) [of "unat al" p] by (simp add: x power_of_two_pos)
    have pow: "\<forall>(al, bs) \<in> set xs. is_power_of_two al"
      using Cons.prems(2) by simp
    show ?case
    proof (cases "bs = []")
      case True
      then show ?thesis
        using Cons.IH [OF _ pow, of "round_up_nat p (unat al)"] Cons.prems(1) r by (fastforce simp: x)
    next
      case False
      then show ?thesis
        using layout_end_bounds(1) [OF pow, of "round_up_nat p (unat al) + length bs"] r
        by (cases bs) (simp_all add: x)
    qed
  qed simp
  then show ?thesis
    using codec by (auto simp: codec_ok_def)
qed

lemma leaf_ok_later: "later s s' \<Longrightarrow> leaf_ok P s e \<Longrightarrow> leaf_ok P s' e"
proof -
  assume l: "later s s'" and e: "leaf_ok P s e"
  obtain a k v where x: "e = (a, k, v)" by (cases e)
  have "laid_out (db_memory s') (unat a) (p_puts P k v) \<longleftrightarrow> laid_out (db_memory s) (unat a) (p_puts P k v)"
    using l e by (intro laid_out_cong puts_ok) (auto simp: later_def leaf_ok_def x)
  then show ?thesis
    using l e by (auto simp: leaf_ok_def later_def x)
qed

lemma leaf_ok_less: "leaf_ok P s (a, k, v) \<Longrightarrow> unat a < unat (db_logical_size s)"
  using layout_end_less [of "unat a" k v] by (simp add: leaf_ok_def)

lemma roots_heap: "q \<in> set (roots p) \<longleftrightarrow> is_heap p \<and> q = untag p"
  by (auto simp: roots_def)

lemma repr_later:
  assumes "later s s'" and "\<And>q. q \<in> set (hptrs t) \<Longrightarrow> heap s' q = heap s q" and "repr P s d t"
  shows "repr P s' d t"
  using assms(2,3)
proof (induction t arbitrary: d)
  case (Leaf a k v)
  then show ?case
    using leaf_ok_later [OF assms(1)] by simp
next
  case (Inode p b ts)
  have "internal_ok s' p b (map tptr ts)"
    using Inode.prems by (intro internal_ok_later [OF assms(1)]) (auto simp: roots_def)
  moreover have "repr P s' (d + 6) t" if "t \<in> set ts" for t
    using that Inode.prems by (intro Inode.IH) auto
  ultimately show ?case
    using Inode.prems(2) by auto
next
  case (Lnode p es)
  have "linear_ok s' p (map fst es)"
    using Lnode.prems by (intro linear_ok_later [OF assms(1)]) (auto simp: roots_def)
  then show ?case
    using Lnode.prems(2) leaf_ok_later [OF assms(1)] by auto
qed

lemma repr_leaf_pointer: "repr P s d t \<Longrightarrow> is_leaf (tptr t) \<longleftrightarrow> (\<exists>a k v. t = Leaf a k v)"
  by (cases t) (auto simp: leaf_ok_def and_3_bits internal_ok_def linear_ok_def is_leaf_bit is_internal_bit)

lemma repr_keys_distinct: "repr P s d t \<Longrightarrow> distinct (keys t)"
proof (induction t arbitrary: d)
  case (Inode p b ts)
  have sub: "distinct (keys t)" if "t \<in> set ts" for t
    using that Inode by auto
  have sep: "set (keys (ts ! i)) \<inter> set (keys (ts ! j)) = {}" if "i < length ts" "j < length ts" "i \<noteq> j" for i j
  proof -
    have "positions b ! i \<noteq> positions b ! j"
      using that Inode.prems by (simp add: nth_eq_iff_index_eq pop_count_def)
    moreover have "hslice d (p_hash P k) = positions b ! i" if "k \<in> set (keys (ts ! i))" for k
      using that \<open>i < length ts\<close> Inode.prems by auto
    moreover have "hslice d (p_hash P k) = positions b ! j" if "k \<in> set (keys (ts ! j))" for k
      using that \<open>j < length ts\<close> Inode.prems by auto
    ultimately show ?thesis
      by (metis disjoint_iff)
  qed
  have "distinct (concat (map keys ts))"
  proof (rule distinct_concat_nth)
    show "distinct xs" if "xs \<in> set (map keys ts)" for xs
      using that sub by auto
    show "set (map keys ts ! i) \<inter> set (map keys ts ! j) = {}"
      if "i < length (map keys ts)" "j < length (map keys ts)" "i \<noteq> j" for i j
      using that sep by simp
  qed
  then show ?case
    by (simp add: map_concat comp_def)
qed auto

subsection \<open>Shape\<close>

lemma repr_entries_nonempty: "repr P s d t \<Longrightarrow> entries t \<noteq> []"
proof (induction t arbitrary: d)
  case (Inode p b ts)
  then have "length ts \<noteq> 0"
    by (auto simp: pop_count_0_iff)
  then obtain t ts' where "ts = t # ts'"
    by (cases ts) auto
  then show ?case
    using Inode by auto
qed auto

lemma repr_hptrs_dom: "repr P s d t \<Longrightarrow> q \<in> set (hptrs t) \<Longrightarrow> heap s q \<noteq> None"
proof (induction t arbitrary: d)
  case (Inode p b ts)
  then show ?case
    by (auto simp: roots_heap internal_ok_def)
qed (auto simp: roots_heap linear_ok_def)

lemma valid_children_not_heap: "valid_children addr cs \<Longrightarrow> c \<in> set cs \<Longrightarrow> \<not> is_heap c"
  by (induction cs) (auto split: if_splits)

lemma repr_stored: "repr P s d t \<Longrightarrow> \<not> is_heap (tptr t) \<Longrightarrow> hptrs t = []"
proof (induction t arbitrary: d)
  case (Inode p b ts)
  then have "valid_children (untag_internal_address p) (map tptr ts)"
    by (auto simp: internal_ok_def)
  then have "\<not> is_heap (tptr t)" if "t \<in> set ts" for t
    using that valid_children_not_heap by fastforce
  then show ?case
    using Inode by (auto simp: roots_def)
qed (auto simp: roots_def)

lemma repr_depth: "repr P s d t \<Longrightarrow> 6 dvd d \<Longrightarrow> (qs, e) \<in> set (paths t) \<Longrightarrow> d \<le> 66 \<Longrightarrow> length qs \<le> (66 - d) div 6 + 2"
proof (induction t arbitrary: d qs)
  case (Inode p b ts)
  from Inode.prems(3) obtain i rs where i: "i < length ts" and rs: "(rs, e) \<in> set (paths (ts ! i))"
    and qs: "qs = parent p (of_nat i) # rs"
    by (auto simp: in_set_enumerate_eq)
  have d: "d \<le> 60"
    using Inode.prems(1,2) by (auto elim!: dvdE)
  have "length rs \<le> (66 - (d + 6)) div 6 + 2"
    using Inode.IH [of "ts ! i" "d + 6" rs] Inode.prems(1,2) i rs d by auto
  moreover have "(66 - d) div 6 = (66 - (d + 6)) div 6 + 1"
    using d by (simp add: div_add_self2 [symmetric])
  ultimately show ?case
    by (simp add: qs)
qed auto

end

lemma snd_paths: "map snd (paths t) = entries t"
proof (induction t)
  case (Inode p b ts)
  have "map snd (concat (map (\<lambda>(i, ps). map (\<lambda>(qs, e). (parent p (of_nat i) # qs, e)) ps)
      (enumerate n (map paths ts)))) = concat (map entries ts)" for n
    using Inode
  proof (induction ts arbitrary: n)
    case (Cons t ts)
    have "map (snd \<circ> (\<lambda>(qs, e). (parent p (of_nat n) # qs, e))) (paths t) = entries t"
      using Cons.prems [of t] by (simp add: comp_def case_prod_beta)
    moreover have "map snd (concat (map (\<lambda>(i, ps). map (\<lambda>(qs, e). (parent p (of_nat i) # qs, e)) ps)
      (enumerate (Suc n) (map paths ts)))) = concat (map entries ts)"
      using Cons.prems by (intro Cons.IH) simp
    ultimately show ?case
      by simp
  qed simp
  then show ?case
    by simp
next
  case (Lnode p es)
  have "map snd (map (\<lambda>(i, e). ([parent p (of_nat i), parent (fst e) not_found], e)) (enumerate n es)) = es" for n
    by (induction es arbitrary: n) simp_all
  then show ?case
    by simp
qed simp

lemma paths_Inode:
  "(qs, e) \<in> set (paths (Inode p b ts)) \<longleftrightarrow>
     (\<exists>i rs. i < length ts \<and> qs = parent p (of_nat i) # rs \<and> (rs, e) \<in> set (paths (ts ! i)))"
  by (force simp: in_set_enumerate_eq)

lemma paths_Lnode:
  "(qs, e) \<in> set (paths (Lnode p es)) \<longleftrightarrow>
     (\<exists>i < length es. qs = [parent p (of_nat i), parent (fst e) not_found] \<and> e = es ! i)"
  by (force simp: in_set_enumerate_eq)

declare paths.simps(2,3) [simp del]

section \<open>Reading\<close>

lemma db_ok_truncate [simp]: "db_ok (database.truncate s) = db_ok s"
  by (simp add: db_ok_def database.truncate_def)

lemma truncate_fields [simp]:
  "db_closed (database.truncate s) = db_closed s" "db_memory (database.truncate s) = db_memory s"
  "db_logical_size (database.truncate s) = db_logical_size s"
  by (simp_all add: database.truncate_def)

lemma getro_on_disk:
  assumes "db_ok s" and "\<not> db_closed s" and "on_disk s a bs" and "unat sz \<le> length bs"
  shows "getro s a sz = Inr (take (unat sz) bs)"
proof -
  have "file_bytes s (unat a) (unat sz) = take (unat sz) (map (db_memory s) [unat a..<unat a + length bs])"
    using assms(4) by (simp add: file_bytes_def take_map)
  then show ?thesis
    using assms by (simp add: getro_ok on_disk_def)
qed

lemma mult_8_no_wrap: "unat (16 + 8 * sz :: u64) = 16 + 8 * n" if "unat sz = n" "16 + 8 * n < 2 ^ 64"
proof -
  have "unat (8 * sz) = 8 * n"
    using that by (simp add: unat_word_ariths)
  then show ?thesis
    using that by (subst unat_plus_no_wrap) simp_all
qed

lemma on_disk_small: "on_disk s a bs \<Longrightarrow> length bs < 2 ^ 64"
  using unsigned_less [of "db_logical_size s", where 'a = nat] by (auto simp: on_disk_def)

lemma internal_read_node_ok:
  assumes "db_ok s" and "\<not> db_closed s" and d: "on_disk s a (internal_bytes (inode b cs))"
    and v: "valid_children a cs" and b: "b \<noteq> 0" and len: "length cs = pop_count b"
  shows "internal_read_node s a = Inr (inode b cs)"
proof -
  let ?bs = "internal_bytes (inode b cs)"
  have l: "length ?bs = 16 + 8 * pop_count b"
    using len by (simp add: length_internal_bytes)
  have pc: "0 < pop_count b" "pop_count b \<le> 64"
    using b pop_count_le [of b] pop_count_0_iff [of b] by simp_all
  have sz: "unat (of_nat (16 + 8 * pop_count b) :: u64) = 16 + 8 * pop_count b"
    using pc by (simp only: unsigned_of_nat) (simp add: take_bit_nat_eq_self)
  have "le_word (take 8 (drop 8 (take 16 ?bs))) = b"
    by (simp add: internal_bytes_def take_drop)
  moreover have "getro s a 16 = Inr (take 16 ?bs)"
    using getro_on_disk [OF assms(1-3), of 16] l by simp
  moreover have "getro s a (of_nat (16 + 8 * pop_count b)) = Inr ?bs"
    using getro_on_disk [OF assms(1-3), of "of_nat (16 + 8 * pop_count b)"] l sz by simp
  moreover have "internal_of_bytes ?bs = inode b cs"
    by (simp add: internal_of_internal_bytes)
  ultimately show ?thesis
    using b pc v
    by (simp add: internal_read_node_def rbind_def rassert_def Let_def internal_size_bytes_def hamt_constants
        validate_after_load_def)
qed

lemma internal_get_node_ok:
  assumes "db_ok s" and "\<not> db_closed s" and "internal_ok s p b cs" and "b \<noteq> 0" and "length cs = pop_count b"
  shows "internal_get_node s p = Inr (inode b cs)"
  using assms internal_read_node_ok [OF assms(1,2), of "untag_internal_address p" b cs]
  by (auto simp: internal_get_node_def internal_ok_def heap_internal_def)

lemma linear_get_node_ok:
  assumes "db_ok s" and "\<not> db_closed s" and ok: "linear_ok s p as" and ne: "as \<noteq> []"
  shows "linear_get_node s p = Inr (lnode as)"
proof (cases "is_heap p")
  case True
  then show ?thesis
    using ok by (simp add: linear_get_node_def linear_ok_def heap_linear_def rbind_def rassert_def)
next
  case False
  let ?a = "untag_internal_address p" and ?bs = "linear_bytes (lnode as)"
  have d: "on_disk s ?a ?bs" and al: "?a mod 8 = 0"
    using ok False by (simp_all add: linear_ok_def)
  have l: "length ?bs = 16 + 8 * length as"
    by (simp add: length_linear_bytes)
  have small: "16 + 8 * length as < 2 ^ 64"
    using on_disk_small [OF d] l by simp
  define sz :: u64 where "sz = of_nat (length as)"
  have sz: "unat sz = length as"
    using small by (simp add: sz_def unsigned_of_nat take_bit_nat_eq_self)
  have "le_word (take 8 (drop 8 (take 24 ?bs))) = sz"
    by (simp add: linear_bytes_def take_drop sz_def)
  moreover have "getro s ?a 24 = Inr (take 24 ?bs)"
    using getro_on_disk [OF assms(1,2) d, of 24] l ne by (cases as) simp_all
  moreover have "getro s ?a (16 + 8 * sz) = Inr ?bs"
    using getro_on_disk [OF assms(1,2) d, of "16 + 8 * sz"] mult_8_no_wrap [OF sz small] l by simp
  moreover have "linear_of_bytes ?bs = lnode as"
    by (simp add: linear_of_linear_bytes)
  ultimately show ?thesis
    using False al sz by (simp add: linear_get_node_def getro_typed_def rbind_def Let_def)
qed

context index_params
begin

lemma load_leaf_ok:
  assumes "db_ok s" and "\<not> db_closed s" and "leaf_ok P s (a, k, v)"
  shows "get_key P s a = Inr k" and "load_leaf_node P s a = Inr (k, v)"
  using assms codec unfolding codec_ok_def leaf_ok_def get_key_def load_leaf_node_def
  by (auto simp del: split_paired_All)

lemma leaf_ok_inj:
  assumes "db_ok s" and "\<not> db_closed s" and "leaf_ok P s (a, k, v)" and "leaf_ok P s (a, k', v')"
  shows "k' = k \<and> v' = v"
  using load_leaf_ok(2) [OF assms(1-3)] load_leaf_ok(2) [OF assms(1,2,4)] by simp

lemma linear_small:
  assumes "db_ok s" and "\<not> db_closed s" and es: "\<forall>e \<in> set es. leaf_ok P s e" and "distinct (map ekey es)"
  shows "length es < 2 ^ 38"
proof -
  have inj: "inj_on (unat \<circ> fst) (set es)"
  proof (rule inj_onI)
    fix x y assume xy: "x \<in> set es" "y \<in> set es" "(unat \<circ> fst) x = (unat \<circ> fst) y"
    obtain a k v a' k' v' where e: "x = (a, k, v)" "y = (a', k', v')"
      by (cases x, cases y)
    then have "a' = a" using xy(3) by (simp add: word_unat_eq_iff)
    then show "x = y"
      using leaf_ok_inj [OF assms(1,2), of a k v k' v'] es xy by (auto simp: e)
  qed
  obtain n where "storage_ok (db_storage s) n" "unat (db_logical_size s) \<le> n * 2 ^ 22"
    using assms(1) by (auto simp: db_ok_def)
  then have top: "unat (db_logical_size s) \<le> 2 ^ 38"
    using mapped_segments_bound [of 0 "regions (db_storage s)" n] by (simp add: storage_ok_def)
  have "(unat \<circ> fst) ` set es \<subseteq> {64..<unat (db_logical_size s)}"
    using es leaf_ok_less by (fastforce simp: leaf_ok_def)
  then have "card ((unat \<circ> fst) ` set es) \<le> unat (db_logical_size s) - 64"
    using card_mono [of "{64..<unat (db_logical_size s)}"] by simp
  moreover have "card ((unat \<circ> fst) ` set es) = length es"
    using inj assms(4) card_image [OF inj] distinct_card [of es] by (simp add: distinct_map comp_def)
  ultimately show ?thesis
    using top by simp
qed

lemma linear_lookup_missing:
  assumes "db_ok s" and "\<not> db_closed s" and "\<forall>e \<in> set es. leaf_ok P s e" and "k \<notin> ekey ` set es"
  shows "linear_lookup_loop P s k (map fst es) c = Inr (0, not_found)"
  using assms(3,4)
proof (induction es arbitrary: c)
  case (Cons e es)
  obtain a k' v where "e = (a, k', v)" by (cases e)
  then show ?case
    using Cons load_leaf_ok(1) [OF assms(1,2), of a k' v] by (auto simp: rbind_def)
qed simp

lemma linear_lookup_found:
  assumes "db_ok s" and "\<not> db_closed s" and "\<forall>e \<in> set es. leaf_ok P s e" and "distinct (map ekey es)"
    and "i < length es" and "ekey (es ! i) = k"
  shows "linear_lookup_loop P s k (map fst es) c = Inr (fst (es ! i), c + of_nat i)"
  using assms(3-6)
proof (induction es arbitrary: c i)
  case (Cons e es)
  obtain a k' v where e: "e = (a, k', v)" by (cases e)
  show ?case
  proof (cases i)
    case 0
    then show ?thesis
      using Cons.prems load_leaf_ok(1) [OF assms(1,2), of a k' v] by (simp add: e rbind_def)
  next
    case (Suc j)
    have "k \<noteq> k'"
      using Cons.prems Suc by (auto simp: e)
    then show ?thesis
      using Cons.prems Cons.IH [of j "c + 1"] Suc load_leaf_ok(1) [OF assms(1,2), of a k' v]
      by (simp add: e rbind_def add.assoc)
  qed
qed simp

end

end
