(* ===== verification/Varint.thy ===== *)
theory Varint
  imports Bit_Count Little_Endian
begin

unbundle bit_operations_syntax

text \<open>
  Variable-length integers (\<^verbatim>\<open>include/pstore/support/varint.hpp\<close>): the number of trailing zeros of
  the first byte says how many bytes follow it. An output iterator is the list of the bytes written
  through it, an input iterator the list of the bytes that can be read; reading past its end is
  undefined.
\<close>

definition nine_byte_threshold :: u64 where
  "nine_byte_threshold = push_bit (7 * 8) 1 - 1"

definition encoded_size :: "u64 \<Rightarrow> nat" where
  "encoded_size x =
     (if x > nine_byte_threshold then 9
      else let bits = 64 - clz (x OR 1) in (bits - 1) div 7 + 1)"

text \<open>The \<^verbatim>\<open>switch\<close> of \<^verbatim>\<open>encode\<close>, whose cases fall through to the next.\<close>

fun encode_switch :: "nat \<Rightarrow> u64 \<Rightarrow> u8 list" where
  "encode_switch bytes x =
     (if 1 < bytes then ucast (x AND 0xFF) # encode_switch (bytes - 1) (drop_bit 8 x)
      else [ucast (x AND 0xFF)])"

definition encode :: "u64 \<Rightarrow> exn + u8 list" where
  "encode x =
     (let bits = 64 - clz (x OR 1);
          (bytes, out, x) =
            (if bits > 56 then (8, [0], x)
             else let bytes = (bits - 1) div 7 + 1 in (bytes, [], push_bit (bytes - 1) (2 * x + 1)))
      in rbind (rassert (bytes < 9)) (\<lambda>_. Inr (out @ encode_switch bytes x)))"

definition decode_size :: "u8 list \<Rightarrow> exn + nat" where
  "decode_size ins = (case ins of [] \<Rightarrow> Inl Undefined | b # _ \<Rightarrow> Inr (ctz (ucast b OR 0x100 :: u32) + 1))"

fun or_bytes :: "nat \<Rightarrow> nat \<Rightarrow> u64 \<Rightarrow> u8 list \<Rightarrow> exn + u64" where
  "or_bytes 0 shift result ins = Inr result"
| "or_bytes (Suc n) shift result [] = Inl Undefined"
| "or_bytes (Suc n) shift result (b # ins) = or_bytes n (shift + 8) (result OR push_bit shift (ucast b)) ins"

definition decode9 :: "u8 list \<Rightarrow> exn + u64" where
  "decode9 ins = (case ins of [] \<Rightarrow> Inl Undefined | _ # ins \<Rightarrow> or_bytes 8 0 0 ins)"

definition decode_sized :: "u8 list \<Rightarrow> nat \<Rightarrow> exn + u64" where
  "decode_sized ins sz =
     rbind (decode_size ins) (\<lambda>n.
     rbind (rassert (0 < sz \<and> sz = n)) (\<lambda>_.
     if sz = 9 then decode9 ins
     else rbind (or_bytes sz 0 0 ins) (\<lambda>result. Inr (drop_bit sz result))))"

definition decode :: "u8 list \<Rightarrow> exn + u64" where
  "decode ins = rbind (decode_size ins) (decode_sized ins)"

section \<open>Lengths\<close>

declare encode_switch.simps [simp del]

lemma low_byte: "(ucast (x AND 0xFF :: u64) :: u8) = ucast x"
proof -
  have "(0xFF :: u64) = mask 8"
    by (simp add: mask_eq_exp_minus_1)
  show ?thesis
    unfolding \<open>0xFF = mask 8\<close> by (intro bit_word_eqI) (simp add: bit_simps)
qed

lemma encode_switch_bytes: "encode_switch (Suc n) x = le_bytes (Suc n) x"
proof (induction n arbitrary: x)
  case 0
  show ?case
    by (simp add: encode_switch.simps [of "Suc 0"] low_byte le_bytes_def)
next
  case (Suc n)
  then show ?case
    by (simp add: encode_switch.simps [of "Suc (Suc n)"] low_byte le_bytes_Suc [of "Suc n"])
qed

text \<open>The position of the highest bit of a word, or zero: it decides the number of bytes.\<close>

lemma high_bit:
  fixes x :: u64
  obtains h where "h < 64" "64 - clz (x OR 1) = Suc h" "\<forall>i. bit x i \<longrightarrow> i \<le> h" "h = 0 \<or> bit x h"
proof -
  have "bit (x OR 1) 0"
    by (simp add: bit_simps)
  then have "x OR 1 \<noteq> 0"
    by (metis bit_0_eq bot_apply bot_bool_def)
  then obtain h where h: "h < 64" "bit (x OR 1) h" "\<And>i. h < i \<Longrightarrow> i < 64 \<Longrightarrow> \<not> bit (x OR 1) i"
    using nonzero_has_high_bit [of "x OR 1"] by auto
  show ?thesis
  proof (rule that [OF h(1)])
    show "64 - clz (x OR 1) = Suc h"
      using clz_eqI [of h "x OR 1"] h by simp
    show "\<forall>i. bit x i \<longrightarrow> i \<le> h"
      using h(3) bit_imp_le_length [of x] by (force simp: bit_simps not_le [symmetric])
    show "h = 0 \<or> bit x h"
      using h(2) by (auto simp: bit_simps)
  qed
qed

lemma threshold_iff:
  fixes x :: u64
  shows "nine_byte_threshold < x \<longleftrightarrow> (\<exists>i \<ge> 56. bit x i)"
proof -
  have "x \<le> nine_byte_threshold \<longleftrightarrow> unat x < 2 ^ 56"
    by (auto simp: nine_byte_threshold_def word_le_nat_alt)
  also have "\<dots> \<longleftrightarrow> take_bit 56 x = x"
    using take_bit_nat_eq_self_iff [of 56 "unat x"] by (simp add: word_unat_eq_iff unsigned_take_bit_eq)
  also have "\<dots> \<longleftrightarrow> (\<forall>i \<ge> 56. \<not> bit x i)"
  proof (intro iffI allI impI notI)
    fix i assume t: "take_bit 56 x = x" and "56 \<le> i" "bit x i"
    then show False
      using bit_take_bit_iff [of 56 x i] by simp
  next
    assume "\<forall>i \<ge> 56. \<not> bit x i"
    then show "take_bit 56 x = x"
      by (intro bit_word_eqI) (force simp: bit_simps not_less [symmetric])
  qed
  finally show ?thesis
    by (metis not_le)
qed

text \<open>The value of a list of bytes.\<close>

lemma or_bytes_le_word:
  "length bs = n \<Longrightarrow> or_bytes n shift result (bs @ rest) = Inr (result OR push_bit shift (le_word bs))"
proof (induction bs arbitrary: n shift result)
  case (Cons b bs)
  then show ?case
    by (cases n) (simp_all add: push_bit_or ac_simps)
qed simp

lemma encode_cases:
  obtains (nine) "encode x = Inr (0 # le_bytes 8 x)" "encoded_size x = 9"
  | (fewer) n where "n < 8" "encode x = Inr (le_bytes (Suc n) (push_bit n (2 * x + 1)))" "encoded_size x = Suc n"
      "\<And>i. bit x i \<Longrightarrow> i < 7 * Suc n"
proof -
  obtain h where h: "h < 64" "64 - clz (x OR 1) = Suc h" "\<forall>i. bit x i \<longrightarrow> i \<le> h" "h = 0 \<or> bit x h"
    using high_bit [of x] by blast
  have big: "nine_byte_threshold < x \<longleftrightarrow> 56 \<le> h"
    using h(3,4) by (auto simp: threshold_iff)
  show ?thesis
  proof (cases "56 \<le> h")
    case True
    then show ?thesis
      using encode_switch_bytes [of 7 x] h(2) big
      by (intro nine) (simp_all add: encode_def rbind_def rassert_def encoded_size_def eval_nat_numeral)
  next
    case False
    define n where "n = h div 7"
    have n: "n < 8"
      using False by (simp add: n_def)
    show ?thesis
    proof (rule fewer [OF n])
      show "encode x = Inr (le_bytes (Suc n) (push_bit n (2 * x + 1)))"
        using encode_switch_bytes [of n] h(2) False n by (simp add: encode_def rbind_def rassert_def n_def)
      show "encoded_size x = Suc n"
        using h(2) big False by (simp add: encoded_size_def n_def)
      show "i < 7 * Suc n" if "bit x i" for i
        using h(3) that by (simp add: n_def) (metis dividend_less_times_div less_eq_Suc_le le_trans not_less_eq_eq zero_less_numeral mult.commute)
    qed
  qed
qed

lemma bit_double_plus_1: "bit (2 * x + 1 :: u64) i \<longleftrightarrow> i < 64 \<and> (i = 0 \<or> bit x (i - 1))"
proof -
  have "bit (2 * x :: u64) i \<longleftrightarrow> 0 < i \<and> i < 64 \<and> bit x (i - 1)"
    by (auto simp: bit_double_iff)
  then show ?thesis
    using even_bit_succ_iff [of "2 * x" i] by (auto simp: add.commute [of 1])
qed

lemma decode_size_zero: "decode_size (0 # ins) = Inr 9"
proof -
  have "ctz (0x100 :: u32) = 8"
    by (rule ctz_eqI) (auto simp: bit_numeral_rec bit_simps eval_nat_numeral less_Suc_eq)
  then show ?thesis
    by (simp add: decode_size_def)
qed

lemma decode_size_bytes:
  assumes "n < 8"
  shows "decode_size (le_bytes (Suc n) (push_bit n (2 * x + 1) :: u64) @ ins) = Inr (Suc n)"
proof -
  have b: "bit (ucast (ucast (push_bit n (2 * x + 1) :: u64) :: u8) OR 0x100 :: u32) i
      \<longleftrightarrow> i = 8 \<or> (n \<le> i \<and> i < 8 \<and> (i = n \<or> bit x (i - n - 1)))" if "i < 32" for i
  proof -
    have "bit (0x100 :: u32) i \<longleftrightarrow> i = 8"
      using bit_exp_iff [where 'a = "32 word", of 8 i] that by simp
    then show ?thesis
      using that assms by (auto simp: bit_simps bit_double_plus_1)
  qed
  have "ctz (ucast (ucast (push_bit n (2 * x + 1) :: u64) :: u8) OR 0x100 :: u32) = n"
    by (rule ctz_eqI) (use assms b in auto)
  then show ?thesis
    by (simp add: decode_size_def le_bytes_Suc)
qed

lemma take_drop_encoded:
  assumes "n < 8" and "\<And>i. bit x i \<Longrightarrow> i < 7 * Suc n"
  shows "drop_bit (Suc n) (take_bit (8 * Suc n) (push_bit n (2 * x + 1))) = (x :: u64)"
proof (rule bit_word_eqI)
  fix i assume "i < LENGTH(64)"
  have "Suc n + i < 64" if "bit x i"
    using assms that by fastforce
  moreover have "Suc n + i < 8 * Suc n" if "bit x i"
    using assms(2) [OF that] by simp
  ultimately show "bit (drop_bit (Suc n) (take_bit (8 * Suc n) (push_bit n (2 * x + 1)))) i = bit x i"
    by (auto simp: bit_simps bit_double_plus_1 dest: bit_imp_le_length)
qed

lemma encode_decode:
  "\<exists>bs. encode x = Inr bs \<and> length bs = encoded_size x \<and> length bs \<in> {1..9}
     \<and> decode_size (bs @ rest) = Inr (length bs) \<and> decode (bs @ rest) = Inr x"
proof (cases rule: encode_cases [of x])
  case nine
  have "or_bytes 8 0 0 (le_bytes 8 x @ rest) = Inr x"
    using or_bytes_le_word [of "le_bytes 8 x" 8 0 0 rest] by simp
  then show ?thesis
    using nine by (simp add: decode_def decode_sized_def decode_size_zero rbind_def rassert_def decode9_def)
next
  case (fewer n)
  let ?bs = "le_bytes (Suc n) (push_bit n (2 * x + 1))"
  have "or_bytes (Suc n) 0 0 (?bs @ rest) = Inr (take_bit (8 * Suc n) (push_bit n (2 * x + 1)))"
    using or_bytes_le_word [of ?bs "Suc n" 0 0 rest] by (simp only: length_le_bytes le_word_bytes_take_bit) simp
  then show ?thesis
    using fewer decode_size_bytes [OF fewer(1), of x rest] take_drop_encoded [OF fewer(1,4)]
    by (simp add: decode_def decode_sized_def rbind_def rassert_def)
qed

section \<open>Properties\<close>

text \<open>C24. Every 64-bit integer is encoded without an assertion in one to nine bytes, as many as
  \<^verbatim>\<open>encoded_size\<close> says, and from those bytes, whatever follows them, \<^verbatim>\<open>decode_size\<close> finds their number
  and \<^verbatim>\<open>decode\<close> the integer.\<close>

theorem varint_round_trip:
  "\<exists>bs. encode x = Inr bs \<and> length bs = encoded_size x \<and> length bs \<in> {1..9}
     \<and> decode_size (bs @ rest) = Inr (length bs) \<and> decode (bs @ rest) = Inr x"
  by (rule encode_decode)

end
