(* ===== verification/Uint128.thy ===== *)
theory Uint128
  imports Little_Endian
begin

unbundle bit_operations_syntax

text \<open>
  The 128-bit integer of \<^verbatim>\<open>include/pstore/support/uint128.hpp\<close> and \<^verbatim>\<open>lib/support/uint128.cpp\<close>, as it
  is built for compilers without a native 128-bit type: a pair of 64-bit words. The other build
  applies the operators of the native type, here those of \<^typ>\<open>128 word\<close>, to the whole value; the
  lemmas relate the two by \<open>whole\<close>.
\<close>

record uint128 =
  low_word :: u64
  high_word :: u64

abbreviation u128 :: "u64 \<Rightarrow> u64 \<Rightarrow> uint128" where
  "u128 h l \<equiv> \<lparr>low_word = l, high_word = h\<rparr>"

definition max64 :: u64 where
  "max64 = - 1"

definition u128_eq :: "uint128 \<Rightarrow> uint128 \<Rightarrow> bool" where
  "u128_eq a b \<longleftrightarrow> high_word a = high_word b \<and> low_word a = low_word b"

text \<open>Comparison with an unsigned type that is no wider than 64 bits, whose high part is zero.\<close>

definition u128_eq_word :: "uint128 \<Rightarrow> u64 \<Rightarrow> bool" where
  "u128_eq_word a rhs \<longleftrightarrow> high_word a = 0 \<and> low_word a = rhs AND max64"

definition u128_inc :: "uint128 \<Rightarrow> uint128" where
  "u128_inc a =
     (let a = a\<lparr>low_word := low_word a + 1\<rparr> in
      if low_word a = 0 then a\<lparr>high_word := high_word a + 1\<rparr> else a)"

definition u128_dec :: "uint128 \<Rightarrow> uint128" where
  "u128_dec a =
     (if low_word a = 0 then a\<lparr>low_word := max64, high_word := high_word a - 1\<rparr>
      else a\<lparr>low_word := low_word a - 1\<rparr>)"

definition u128_add :: "uint128 \<Rightarrow> uint128 \<Rightarrow> uint128" where
  "u128_add a rhs =
     (let old_low = low_word a;
          a = a\<lparr>low_word := low_word a + low_word rhs, high_word := high_word a + high_word rhs\<rparr>
      in if low_word a < old_low then a\<lparr>high_word := high_word a + 1\<rparr> else a)"

definition u128_compl :: "uint128 \<Rightarrow> uint128" where
  "u128_compl a = a\<lparr>low_word := NOT (low_word a), high_word := NOT (high_word a)\<rparr>"

definition u128_neg :: "uint128 \<Rightarrow> uint128" where
  "u128_neg a = u128_inc (u128_compl a)"

definition u128_sub :: "uint128 \<Rightarrow> uint128 \<Rightarrow> uint128" where
  "u128_sub a b = u128_add a (u128_neg b)"

definition u128_not :: "uint128 \<Rightarrow> bool" where
  "u128_not a \<longleftrightarrow> \<not> (high_word a \<noteq> 0 \<or> low_word a \<noteq> 0)"

definition u128_and :: "uint128 \<Rightarrow> uint128 \<Rightarrow> uint128" where
  "u128_and a rhs = u128 (high_word a AND high_word rhs) (low_word a AND low_word rhs)"

definition u128_or :: "uint128 \<Rightarrow> uint128 \<Rightarrow> uint128" where
  "u128_or a rhs = u128 (high_word a OR high_word rhs) (low_word a OR low_word rhs)"

text \<open>The templates of \<^verbatim>\<open>&\<close> and \<^verbatim>\<open>|\<close> for the other operand types.\<close>

definition u128_and_word :: "uint128 \<Rightarrow> u64 \<Rightarrow> uint128" where
  "u128_and_word a rhs = u128 0 (low_word a AND rhs)"

definition u128_or_word :: "uint128 \<Rightarrow> u64 \<Rightarrow> uint128" where
  "u128_or_word a rhs = u128 0 (low_word a OR rhs)"

text \<open>Shifts. A shift of a 64-bit word by 64 is undefined.\<close>

definition shl64 :: "u64 \<Rightarrow> nat \<Rightarrow> exn + u64" where
  "shl64 w n = (if n < 64 then Inr (push_bit n w) else Inl Undefined)"

definition shr64 :: "u64 \<Rightarrow> nat \<Rightarrow> exn + u64" where
  "shr64 w n = (if n < 64 then Inr (drop_bit n w) else Inl Undefined)"

definition u128_shl :: "uint128 \<Rightarrow> nat \<Rightarrow> exn + uint128" where
  "u128_shl a n =
     rbind (rassert (n \<le> 128)) (\<lambda>_.
     if 64 \<le> n then rbind (shl64 (low_word a) (n - 64)) (\<lambda>h. Inr (u128 h 0))
     else if n = 0 then Inr a
     else
       let mask = push_bit n 1 - 1; dist = 64 - n; top_of_low_mask = push_bit dist mask;
           bottom_of_high = drop_bit dist (low_word a AND top_of_low_mask)
       in Inr (u128 (push_bit n (high_word a) OR bottom_of_high) (push_bit n (low_word a))))"

definition u128_shr :: "uint128 \<Rightarrow> nat \<Rightarrow> exn + uint128" where
  "u128_shr a n =
     rbind (rassert (n \<le> 128)) (\<lambda>_.
     if 64 \<le> n then rbind (shr64 (high_word a) (n - 64)) (\<lambda>l. Inr (u128 0 l))
     else if 0 < n
     then let mask = push_bit n 1 - 1
          in Inr (u128 (drop_bit n (high_word a))
                (drop_bit n (low_word a) OR push_bit (64 - n) (high_word a AND mask)))
     else Inr a)"

definition u128_less :: "uint128 \<Rightarrow> uint128 \<Rightarrow> bool" where
  "u128_less lhs rhs \<longleftrightarrow>
     high_word lhs < high_word rhs \<or> (\<not> high_word rhs < high_word lhs \<and> low_word lhs < low_word rhs)"

definition u128_less_eq :: "uint128 \<Rightarrow> uint128 \<Rightarrow> bool" where
  "u128_less_eq lhs rhs \<longleftrightarrow> \<not> u128_less rhs lhs"

text \<open>Construction from 16 bytes, the highest first.\<close>

definition bytes_to_uint64 :: "u8 list \<Rightarrow> u64" where
  "bytes_to_uint64 bytes =
     push_bit 56 (ucast (bytes ! 0)) OR push_bit 48 (ucast (bytes ! 1)) OR push_bit 40 (ucast (bytes ! 2))
     OR push_bit 32 (ucast (bytes ! 3)) OR push_bit 24 (ucast (bytes ! 4)) OR push_bit 16 (ucast (bytes ! 5))
     OR push_bit 8 (ucast (bytes ! 6)) OR ucast (bytes ! 7)"

definition u128_of_bytes :: "u8 list \<Rightarrow> uint128" where
  "u128_of_bytes bytes = u128 (bytes_to_uint64 bytes) (bytes_to_uint64 (drop 8 bytes))"

section \<open>Hexadecimal digits\<close>

definition digit_to_hex :: "nat \<Rightarrow> exn + char" where
  "digit_to_hex v =
     rbind (rassert (v < 0x10)) (\<lambda>_.
     Inr (char_of (v + (if v < 10 then of_char (CHR ''0'') else of_char (CHR ''a'') - 10 :: nat))))"

fun hex_loop :: "u64 \<Rightarrow> nat list \<Rightarrow> exn + string" where
  "hex_loop w [] = Inr []"
| "hex_loop w (shift # shifts) =
     rbind (digit_to_hex (unat (drop_bit (64 - shift) w AND 0x0F))) (\<lambda>c.
     rbind (hex_loop w shifts) (\<lambda>cs. Inr (c # cs)))"

definition u128_to_hex_string :: "uint128 \<Rightarrow> exn + string" where
  "u128_to_hex_string a =
     (let shifts = map (\<lambda>i. 4 * i) [1..<17] in
      rbind (hex_loop (high_word a) shifts) (\<lambda>h.
      rbind (hex_loop (low_word a) shifts) (\<lambda>l.
      let str = h @ l in
      rbind (rassert (length str = 32)) (\<lambda>_. Inr str))))"

section \<open>The value of a pair of words\<close>

definition whole :: "uint128 \<Rightarrow> 128 word" where
  "whole a = push_bit 64 (ucast (high_word a)) OR ucast (low_word a)"

lemma bit_whole:
  "bit (whole a) i \<longleftrightarrow> (if i < 64 then bit (low_word a) i else bit (high_word a) (i - 64))"
  by (auto simp: whole_def bit_simps dest: bit_imp_le_length)

lemma whole_inj: "whole a = whole b \<longleftrightarrow> a = b"
proof
  assume eq: "whole a = whole b"
  have "low_word a = low_word b"
  proof (rule bit_word_eqI)
    show "bit (low_word a) i = bit (low_word b) i" if "i < LENGTH(64)" for i
      using arg_cong [OF eq, of "\<lambda>w. bit w i"] that by (simp add: bit_whole)
  qed
  moreover have "high_word a = high_word b"
  proof (rule bit_word_eqI)
    show "bit (high_word a) i = bit (high_word b) i" if "i < LENGTH(64)" for i
      using arg_cong [OF eq, of "\<lambda>w. bit w (i + 64)"] that by (simp add: bit_whole)
  qed
  ultimately show "a = b"
    by simp
qed simp

lemma unat_less_64: "unat (w :: u64) < 2 ^ 64"
  using unsigned_less [of w, where 'a = nat] by simp

lemma unat_whole: "unat (whole a) = 2 ^ 64 * unat (high_word a) + unat (low_word a)"
proof -
  have "unat (push_bit 64 (ucast (high_word a)) :: 128 word) = 2 ^ 64 * unat (high_word a)"
    using unat_less_64 [of "high_word a"]
    by (simp only: unsigned_push_bit_eq) (simp add: unat_ucast_up push_bit_eq_mult take_bit_nat_eq_self)
  moreover have "whole a = push_bit 64 (ucast (high_word a)) + ucast (low_word a)"
    unfolding whole_def by (rule disjunctive_add [symmetric]) (auto simp: bit_simps dest: bit_imp_le_length)
  ultimately show ?thesis
    using unat_less_64 [of "high_word a"] unat_less_64 [of "low_word a"]
    by (simp only: unat_word_ariths) (simp add: unat_ucast_up)
qed

lemma whole_bitwise [simp]:
  "whole (u128_and a b) = whole a AND whole b" "whole (u128_or a b) = whole a OR whole b"
  "whole (u128_compl a) = NOT (whole a)"
  by (auto intro!: bit_word_eqI simp: bit_whole bit_simps u128_and_def u128_or_def u128_compl_def)

lemma carry:
  fixes l1 l2 :: u64
  shows "l1 + l2 < l1 \<longleftrightarrow> 2 ^ 64 \<le> unat l1 + unat l2"
    and "unat (l1 + l2) = (if l1 + l2 < l1 then unat l1 + unat l2 - 2 ^ 64 else unat l1 + unat l2)"
proof -
  have l: "unat l1 < 2 ^ 64" "unat l2 < 2 ^ 64"
    by (rule unat_less_64)+
  have s: "unat (l1 + l2) = (unat l1 + unat l2) mod 2 ^ 64"
    by (simp add: unat_word_ariths)
  have m: "(unat l1 + unat l2) mod 2 ^ 64 = (if 2 ^ 64 \<le> unat l1 + unat l2 then unat l1 + unat l2 - 2 ^ 64 else unat l1 + unat l2)"
    using l by (simp add: le_mod_geq mod_if)
  show "l1 + l2 < l1 \<longleftrightarrow> 2 ^ 64 \<le> unat l1 + unat l2"
    using s m l by (auto simp: word_less_nat_alt split: if_splits)
  then show "unat (l1 + l2) = (if l1 + l2 < l1 then unat l1 + unat l2 - 2 ^ 64 else unat l1 + unat l2)"
    using s m by simp
qed

lemma whole_add [simp]: "whole (u128_add a b) = whole a + whole b"
proof -
  define c :: nat where "c = (if low_word a + low_word b < low_word a then 1 else 0)"
  let ?h = "unat (high_word a) + unat (high_word b) + c"
  have low: "unat (low_word (u128_add a b)) + 2 ^ 64 * c = unat (low_word a) + unat (low_word b)"
    using carry [of "low_word a" "low_word b"] by (simp add: u128_add_def Let_def c_def)
  have "unat (high_word (u128_add a b)) = ?h mod 2 ^ 64"
    by (simp add: u128_add_def Let_def c_def unat_word_ariths mod_simps)
  then have high: "unat (high_word (u128_add a b)) + 2 ^ 64 * (?h div 2 ^ 64) = ?h"
    by simp
  have "unat (whole a) + unat (whole b) = 2 ^ 64 * ?h + unat (low_word (u128_add a b))"
    using low by (simp add: unat_whole algebra_simps)
  also have "\<dots> = unat (whole (u128_add a b)) + 2 ^ 128 * (?h div 2 ^ 64)"
    by (subst high [symmetric]) (simp add: unat_whole algebra_simps)
  finally have "(unat (whole a) + unat (whole b)) mod 2 ^ 128 = unat (whole (u128_add a b)) mod 2 ^ 128"
    by simp
  moreover have "unat (whole (u128_add a b)) < 2 ^ 128"
    using unsigned_less [of "whole (u128_add a b)", where 'a = nat] by simp
  ultimately show ?thesis
    by (simp add: word_unat_eq_iff unat_word_ariths)
qed

lemma u128_inc_add: "u128_inc a = u128_add a (u128 0 1)"
proof -
  have "low_word a + 1 < low_word a \<longleftrightarrow> low_word a + 1 = 0"
  proof -
    have "low_word a + 1 = 0 \<longleftrightarrow> unat (low_word a) = 2 ^ 64 - 1"
      by (simp add: eq_neg_iff_add_eq_0 [symmetric] word_unat_eq_iff [of _ "- 1"] unsigned_minus_1_eq_mask mask_eq_exp_minus_1)
    then show ?thesis
      using carry(1) [of "low_word a" 1] unat_less_64 [of "low_word a"] by auto
  qed
  then show ?thesis
    by (simp add: u128_inc_def u128_add_def Let_def)
qed

lemma whole_one: "whole (u128 0 1) = 1" "whole (u128 0 0) = 0"
  by (simp_all add: whole_def)

lemma whole_inc [simp]: "whole (u128_inc a) = whole a + 1"
  by (simp add: u128_inc_add whole_one)

lemma whole_neg [simp]: "whole (u128_neg a) = - whole a"
  by (simp add: u128_neg_def minus_eq_not_plus_1)

lemma whole_sub [simp]: "whole (u128_sub a b) = whole a - whole b"
  by (simp add: u128_sub_def)

lemma whole_dec [simp]: "whole (u128_dec a) = whole a - 1"
proof -
  have "u128_inc (u128_dec a) = a"
    by (auto simp: u128_inc_def u128_dec_def Let_def max64_def)
  then have "whole (u128_dec a) + 1 = whole a"
    by (metis whole_inc)
  then show ?thesis
    by (simp add: eq_diff_eq)
qed

lemma whole_less: "u128_less a b \<longleftrightarrow> whole a < whole b"
proof -
  have "unat (low_word a) < 2 ^ 64" "unat (low_word b) < 2 ^ 64"
    by (rule unat_less_64)+
  then have "unat (whole a) < unat (whole b) \<longleftrightarrow> unat (high_word a) < unat (high_word b)
      \<or> unat (high_word a) = unat (high_word b) \<and> unat (low_word a) < unat (low_word b)"
    unfolding unat_whole by simp linarith
  then show ?thesis
    by (auto simp: u128_less_def word_less_nat_alt word_unat_eq_iff)
qed

lemma whole_shl: "n < 128 \<Longrightarrow> \<exists>r. u128_shl a n = Inr r \<and> whole r = push_bit n (whole a)"
proof -
  assume n: "n < 128"
  consider "64 \<le> n" | "n = 0" | "0 < n" "n < 64" by linarith
  then show ?thesis
  proof cases
    case 1
    have "whole (u128 (push_bit (n - 64) (low_word a)) 0) = push_bit n (whole a)"
    proof (rule bit_word_eqI)
      fix i assume i: "i < LENGTH(128)"
      show "bit (whole (u128 (push_bit (n - 64) (low_word a)) 0)) i = bit (push_bit n (whole a)) i"
      proof (cases "n \<le> i")
        case True
        then have "i - 64 - (n - 64) = i - n" "i - n < 64" "\<not> i < 64" "i - 64 < 64"
          using 1 i by auto
        then show ?thesis
          using True i 1 by (simp add: bit_whole bit_push_bit_iff diff_le_mono)
      next
        case False
        then have "\<not> n - 64 \<le> i - 64 \<or> i < 64"
          using 1 by linarith
        then show ?thesis
          using False by (auto simp: bit_whole bit_push_bit_iff)
      qed
    qed
    then show ?thesis
      using n 1 by (simp add: u128_shl_def shl64_def rbind_def rassert_def)
  next
    case 2
    then show ?thesis by (simp add: u128_shl_def rbind_def rassert_def)
  next
    case 3
    let ?r = "u128 (push_bit n (high_word a) OR drop_bit (64 - n) (low_word a AND push_bit (64 - n) (mask n))) (push_bit n (low_word a))"
    have "whole ?r = push_bit n (whole a)"
    proof (rule bit_word_eqI)
      fix i assume i: "i < LENGTH(128)"
      show "bit (whole ?r) i = bit (push_bit n (whole a)) i"
      proof (cases "i < 64")
        case True
        then have "i - n < 64" by simp
        then show ?thesis
          using True by (simp add: bit_whole bit_push_bit_iff)
      next
        case False
        then have e: "64 - n + (i - 64) = i - n" "i - n - 64 = i - 64 - n" "i - 64 < n \<longleftrightarrow> i - n < 64"
            "64 - n \<le> i - n" "i - n - (64 - n) = i - 64" "n \<le> i" "i - 64 < 64"
          using 3 i by auto
        then have "bit (high_word ?r) (i - 64) \<longleftrightarrow> n \<le> i - 64 \<and> bit (high_word a) (i - 64 - n) \<or> bit (low_word a) (i - n) \<and> i - 64 < n"
          by (auto simp: bit_simps)
        moreover have "bit (push_bit n (whole a)) i \<longleftrightarrow> (if i - n < 64 then bit (low_word a) (i - n) else bit (high_word a) (i - 64 - n))"
          using e i by (simp add: bit_push_bit_iff bit_whole)
        ultimately show ?thesis
          using False e(3) bit_imp_le_length [of "low_word a" "i - n"] by (auto simp: bit_whole)
      qed
    qed
    then show ?thesis
      using 3 by (simp add: u128_shl_def Let_def rbind_def rassert_def mask_eq_exp_minus_1 [symmetric])
  qed
qed

lemma whole_shr: "n < 128 \<Longrightarrow> \<exists>r. u128_shr a n = Inr r \<and> whole r = drop_bit n (whole a)"
proof -
  assume n: "n < 128"
  consider "64 \<le> n" | "n = 0" | "0 < n" "n < 64" by linarith
  then show ?thesis
  proof cases
    case 1
    have "whole (u128 0 (drop_bit (n - 64) (high_word a))) = drop_bit n (whole a)"
    proof (rule bit_word_eqI)
      fix i :: nat
      have "n - 64 + i = n + i - 64" "\<not> n + i < 64"
        using 1 by auto
      then show "bit (whole (u128 0 (drop_bit (n - 64) (high_word a)))) i = bit (drop_bit n (whole a)) i"
        by (auto simp: bit_whole bit_drop_bit_eq dest: bit_imp_le_length)
    qed
    then show ?thesis
      using n 1 by (simp add: u128_shr_def shr64_def rbind_def rassert_def)
  next
    case 2
    then show ?thesis by (simp add: u128_shr_def rbind_def rassert_def)
  next
    case 3
    let ?r = "u128 (drop_bit n (high_word a)) (drop_bit n (low_word a) OR push_bit (64 - n) (high_word a AND mask n))"
    have "whole ?r = drop_bit n (whole a)"
    proof (rule bit_word_eqI)
      fix i :: nat
      show "bit (whole ?r) i = bit (drop_bit n (whole a)) i"
      proof (cases "i < 64")
        case False
        then have "n + (i - 64) = n + i - 64" by simp
        then show ?thesis
          using False by (simp add: bit_whole bit_drop_bit_eq)
      next
        case True
        then have e: "n + i < 64 \<longleftrightarrow> \<not> 64 - n \<le> i" "64 - n \<le> i \<Longrightarrow> i - (64 - n) = n + i - 64 \<and> n + i - 64 < n"
          using 3 by auto
        show ?thesis
          using True e bit_imp_le_length [of "low_word a" "n + i"]
          by (cases "n + i < 64") (auto simp: bit_whole bit_simps)
      qed
    qed
    then show ?thesis
      using 3 by (simp add: u128_shr_def Let_def rbind_def rassert_def mask_eq_exp_minus_1 [symmetric])
  qed
qed

section \<open>Construction from bytes\<close>

lemma le_word_append: "le_word (xs @ ys) = (le_word xs OR push_bit (8 * length xs) (le_word ys) :: 'a::len word)"
  by (induction xs) (simp_all add: push_bit_or push_bit_push_bit ac_simps)

lemma ucast_le_word:
  assumes "8 * length bs \<le> LENGTH('a)" and "LENGTH('a) \<le> LENGTH('b)"
  shows "ucast (le_word bs :: 'a::len word) = (le_word bs :: 'b::len word)"
  using assms
proof (induction bs)
  case (Cons b bs)
  have "ucast (push_bit 8 (le_word bs :: 'a word)) = (push_bit 8 (le_word bs) :: 'b word)"
  proof (rule bit_word_eqI)
    fix i assume i: "i < LENGTH('b)"
    have ih: "(le_word bs :: 'b word) = ucast (le_word bs :: 'a word)"
      using Cons by simp
    have "i < LENGTH('a)" if "8 \<le> i" "bit (le_word bs :: 'a word) (i - 8)"
      using bit_le_word [OF that(2)] that(1) Cons.prems by simp
    then show "bit (ucast (push_bit 8 (le_word bs :: 'a word)) :: 'b word) i = bit (push_bit 8 (le_word bs) :: 'b word) i"
      using i unfolding ih by (auto simp: bit_simps dest: bit_imp_le_length)
  qed
  moreover have "ucast (ucast b :: 'a word) = (ucast b :: 'b word)"
    using Cons.prems by (intro bit_word_eqI) (auto simp: bit_simps dest: bit_imp_le_length)
  ultimately show ?case
    by (simp add: unsigned_or_eq)
qed simp

lemma bytes_to_uint64_le_word: "length bs = 8 \<Longrightarrow> bytes_to_uint64 (bs @ rest) = le_word (rev bs)"
proof -
  assume "length bs = 8"
  then obtain a b c d e f g h where "bs = [a, b, c, d, e, f, g, h]"
    by (auto simp: eval_nat_numeral length_Suc_conv)
  then show ?thesis
    by (simp add: bytes_to_uint64_def push_bit_or push_bit_push_bit or.assoc or.commute or.left_commute del: push_bit_numeral)
qed

lemma whole_of_bytes:
  assumes "length bs = 16"
  shows "whole (u128_of_bytes bs) = le_word (rev bs)"
proof -
  obtain xs ys where bs: "bs = xs @ ys" "length xs = 8" "length ys = 8"
    using assms append_take_drop_id [of 8 bs] by (metis (no_types) length_drop length_take min_absorb2 add_diff_cancel_left' le_add1 numeral_Bit0)
  show ?thesis
    using bs bytes_to_uint64_le_word [of ys "[]"]
    by (simp add: u128_of_bytes_def bytes_to_uint64_le_word whole_def le_word_append ucast_le_word or.commute)
qed

section \<open>The hexadecimal form\<close>

lemma digit_to_hex_ok: "v < 16 \<Longrightarrow> digit_to_hex v = Inr (''0123456789abcdef'' ! v)"
  by (rule bounded_check [where k = 16]) code_simp

lemma nibble: "unat (w AND 0x0F :: u64) = unat w mod 16"
proof -
  have "(0x0F :: u64) = mask 4"
    by (simp add: mask_eq_exp_minus_1)
  show ?thesis
    unfolding \<open>0x0F = mask 4\<close> by (simp add: take_bit_eq_mask [symmetric] unat_mod take_bit_eq_mod)
qed

lemma hex_loop_ok:
  "hex_loop w shifts = Inr (map (\<lambda>s. ''0123456789abcdef'' ! (unat (drop_bit (64 - s) w) mod 16)) shifts)"
  by (induction shifts) (simp_all add: nibble digit_to_hex_ok rbind_def)

text \<open>The digit of a number at a position, the lowest position being zero.\<close>

definition hex_digit :: "nat \<Rightarrow> nat \<Rightarrow> char" where
  "hex_digit n i = ''0123456789abcdef'' ! (n div 16 ^ i mod 16)"

lemma hex_loop_digits:
  "hex_loop w (map (\<lambda>i. 4 * i) [1..<17]) = Inr (map (hex_digit (unat w)) (rev [0..<16]))"
proof -
  have "map (\<lambda>s. ''0123456789abcdef'' ! (unat (drop_bit (64 - s) w) mod 16)) (map (\<lambda>i. 4 * i) [1..<17])
      = map (hex_digit (unat w)) (rev [0..<16])"
    by (simp add: upt_rec hex_digit_def unat_div drop_bit_eq_div)
  then show ?thesis
    by (simp only: hex_loop_ok)
qed

lemma hex_string_ok: "u128_to_hex_string a = Inr (map (hex_digit (unat (whole a))) (rev [0..<32]))"
proof -
  have l: "hex_digit (unat (whole a)) i = hex_digit (unat (low_word a)) i" if "i < 16" for i
  proof -
    have "(2::nat) ^ 64 = 16 ^ i * (16 * 16 ^ (15 - i))"
      using that power_add [of "16::nat" i "Suc (15 - i)"] by simp
    then have "unat (whole a) = 16 ^ i * (16 * (16 ^ (15 - i) * unat (high_word a))) + unat (low_word a)"
      by (simp only: unat_whole ac_simps)
    then show ?thesis
      by (simp add: hex_digit_def)
  qed
  have h: "hex_digit (unat (whole a)) (16 + i) = hex_digit (unat (high_word a)) i" for i
  proof -
    have "unat (whole a) div 16 ^ (16 + i) = unat (whole a) div 2 ^ 64 div 16 ^ i"
      by (simp add: power_add div_mult2_eq)
    also have "unat (whole a) div 2 ^ 64 = unat (high_word a)"
      using unat_less_64 [of "low_word a"] by (simp add: unat_whole)
    finally show ?thesis
      by (simp add: hex_digit_def)
  qed
  have "[0..<32] = [0..<16] @ map (\<lambda>i. 16 + i) [0..<16]"
    by (simp add: upt_rec)
  then have "map (hex_digit (unat (whole a))) (rev [0..<32])
      = map (hex_digit (unat (high_word a))) (rev [0..<16]) @ map (hex_digit (unat (low_word a))) (rev [0..<16])"
    using l h by (simp add: rev_map)
  then show ?thesis
    by (simp only: u128_to_hex_string_def Let_def hex_loop_digits rbind_def rassert_def sum.case) simp
qed

section \<open>Properties\<close>

text \<open>C25. The two-word arithmetic is that of the native 128-bit type: increment and decrement, sum, negation,
  difference and complement, with carries and wrap-around, and the order.\<close>

theorem uint128_arithmetic:
  "whole (u128_inc a) = whole a + 1 \<and> whole (u128_dec a) = whole a - 1
   \<and> whole (u128_add a b) = whole a + whole b \<and> whole (u128_neg a) = - whole a
   \<and> whole (u128_sub a b) = whole a - whole b \<and> whole (u128_compl a) = NOT (whole a)
   \<and> whole (u128_and a b) = whole a AND whole b \<and> whole (u128_or a b) = whole a OR whole b
   \<and> (u128_eq a b \<longleftrightarrow> whole a = whole b) \<and> (u128_less a b \<longleftrightarrow> whole a < whole b)
   \<and> (u128_not a \<longleftrightarrow> whole a = 0)"
proof -
  have "u128_not a \<longleftrightarrow> a = u128 0 0"
    by (cases a) (auto simp: u128_not_def)
  then have "u128_not a \<longleftrightarrow> whole a = 0"
    using whole_inj [of a "u128 0 0"] by (simp add: whole_one)
  moreover have "u128_eq a b \<longleftrightarrow> whole a = whole b"
    by (cases a; cases b) (auto simp: u128_eq_def whole_inj)
  ultimately show ?thesis
    by (simp add: whole_less)
qed

text \<open>C26. The two-word shifts are those of the native type for every distance below 128. A distance of
  128, which their assertion allows, is undefined.\<close>

theorem uint128_shifts:
  "(if n < 128 then \<exists>l r. u128_shl a n = Inr l \<and> whole l = push_bit n (whole a)
                       \<and> u128_shr a n = Inr r \<and> whole r = drop_bit n (whole a)
    else if n = 128 then u128_shl a n = Inl Undefined \<and> u128_shr a n = Inl Undefined
    else u128_shl a n = Inl Assertion \<and> u128_shr a n = Inl Assertion)"
  using whole_shl [of n a] whole_shr [of n a]
  by (auto simp: u128_shl_def u128_shr_def shl64_def shr64_def rbind_def rassert_def)

text \<open>C27. The hexadecimal form of a 128-bit integer is the 32 digits of its value, the highest first, and its
  construction asserts nothing.\<close>

theorem uint128_hex_string:
  "u128_to_hex_string a = Inr (map (hex_digit (unat (whole a))) (rev [0..<32]))"
  by (rule hex_string_ok)


end
