(* ===== verification/Archive.thy ===== *)
theory Archive
  imports Hamt_Repr Varint Uint128
begin

unbundle bit_operations_syntax

text \<open>
  Reading and writing objects: the archive reader of \<^verbatim>\<open>include/pstore/core/db_archive.hpp\<close>, the serializers
  for the keys and the values of the indices (\<^verbatim>\<open>include/pstore/serialize/types.hpp\<close> and
  \<^verbatim>\<open>standard_types.hpp\<close>, \<^verbatim>\<open>include/pstore/core/file_header.hpp\<close> and \<^verbatim>\<open>index_types.hpp\<close>), and the contract
  between what a serializer writes and what it reads back.

  A value is written as a sequence of calls of the archive's \<^verbatim>\<open>put\<close> and \<^verbatim>\<open>putn\<close>, each given here as the
  alignment and the bytes of what is written. A reader is its address; reading returns the value and
  the reader's new address.
\<close>

section \<open>The reader\<close>

definition reader_get :: "u64 \<Rightarrow> u64 \<Rightarrow> 'z database_scheme \<Rightarrow> address \<Rightarrow> exn + u8 list \<times> address" where
  "reader_get align sz s addr =
     (let extra_for_alignment = calc_alignment addr align in
      rbind (rassert (extra_for_alignment < sz)) (\<lambda>_.
      rbind (address_add_assign addr extra_for_alignment) (\<lambda>addr.
      rbind (getro_typed align s addr sz) (\<lambda>result.
      rbind (address_add_assign addr sz) (\<lambda>addr. Inr (result, addr))))))"

definition reader_getn :: "u64 \<Rightarrow> u64 \<Rightarrow> u64 \<Rightarrow> 'z database_scheme \<Rightarrow> address \<Rightarrow> exn + u8 list \<times> address" where
  "reader_getn align elem n s addr =
     (let extra_for_alignment = calc_alignment addr align in
      rbind (rassert (extra_for_alignment < elem)) (\<lambda>_.
      rbind (address_add_assign addr extra_for_alignment) (\<lambda>addr.
      let sz = n * elem in
      rbind (getro s addr sz) (\<lambda>src.
      rbind (address_add_assign addr sz) (\<lambda>addr. Inr (src, addr))))))"

section \<open>Serializers\<close>

definition u64_puts :: "u64 \<Rightarrow> (u64 \<times> u8 list) list" where
  "u64_puts w = [(8, le_bytes 8 w)]"

definition u64_read :: "database \<Rightarrow> address \<Rightarrow> exn + u64 \<times> address" where
  "u64_read s addr = rbind (reader_get 8 8 s addr) (\<lambda>(bs, addr). Inr (le_word bs, addr))"

definition uint128_puts :: "uint128 \<Rightarrow> (u64 \<times> u8 list) list" where
  "uint128_puts w = [(16, le_bytes 8 (low_word w) @ le_bytes 8 (high_word w))]"

definition uint128_read :: "database \<Rightarrow> address \<Rightarrow> exn + uint128 \<times> address" where
  "uint128_read s addr =
     rbind (reader_get 16 16 s addr) (\<lambda>(bs, addr). Inr (u128 (le_word (drop 8 bs)) (le_word (take 8 bs)), addr))"

definition extent_puts :: "extent \<Rightarrow> (u64 \<times> u8 list) list" where
  "extent_puts r = u64_puts (ext_addr r) @ u64_puts (ext_size r)"

definition extent_read :: "database \<Rightarrow> address \<Rightarrow> exn + extent \<times> address" where
  "extent_read s reader =
     rbind (u64_read s reader) (\<lambda>(addr, reader).
     rbind (u64_read s reader) (\<lambda>(sz, reader). Inr (Extent addr sz, reader)))"

text \<open>
  A string: its length as a variable-length integer of at least two bytes, then its bytes. (The encoding of
  the length does not fail, by \<open>encode_decode\<close>.)
\<close>

definition string_puts :: "u8 list \<Rightarrow> (u64 \<times> u8 list) list" where
  "string_puts str =
     (case encode (of_nat (length str)) of
        Inl _ \<Rightarrow> []
      | Inr encoded_length \<Rightarrow>
          let encoded_length = (if length encoded_length = 1 then encoded_length @ [0] else encoded_length)
          in [(1, encoded_length), (1, str)])"

definition read_length :: "database \<Rightarrow> address \<Rightarrow> exn + u64 \<times> address" where
  "read_length s addr =
     rbind (reader_getn 1 1 2 s addr) (\<lambda>(bs, addr).
     let encoded_length = bs @ replicate 7 0 in
     rbind (decode_size encoded_length) (\<lambda>varint_length.
     rbind (rassert (0 < varint_length)) (\<lambda>_.
     rbind (if 2 < varint_length
            then rbind (rassert (varint_length \<le> 9)) (\<lambda>_.
                 rbind (reader_getn 1 1 (of_nat (varint_length - 2)) s addr) (\<lambda>(bs, addr).
                 Inr (take 2 encoded_length @ bs @ drop varint_length encoded_length, addr)))
            else Inr (encoded_length, addr)) (\<lambda>(encoded_length, addr).
     rbind (decode_sized encoded_length varint_length) (\<lambda>n. Inr (n, addr))))))"

definition string_read :: "database \<Rightarrow> address \<Rightarrow> exn + u8 list \<times> address" where
  "string_read s addr =
     rbind (read_length s addr) (\<lambda>(len, addr). reader_getn 1 1 len s addr)"

text \<open>A pair: its first component, then its second.\<close>

definition pair_puts ::
  "('k \<Rightarrow> (u64 \<times> u8 list) list) \<Rightarrow> ('v \<Rightarrow> (u64 \<times> u8 list) list) \<Rightarrow> 'k \<times> 'v \<Rightarrow> (u64 \<times> u8 list) list" where
  "pair_puts puts1 puts2 value = puts1 (fst value) @ puts2 (snd value)"

definition pair_read ::
  "(database \<Rightarrow> address \<Rightarrow> exn + 'k \<times> address) \<Rightarrow> (database \<Rightarrow> address \<Rightarrow> exn + 'v \<times> address)
    \<Rightarrow> database \<Rightarrow> address \<Rightarrow> exn + ('k \<times> 'v) \<times> address" where
  "pair_read read1 read2 s addr =
     rbind (read1 s addr) (\<lambda>(first, addr).
     rbind (read2 s addr) (\<lambda>(second, addr). Inr ((first, second), addr)))"

section \<open>What is laid out can be read\<close>

lemma laid_out_append:
  "laid_out m p (xs @ ys) \<longleftrightarrow> laid_out m p xs \<and> laid_out m (layout_end p xs) ys"
  by (induction xs arbitrary: p) (auto simp: Let_def)

lemma layout_end_append: "layout_end p (xs @ ys) = layout_end (layout_end p xs) ys"
  by (induction xs arbitrary: p) auto

text \<open>The object that is written as \<open>ps\<close> is at the address \<open>a\<close> or at the next that is aligned.\<close>

definition readable :: "'z database_scheme \<Rightarrow> address \<Rightarrow> (u64 \<times> u8 list) list \<Rightarrow> bool" where
  "readable s a ps \<longleftrightarrow> db_ok s \<and> \<not> db_closed s \<and> laid_out (db_memory s) (unat a) ps
     \<and> layout_end (unat a) ps \<le> unat (db_logical_size s)"

lemma address_add_assign_ok:
  "unat a + unat d < 2 ^ 64 \<Longrightarrow> address_add_assign a d = Inr (a + d) \<and> unat (a + d) = unat a + unat d"
proof -
  assume "unat a + unat d < 2 ^ 64"
  moreover have "unat (- 1 - d) = 2 ^ 64 - 1 - unat d"
    using unat_diff_no_wrap [of d "- 1"] by (simp add: unsigned_minus_1_eq_mask mask_eq_exp_minus_1)
  ultimately show ?thesis
    by (simp add: address_add_assign_def rbind_def rassert_def word_le_nat_alt unat_plus_no_wrap)
qed

lemma aligned_read:
  fixes align n :: u64
  assumes al: "is_power_of_two align" "align \<le> sz'" and fits: "round_up_nat (unat a) (unat align) + unat sz' \<le> unat n"
  shows "calc_alignment a align < sz'" and "address_add_assign a (calc_alignment a align) = Inr (a + calc_alignment a align)"
    and "unat (a + calc_alignment a align) = round_up_nat (unat a) (unat align)"
    and "(a + calc_alignment a align) mod align = 0"
proof -
  obtain k where k: "k < 64" "align = one_bit k" "unat align = 2 ^ k"
    using al(1) by (auto simp: is_power_of_two_iff unat_one_bit)
  let ?q = "round_up_nat (unat a) (2 ^ k)"
  have q: "unat a \<le> ?q" "?q < unat a + 2 ^ k" "2 ^ k dvd ?q"
    using round_up_nat_spec [of "2 ^ k" "unat a"] by auto
  have le: "2 ^ k \<le> unat sz'"
    using al(2) k by (simp add: word_le_nat_alt)
  have n: "unat n < 2 ^ 64"
    by (rule unat_less_64)
  have c: "unat (calc_alignment a align) = ?q - unat a"
    unfolding k(2) using k q le fits n by (intro unat_calc_alignment) auto
  show "calc_alignment a align < sz'"
    using c q le by (simp add: word_less_nat_alt)
  have "unat a + unat (calc_alignment a align) < 2 ^ 64"
    using c q(1) fits k n by simp
  then show "address_add_assign a (calc_alignment a align) = Inr (a + calc_alignment a align)"
    and u: "unat (a + calc_alignment a align) = round_up_nat (unat a) (unat align)"
    using address_add_assign_ok [of a "calc_alignment a align"] c q(1) k by simp_all
  have "unat ((a + calc_alignment a align) mod align) = 0"
    unfolding unat_mod u k(3) using q(3) by simp
  then show "(a + calc_alignment a align) mod align = 0"
    by (simp only: unat_eq_zero)
qed

lemma reader_get_ok:
  assumes "readable s a [(align, bs)]" and "is_power_of_two align" and "align \<le> sz" and "unat sz = length bs"
  shows "\<exists>a'. reader_get align sz s a = Inr (bs, a') \<and> unat a' = layout_end (unat a) [(align, bs)]"
proof -
  define q where "q = round_up_nat (unat a) (unat align)"
  have r: "db_ok s" "\<not> db_closed s" "map (db_memory s) [q..<q + length bs] = bs"
    "q + unat sz \<le> unat (db_logical_size s)"
    using assms(1,4) by (simp_all add: readable_def Let_def q_def)
  note al = aligned_read [OF assms(2,3) r(4) [unfolded q_def]]
  let ?a = "a + calc_alignment a align"
  have "getro s ?a sz = Inr bs"
    using getro_ok [OF r(1,2), of ?a sz] r(3,4) al(3) assms(4) by (simp add: q_def file_bytes_def del: map_eq_conv)
  moreover have "address_add_assign ?a sz = Inr (?a + sz) \<and> unat (?a + sz) = q + length bs"
    using address_add_assign_ok [of ?a sz] r(4) al(3) assms(4) unat_less_64 [of "db_logical_size s"] by (simp add: q_def)
  ultimately show ?thesis
    using al by (simp add: reader_get_def Let_def rbind_def rassert_def getro_typed_def q_def)
qed

lemma round_up_nat_1 [simp]: "round_up_nat p (Suc 0) = p"
  by (simp add: round_up_nat_def)

lemma reader_getn_ok:
  assumes "readable s a [(1, bs)]" and "unat n = length bs"
  shows "reader_getn 1 1 n s a = Inr (bs, a + n) \<and> unat (a + n) = unat a + length bs"
proof -
  have r: "db_ok s" "\<not> db_closed s" "map (db_memory s) [unat a..<unat a + length bs] = bs"
    "unat a + unat n \<le> unat (db_logical_size s)"
    using assms by (simp_all add: readable_def Let_def)
  have "calc_alignment a 1 = 0"
    by (simp add: calc_alignment_def)
  moreover have "getro s a n = Inr bs"
    using getro_ok [OF r(1,2,4)] r(3) assms(2) by (simp add: file_bytes_def del: map_eq_conv)
  ultimately show ?thesis
    using address_add_assign_ok [of a n] address_add_assign_ok [of a 0] r(4) unat_less_64 [of "db_logical_size s"] assms(2)
    by (simp add: reader_getn_def Let_def rbind_def rassert_def)
qed

section \<open>The contract of a serializer\<close>

locale serializer =
  fixes puts :: "'a \<Rightarrow> (u64 \<times> u8 list) list"
    and reads :: "database \<Rightarrow> address \<Rightarrow> exn + 'a \<times> address"
  assumes aligned_puts: "\<forall>(al, bs) \<in> set (puts x). is_power_of_two al"
    and some_bytes: "\<exists>(al, bs) \<in> set (puts x). bs \<noteq> []"
    and read_back: "readable s a (puts x) \<Longrightarrow> \<exists>a'. reads s a = Inr (x, a') \<and> unat a' = layout_end (unat a) (puts x)"

locale pair_serializer = first: serializer puts1 reads1 + second: serializer puts2 reads2
  for puts1 :: "'k \<Rightarrow> (u64 \<times> u8 list) list" and reads1 and puts2 :: "'v \<Rightarrow> (u64 \<times> u8 list) list" and reads2

sublocale pair_serializer \<subseteq> serializer "pair_puts puts1 puts2" "pair_read reads1 reads2"
proof
  fix x :: "'k \<times> 'v" and s :: database and a
  show "\<forall>(al, bs) \<in> set (pair_puts puts1 puts2 x). is_power_of_two al"
    using first.aligned_puts [of "fst x"] second.aligned_puts [of "snd x"] by (auto simp: pair_puts_def)
  show "\<exists>(al, bs) \<in> set (pair_puts puts1 puts2 x). bs \<noteq> []"
    using first.some_bytes [of "fst x"] by (auto simp: pair_puts_def)
  assume r: "readable s a (pair_puts puts1 puts2 x)"
  then have "readable s a (puts1 (fst x))"
    using layout_end_bounds(1) [OF second.aligned_puts, of "layout_end (unat a) (puts1 (fst x))" "snd x"]
    by (simp add: readable_def pair_puts_def laid_out_append layout_end_append)
  then obtain a1 where a1: "reads1 s a = Inr (fst x, a1)" "unat a1 = layout_end (unat a) (puts1 (fst x))"
    using first.read_back by blast
  then have "readable s a1 (puts2 (snd x))"
    using r by (simp add: readable_def pair_puts_def laid_out_append layout_end_append)
  then show "\<exists>a'. pair_read reads1 reads2 s a = Inr (x, a') \<and> unat a' = layout_end (unat a) (pair_puts puts1 puts2 x)"
    using second.read_back [of s a1 "snd x"] a1
    by (auto simp: pair_read_def rbind_def pair_puts_def layout_end_append)
qed

lemma le_bytes_Nil: "le_bytes n w = [] \<longleftrightarrow> n = 0"
  by (simp add: le_bytes_def)

interpretation u64_field: serializer u64_puts u64_read
proof
  fix x a and s :: database assume "readable s a (u64_puts x)"
  then show "\<exists>a'. u64_read s a = Inr (x, a') \<and> unat a' = layout_end (unat a) (u64_puts x)"
    using reader_get_ok [of s a 8 "le_bytes 8 x" 8]
    by (auto simp: u64_read_def u64_puts_def rbind_def is_power_of_two_def)
qed (auto simp: u64_puts_def is_power_of_two_def le_bytes_Nil)

lemma take_drop_halves: "length xs = 8 \<Longrightarrow> take 8 (xs @ ys) = xs" "length xs = 8 \<Longrightarrow> drop 8 (xs @ ys) = ys"
  by simp_all

interpretation uint128_field: serializer uint128_puts uint128_read
proof
  fix x :: uint128 and a and s :: database
  let ?bs = "le_bytes 8 (low_word x) @ le_bytes 8 (high_word x)"
  assume "readable s a (uint128_puts x)"
  then obtain a' where "reader_get 16 16 s a = Inr (?bs, a')" "unat a' = layout_end (unat a) [(16, ?bs)]"
    using reader_get_ok [of s a 16 ?bs 16] by (auto simp: uint128_puts_def is_power_of_two_def)
  moreover have "x = u128 (high_word x) (low_word x)"
    by simp
  ultimately show "\<exists>a'. uint128_read s a = Inr (x, a') \<and> unat a' = layout_end (unat a) (uint128_puts x)"
    by (simp add: uint128_read_def uint128_puts_def rbind_def)
qed (auto simp: uint128_puts_def is_power_of_two_def le_bytes_Nil)

interpretation two_words: pair_serializer u64_puts u64_read u64_puts u64_read
  by unfold_locales

interpretation extent_value: serializer extent_puts extent_read
proof
  have read: "extent_read s a = rbind (pair_read u64_read u64_read s a) (\<lambda>(v, a). Inr (Extent (fst v) (snd v), a))" for s a
    by (simp add: extent_read_def pair_read_def rbind_def case_prod_unfold split: sum.split)
  have puts: "extent_puts x = pair_puts u64_puts u64_puts (ext_addr x, ext_size x)" for x
    by (simp add: extent_puts_def pair_puts_def)
  fix x a and s :: database
  show "\<forall>(al, bs) \<in> set (extent_puts x). is_power_of_two al" "\<exists>(al, bs) \<in> set (extent_puts x). bs \<noteq> []"
    unfolding puts by (rule two_words.aligned_puts two_words.some_bytes)+
  assume "readable s a (extent_puts x)"
  then obtain a' where "pair_read u64_read u64_read s a = Inr ((ext_addr x, ext_size x), a')"
    "unat a' = layout_end (unat a) (extent_puts x)"
    using two_words.read_back [of s a "(ext_addr x, ext_size x)"] puts by metis
  then show "\<exists>a'. extent_read s a = Inr (x, a') \<and> unat a' = layout_end (unat a) (extent_puts x)"
    using read [of s a] by (simp add: rbind_def)
qed

text \<open>The length that precedes a string.\<close>

lemma readable_split: "readable s a ((1, xs @ ys) # ps) \<longleftrightarrow> readable s a ((1, xs) # (1, ys) # ps)"
proof -
  have "[p..<p + length (xs @ ys)] = [p..<p + length xs] @ [p + length xs..<p + length xs + length ys]" for p
    using upt_add_eq_append [of p "p + length xs" "length ys"] by (simp add: add.assoc)
  then show ?thesis
    by (simp add: readable_def Let_def append_eq_append_conv add.assoc del: map_eq_conv)
qed

lemma readable_next:
  assumes "readable s a ((1, bs) # ps)" and "unat a' = unat a + length bs"
  shows "readable s a' ps"
  using assms by (simp add: readable_def Let_def)

lemma readable_first: "readable s a ((1, bs) # ps) \<Longrightarrow> \<forall>(al, bs) \<in> set ps. is_power_of_two al \<Longrightarrow> readable s a [(1, bs)]"
  using layout_end_bounds(1) [of ps "unat a + length bs"] by (auto simp: readable_def Let_def)

lemma string_puts_cases:
  obtains bs where "encode (of_nat (length str)) = Inr bs" "length bs \<in> {1..9}"
    "string_puts str = [(1, if length bs = 1 then bs @ [0] else bs), (1, str)]"
    "\<And>rest. decode_size (bs @ rest) = Inr (length bs)" "\<And>rest. decode_sized (bs @ rest) (length bs) = Inr (of_nat (length str))"
proof -
  obtain bs where bs: "encode (of_nat (length str)) = Inr bs" "length bs \<in> {1..9}"
    using encode_decode by blast
  have d: "decode_size (bs @ rest) = Inr (length bs) \<and> decode (bs @ rest) = Inr (of_nat (length str))" for rest
    using encode_decode [of "of_nat (length str)" rest] bs(1) by auto
  show ?thesis
  proof (rule that [OF bs])
    show "decode_sized (bs @ rest) (length bs) = Inr (of_nat (length str))" for rest
      using d [of rest] by (auto simp: decode_def rbind_def)
  qed (use bs d in \<open>simp_all add: string_puts_def Let_def\<close>)
qed

lemma read_length_ok:
  assumes bs: "length bs \<in> {1..9}" "\<And>rest. decode_size (bs @ rest) = Inr (length bs)"
      "\<And>rest. decode_sized (bs @ rest) (length bs) = Inr n"
    and r: "readable s a [(1, if length bs = 1 then bs @ [0] else bs)]"
  shows "\<exists>a'. read_length s a = Inr (n, a') \<and> unat a' = unat a + max 2 (length bs)"
proof (cases "2 < length bs")
  case False
  define e where "e = (if length bs = 1 then bs @ [0] else bs)"
  have "length e = 2" "\<exists>rest. e = bs @ rest"
    using False bs(1) by (auto simp: e_def)
  then obtain rest where rest: "e = bs @ rest" "length e = 2" by blast
  have "reader_getn 1 1 2 s a = Inr (bs @ rest, a + 2) \<and> unat (a + 2) = unat a + 2"
    using reader_getn_ok [OF r, of 2] rest by (simp add: e_def)
  then show ?thesis
    using bs(1) bs(2,3) [of "rest @ replicate 7 0"] False by (auto simp: read_length_def rbind_def rassert_def)
next
  case True
  have l: "length (take 2 bs) = 2" using True by simp
  have r2: "readable s a [(1, take 2 bs), (1, drop 2 bs)]"
    using r True readable_split [of s a "take 2 bs" "drop 2 bs" "[]"] by simp
  have first: "reader_getn 1 1 2 s a = Inr (take 2 bs, a + 2) \<and> unat (a + 2) = unat a + 2"
    using reader_getn_ok [of s a "take 2 bs" 2] readable_first [OF r2] l by (simp add: is_power_of_two_def)
  define m :: u64 where "m = of_nat (length bs - 2)"
  have m: "unat m = length (drop 2 bs)"
    unfolding m_def unsigned_of_nat using bs(1) take_bit_nat_eq_self [of "length bs - 2" 64] by auto
  have second: "reader_getn 1 1 m s (a + 2) = Inr (drop 2 bs, a + 2 + m) \<and> unat (a + 2 + m) = unat a + length bs"
    using reader_getn_ok [OF readable_next [OF r2, of "a + 2"] m] first l True by auto
  have "decode_size (take 2 bs @ replicate 7 0) = decode_size (bs @ [])"
    using True by (cases bs) (simp_all add: decode_size_def numeral_2_eq_2)
  moreover have "take 2 (take 2 bs @ replicate 7 (0 :: u8)) = take 2 bs"
    using True by simp
  moreover have whole_bs: "take 2 bs @ drop 2 bs @ xs = bs @ xs" for xs
    by (metis append_assoc append_take_drop_id)
  ultimately show ?thesis
    using first second bs(1) bs(2) [of "[]"] bs(3) True by (auto simp: read_length_def rbind_def rassert_def Let_def whole_bs m_def [symmetric] simp del: of_nat_diff)
qed

interpretation string_value: serializer string_puts string_read
proof
  fix str :: "u8 list" and a and s :: database
  obtain bs where bs: "length bs \<in> {1..9}"
    "string_puts str = [(1, if length bs = 1 then bs @ [0] else bs), (1, str)]"
    "\<And>rest. decode_size (bs @ rest) = Inr (length bs)" "\<And>rest. decode_sized (bs @ rest) (length bs) = Inr (of_nat (length str))"
    by (rule string_puts_cases [of str]) blast
  let ?e = "if length bs = 1 then bs @ [0] else bs"
  have e: "length ?e = max 2 (length bs)"
    using bs(1) by auto
  show "\<forall>(al, bs) \<in> set (string_puts str). is_power_of_two al"
    by (simp add: bs(2) is_power_of_two_def)
  show "\<exists>(al, bs) \<in> set (string_puts str). bs \<noteq> []"
    using bs(1) by (auto simp: bs(2))
  assume r: "readable s a (string_puts str)"
  then have "readable s a [(1, ?e)]"
    using readable_first [of s a ?e "[(1, str)]"] by (simp add: bs(2) is_power_of_two_def)
  then obtain a' where a': "read_length s a = Inr (of_nat (length str), a')" "unat a' = unat a + max 2 (length bs)"
    using read_length_ok [OF bs(1,3,4)] by blast
  have str: "readable s a' [(1, str)]"
    by (rule readable_next [OF r [unfolded bs(2)]]) (simp only: a'(2) e)
  then have "length str < 2 ^ 64"
    using unat_less_64 [of "db_logical_size s"] by (simp add: readable_def Let_def)
  then have n: "unat (of_nat (length str) :: u64) = length str"
    by (simp add: unsigned_of_nat take_bit_nat_eq_self)
  show "\<exists>a'. string_read s a = Inr (str, a') \<and> unat a' = layout_end (unat a) (string_puts str)"
    using a' reader_getn_ok [OF str n] e by (simp add: string_read_def rbind_def bs(2))
qed

section \<open>The parameters of an index\<close>

definition make_params ::
  "('k \<Rightarrow> u64) \<Rightarrow> ('k \<Rightarrow> (u64 \<times> u8 list) list) \<Rightarrow> (database \<Rightarrow> address \<Rightarrow> exn + 'k \<times> address)
    \<Rightarrow> ('v \<Rightarrow> (u64 \<times> u8 list) list) \<Rightarrow> (database \<Rightarrow> address \<Rightarrow> exn + 'v \<times> address)
    \<Rightarrow> allocator \<Rightarrow> (u64 \<Rightarrow> nat \<Rightarrow> u64) \<Rightarrow> ('k, 'v) params" where
  "make_params hash puts1 reads1 puts2 reads2 new wide =
     \<lparr>p_hash = hash,
      p_puts = \<lambda>k v. pair_puts puts1 puts2 (k, v),
      p_key = \<lambda>s a. rbind (reads1 s a) (\<lambda>(k, _). Inr k),
      p_load = \<lambda>s a. rbind (pair_read reads1 reads2 s a) (\<lambda>(kv, _). Inr kv),
      p_new = new, p_wide_shift = wide\<rparr>"

context pair_serializer
begin

lemma make_params_ok:
  assumes "allocator_ok new"
  shows "index_params (make_params hash puts1 reads1 puts2 reads2 new wide)"
proof
  let ?P = "make_params hash puts1 reads1 puts2 reads2 new wide"
  have "p_load ?P s a = Inr (k, v) \<and> p_key ?P s a = Inr k" if r: "readable s a (pair_puts puts1 puts2 (k, v))" for s :: database and a k v
  proof -
    have "readable s a (puts1 k)"
      using r layout_end_bounds(1) [OF second.aligned_puts, of "layout_end (unat a) (puts1 k)" v]
      by (simp add: readable_def pair_puts_def laid_out_append layout_end_append)
    then show ?thesis
      using first.read_back [of s a k] read_back [OF r] by (auto simp: make_params_def rbind_def)
  qed
  moreover have "p_puts ?P k v \<noteq> [] \<and> (\<forall>(al, bs) \<in> set (p_puts ?P k v). is_power_of_two al)
      \<and> (\<exists>(al, bs) \<in> set (p_puts ?P k v). bs \<noteq> [])" for k v
    using aligned_puts [of "(k, v)"] some_bytes [of "(k, v)"] by (auto simp: make_params_def)
  ultimately show "codec_ok ?P"
    unfolding codec_ok_def by (simp add: readable_def make_params_def)
  show "allocator_ok (p_new ?P)"
    using assms by (simp add: make_params_def)
qed

end

end
