(* ===== verification/Hamt_Insert.thy ===== *)
theory Hamt_Insert
  imports Hamt_Repr
begin

unbundle bit_operations_syntax

text \<open>
  Insertion into an index: what \<^verbatim>\<open>insert_node\<close> and its helpers make of a represented tree. The
  specification covers the result pointer, the entries, the path that is left in the parent stack,
  the heap (nothing else is touched, nothing leaks) and what happens when memory runs out.
\<close>

declare split_paired_Ex [simp del] split_paired_All [simp del]

section \<open>Changes of the state\<close>

definition grows :: "'z transaction_scheme \<Rightarrow> 'z transaction_scheme \<Rightarrow> bool" where
  "grows s s' \<longleftrightarrow> tx_ok s' \<and> later s s' \<and> db_footer_pos s' = db_footer_pos s
     \<and> db_indices s' = db_indices s \<and> tx_dbsize s' = tx_dbsize s \<and> db_header s' = db_header s"

text \<open>Memory ran out, and everything that was on the heap is as it was.\<close>

definition failed :: "'z transaction_scheme \<Rightarrow> exn \<Rightarrow> 'z transaction_scheme \<Rightarrow> bool" where
  "failed s e s' \<longleftrightarrow> e = Bad_alloc \<and> grows s s' \<and> (\<forall>q. heap s q \<noteq> None \<longrightarrow> heap s' q = heap s q)"

lemma tx_ok_heap [simp]: "tx_ok (s\<lparr>heap := h\<rparr>) = tx_ok s"
  by (simp add: tx_ok_def db_ok_def db_header_def file_bytes_def)

lemma db_header_heap [simp]: "db_header (s\<lparr>heap := h\<rparr>) = db_header s"
  by (simp add: db_header_def file_bytes_def)

lemma grows_heap [simp]: "grows s (s'\<lparr>heap := h\<rparr>) = grows s s'"
  by (simp add: grows_def later_def)

lemma grows_heap_left [simp]: "grows (s\<lparr>heap := h\<rparr>) s' = grows s s'"
  by (simp add: grows_def later_def)

lemma leaf_ok_heap [simp]: "leaf_ok P (s\<lparr>heap := h\<rparr>) e = leaf_ok P s e"
  by (simp add: leaf_ok_def)

lemma grows_refl: "tx_ok s \<Longrightarrow> grows s s"
  by (simp add: grows_def later_refl)

lemma grows_trans: "grows s t \<Longrightarrow> grows t u \<Longrightarrow> grows s u"
  unfolding grows_def using later_trans by metis

lemma growsD: "grows s s' \<Longrightarrow> tx_ok s'" "grows s s' \<Longrightarrow> later s s'"
  by (simp_all add: grows_def)

lemma failed_trans:
  assumes "grows s t" and "\<And>q. heap s q \<noteq> None \<Longrightarrow> heap t q = heap s q" and "failed t e u"
  shows "failed s e u"
  using assms grows_trans [of s t u] by (auto simp: failed_def)

lemma failed_same:
  "grows s t \<Longrightarrow> (\<And>q. heap s q \<noteq> None \<Longrightarrow> heap t q = heap s q) \<Longrightarrow> failed s Bad_alloc t"
  by (simp add: failed_def)

lemma tx_okD: "tx_ok s \<Longrightarrow> db_ok s" "tx_ok s \<Longrightarrow> \<not> db_closed s"
  by (simp_all add: tx_ok_def)

text \<open>There is room for one more entry in the store's address space.\<close>

definition space :: "('k, 'v) params \<Rightarrow> 'z transaction_scheme \<Rightarrow> 'k \<Rightarrow> 'v \<Rightarrow> bool" where
  "space P s k v \<longleftrightarrow> unat (db_logical_size s) + 4 + layout_space (p_puts P k v) \<le> 2 ^ 38"

definition grown :: "('k, 'v) params \<Rightarrow> 'k \<Rightarrow> 'v \<Rightarrow> 'z transaction_scheme \<Rightarrow> 'z transaction_scheme \<Rightarrow> bool" where
  "grown P k v s s' \<longleftrightarrow>
     unat (db_logical_size s') \<le> unat (db_logical_size s) + 4 + layout_space (p_puts P k v)"

lemma grown_heap [simp]:
  "grown P k v s (s'\<lparr>heap := h\<rparr>) = grown P k v s s'" "grown P k v (s\<lparr>heap := h\<rparr>) s' = grown P k v s s'"
  by (simp_all add: grown_def)

lemma grown_refl [simp]: "grown P k v s s"
  by (simp add: grown_def)

section \<open>Rules\<close>

text \<open>The same rules for a precondition that is not applied to a state.\<close>

lemma wp_ext:
  "wp (sret x) Q E = Q x" "wp (sbind m f) Q E = wp m (\<lambda>x. wp (f x) Q E) E"
  by (simp_all add: fun_eq_iff wp_simps)

lemma wp_slift_Inr [wp_simps]: "wp (slift (Inr x)) Q E s = Q x s"
  by (simp add: wp_def slift_def)

lemma wp_push_parent: "length ps < 13 \<Longrightarrow> wp (slift (push_parent n p ps)) Q E s = Q (parent n p # ps) s"
  by (simp add: push_parent_def wp_slift_Inr hamt_constants)

lemma wp_with_unique_ptr:
  "wp (with_unique_ptr p m) Q E s
   = wp m Q (\<lambda>e s'. E e (case p of None \<Rightarrow> s' | Some q \<Rightarrow> s'\<lparr>heap := (heap s')(q := None)\<rparr>)) s"
  by (simp add: wp_def with_unique_ptr_def split: prod.splits sum.splits)

lemma wp_heap_put [wp_simps]:
  "wp (heap_put p n) Q E s = Q () (s\<lparr>heap := (heap s)(p \<mapsto> n)\<rparr>)"
  by (simp add: heap_put_def wp_smodify)

context index_params
begin

lemma wp_heap_new:
  assumes "\<And>p. heap s p = None \<Longrightarrow> p \<noteq> 0 \<Longrightarrow> p AND 3 = 0 \<Longrightarrow> Q p (s\<lparr>heap := (heap s)(p \<mapsto> n)\<rparr>)"
    and "E Bad_alloc s"
  shows "wp (heap_new (p_new P) bytes n) Q E s"
  using assms new_ok by (auto simp: wp_def heap_new_def allocator_ok_def split: option.splits)

lemma wp_internal_allocate:
  assumes "\<And>p. heap s p = None \<Longrightarrow> p \<noteq> 0 \<Longrightarrow> p AND 3 = 0 \<Longrightarrow>
      Q p (s\<lparr>heap := (heap s)(p \<mapsto> Heap_internal n)\<rparr>)"
    and "E Bad_alloc s"
  shows "wp (internal_allocate (p_new P) n) Q E s"
  using assms
  by (auto simp: internal_allocate_def internal_size_bytes_def rbind_def rassert_def hamt_constants
      wp_sbind wp_slift_Inr intro!: wp_heap_new)

lemma wp_linear_allocate:
  assumes "\<And>p. heap s p = None \<Longrightarrow> p \<noteq> 0 \<Longrightarrow> p AND 3 = 0 \<Longrightarrow>
      Q p (s\<lparr>heap := (heap s)(p \<mapsto> Heap_linear n)\<rparr>)"
    and "E Bad_alloc s"
  shows "wp (linear_allocate (p_new P) n) Q E s"
  using assms by (auto simp: linear_allocate_def intro!: wp_heap_new)

lemma and_3_dvd: "(a::u64) AND 3 = 0 \<longleftrightarrow> 4 dvd unat a"
proof -
  have "a AND 3 = take_bit 2 a"
    by (simp add: take_bit_eq_mask mask_eq_exp_minus_1)
  then have "unat (a AND 3) = take_bit 2 (unat a)"
    by (simp only: unsigned_take_bit_eq)
  then have "unat (a AND 3) = unat a mod 4"
    by (simp only: take_bit_eq_mod) simp
  then show ?thesis
    by (metis dvd_eq_mod_eq_0 unat_eq_zero)
qed

lemma round_up_4:
  assumes "4 dvd n" and "is_power_of_two al"
  shows "4 dvd round_up_nat n (unat (al::u64))"
proof -
  obtain k where k: "unat al = 2 ^ k"
    using assms(2) by (auto simp: is_power_of_two_iff unat_one_bit)
  show ?thesis
  proof (cases "2 \<le> k")
    case True
    then have "(2::nat) ^ 2 dvd 2 ^ k" by (rule le_imp_power_dvd)
    then have "4 dvd unat al" by (simp add: k)
    then show ?thesis
      using round_up_nat_spec(3) [of "unat al" n] power_of_two_pos [OF assms(2)] dvd_trans by blast
  next
    case False
    then have "(2::nat) ^ k dvd 2 ^ 2" by (intro le_imp_power_dvd) simp
    then have "unat al dvd n"
      using assms(1) dvd_trans by (simp add: k)
    then show ?thesis
      using assms(1) by (simp add: round_up_nat_fixed k)
  qed
qed

lemma laid_out_aligned:
  fixes p :: nat and ps :: "(u64 \<times> u8 list) list"
  assumes "ps \<noteq> []" and "is_power_of_two (fst (hd ps))"
  defines "q \<equiv> round_up_nat p (unat (fst (hd ps)))"
  shows "laid_out m q ps = laid_out m p ps" and "layout_end q ps = layout_end p ps"
proof -
  obtain al bs rest where ps: "ps = (al, bs) # rest"
    using assms(1) by (cases ps) auto
  have "round_up_nat q (unat al) = q"
    using power_of_two_pos [OF assms(2)] round_up_nat_spec(3) [of "unat al" p]
    by (simp add: q_def ps round_up_nat_fixed)
  then show "laid_out m q ps = laid_out m p ps" "layout_end q ps = layout_end p ps"
    by (simp_all add: ps q_def)
qed

lemma store_leaf_ok:
  assumes ok: "tx_ok s" and sp: "space P s k v" and ps: "length ps < 13"
  shows "\<exists>a s'. store_leaf_node P k v ps s = (Inr (a, parent a not_found # ps), s')
    \<and> grows s s' \<and> heap s' = heap s \<and> leaf_ok P s' (a, k, v) \<and> grown P k v s s'"
proof -
  let ?puts = "p_puts P k v" and ?al = "fst (hd (p_puts P k v))"
  have p4: "is_power_of_two (4::u64)"
    using is_power_of_two_iff [of "4::u64"] by (auto simp: one_bit_def intro!: exI [of _ 2])
  obtain a0 s1 where s1: "tx_allocate 0 4 s = (Inr a0, s1)" "tx_ok s1" "heap s1 = heap s"
    "unat a0 = round_up_nat (unat (db_logical_size s)) 4" "unat (db_logical_size s1) = unat a0"
    "db_memory s1 = db_memory s" "db_footer_pos s1 = db_footer_pos s" "db_indices s1 = db_indices s"
    "tx_dbsize s1 = tx_dbsize s"
    using tx_allocate_ok [OF ok p4, of 0] sp by (auto simp: space_def)
  have r: "unat (db_logical_size s) \<le> unat a0" "unat a0 < unat (db_logical_size s) + 4" "4 dvd unat a0"
    using round_up_nat_spec [of 4 "unat (db_logical_size s)"] s1(4) by simp_all
  have "unat (db_logical_size s1) + layout_space ?puts \<le> 2 ^ 38"
    using sp r s1(5) by (simp add: space_def)
  then obtain b s2 where s2: "put_all tx_put ?puts s1 = (Inr (Some b), s2)" "tx_ok s2" "tx_keep s2 = tx_keep s1"
    "unat b = round_up_nat (unat a0) (unat ?al)" "unat (db_logical_size s2) = layout_end (unat a0) ?puts"
    "laid_out (db_memory s2) (unat a0) ?puts" "\<forall>i < unat a0. db_memory s2 i = db_memory s1 i"
    using txs.put_all_ok [OF s1(2) puts_ok(2), of k v] puts_ok(1) [of k v] s1(5) by auto
  have al: "is_power_of_two ?al"
    using puts_ok [of k v] by (cases ?puts) auto
  have b4: "b AND 3 = 0"
    using round_up_4 [OF r(3) al] s2(4) by (simp add: and_3_dvd)
  have b_ge: "unat a0 \<le> unat b"
    using s2(4) round_up_nat_spec(1) [of "unat ?al"] power_of_two_pos [OF al] by simp
  have lay: "laid_out m (unat b) ?puts = laid_out m (unat a0) ?puts"
    "layout_end (unat b) ?puts = layout_end (unat a0) ?puts" for m
    using laid_out_aligned [OF puts_ok(1) al] s2(4) by simp_all
  have "64 \<le> unat (db_logical_size s)"
    using tx_okD(1) [OF ok] by (simp add: db_ok_def leader_size_def)
  then have leaf: "leaf_ok P s2 (b, k, v)"
    using b4 r(1) b_ge s2(4-6) lay by (simp add: leaf_ok_def)
  have "unat a0 \<le> unat (db_logical_size s2)"
    using s2(5) layout_end_bounds(1) [OF puts_ok(2), of "unat a0" k v] by simp
  then have "grows s s2"
    using s1 s2 r(1) db_header_cong [of s1 s] by (auto simp: grows_def later_def tx_keep_def)
  moreover have "store_leaf_node P k v ps s = (Inr (b, parent b not_found # ps), s2)"
    using s1(1) s2(1) b4 ps
    by (simp add: store_leaf_node_def run_simps slift_def push_parent_def hamt_constants)
  moreover have "heap s2 = heap s"
    using s2(3) s1(3) by (simp add: tx_keep_def)
  moreover have "grown P k v s s2"
    using s2(5) layout_end_bounds(2) [OF puts_ok(2), of "unat a0" k v] r(2) by (simp add: grown_def)
  ultimately show ?thesis
    using leaf by auto
qed

lemma wp_store_leaf:
  assumes "tx_ok s" and "space P s k v" and "length ps < 13"
    and "\<And>a s'. grows s s' \<Longrightarrow> heap s' = heap s \<Longrightarrow> leaf_ok P s' (a, k, v) \<Longrightarrow> grown P k v s s' \<Longrightarrow>
      Q (a, parent a not_found # ps) s'"
  shows "wp (store_leaf_node P k v ps) Q E s"
  using store_leaf_ok [OF assms(1-3)] assms(4) by (auto simp: wp_def)

end

section \<open>The specification of insertion\<close>

text \<open>
  The heap before and after: nodes outside of the tree are untouched, the tree's new nodes are new,
  and the nodes on the heap are those that are not the old tree's and those of the new tree, but
  for the old root when it was replaced, which is for the caller to delete.
\<close>

definition heap_moves :: "'z mem_scheme \<Rightarrow> nat \<Rightarrow> ('k, 'v) tree \<Rightarrow> 'z mem_scheme \<Rightarrow> ('k, 'v) tree \<Rightarrow> bool" where
  "heap_moves s d t s' t' \<longleftrightarrow>
     (\<forall>q. heap s q \<noteq> None \<longrightarrow> q \<notin> set (hptrs t) \<longrightarrow> heap s' q = heap s q)
     \<and> (\<forall>q \<in> set (hptrs t'). q \<in> set (hptrs t) \<or> heap s q = None)
     \<and> dom (heap s') = (dom (heap s) - set (hptrs t)) \<union> set (hptrs t')
         \<union> (if tptr t' = tptr t then {} else set (roots (tptr t)))
     \<and> (tptr t' \<noteq> tptr t \<longrightarrow> is_heap (tptr t) \<longrightarrow>
          d = 66 \<and> (\<exists>n. heap s' (untag (tptr t)) = Some (Heap_linear n)) \<and> untag (tptr t) \<notin> set (hptrs t'))"

definition tree_ok :: "('k, 'v) params \<Rightarrow> 'z database_scheme \<Rightarrow> nat \<Rightarrow> ('k, 'v) tree \<Rightarrow> bool" where
  "tree_ok P s d t \<longleftrightarrow> repr P s d t \<and> distinct (hptrs t) \<and> 6 dvd d \<and> d \<le> 66"

definition inserted ::
  "('k, 'v) params \<Rightarrow> 'z transaction_scheme \<Rightarrow> nat \<Rightarrow> ('k, 'v) tree \<Rightarrow> 'k \<Rightarrow> 'v \<Rightarrow> bool
    \<Rightarrow> index_pointer \<Rightarrow> bool \<Rightarrow> parent_stack \<Rightarrow> 'z transaction_scheme \<Rightarrow> ('k, 'v) tree \<Rightarrow> u64 \<times> 'k \<times> 'v \<Rightarrow> bool" where
  "inserted P s d t k v upsert p existed ps s' t' e \<longleftrightarrow>
     tree_ok P s' d t' \<and> grows s s' \<and> grown P k v s s' \<and> heap_moves s d t s' t' \<and> p = tptr t' \<and> (ps, e) \<in> set (paths t')
     \<and> (existed \<longleftrightarrow> k \<in> set (keys t)) \<and> ekey e = k \<and> (existed \<longrightarrow> is_leaf (tptr t) \<longrightarrow> is_leaf p)
     \<and> set (entries t') = insert e {e \<in> set (entries t). ekey e \<noteq> k}
     \<and> (if existed \<and> \<not> upsert then e \<in> set (entries t) else snd (snd e) = v)"

context index_params
begin

lemma tree_ok_grows:
  assumes "tree_ok P s d t" and "grows s s'" and "\<And>q. q \<in> set (hptrs t) \<Longrightarrow> heap s' q = heap s q"
  shows "tree_ok P s' d t"
  using assms repr_later [of s s' t d] by (auto simp: tree_ok_def growsD)

lemma tree_ok_leaf: "leaf_ok P s (a, k, v) \<Longrightarrow> 6 dvd d \<Longrightarrow> d \<le> 66 \<Longrightarrow> tree_ok P s d (Leaf a k v)"
  by (simp add: tree_ok_def)

lemma leaf_ok_pointer: "leaf_ok P s (a, k, v) \<Longrightarrow> is_leaf a" "leaf_ok P s (a, k, v) \<Longrightarrow> \<not> is_heap a"
  by (auto simp: leaf_ok_def leaf_pointer)

lemma inode_tree_ok:
  assumes "p AND 3 = 0" and "heap s p = Some (Heap_internal (inode b (map tptr ts)))"
    and "d < 66" and "6 dvd d" and "b \<noteq> 0" and "length ts = pop_count b"
    and "\<And>i k. i < length ts \<Longrightarrow> k \<in> set (keys (ts ! i)) \<Longrightarrow> hslice d (p_hash P k) = positions b ! i"
    and "\<And>t. t \<in> set ts \<Longrightarrow> tree_ok P s (d + 6) t" and "distinct (p # concat (map hptrs ts))"
  shows "tree_ok P s d (Inode (tag p) b ts)"
  using assms by (auto simp: tree_ok_def internal_ok_def untag_tag roots_def)

lemma roots_tag: "p AND 3 = 0 \<Longrightarrow> roots (tag p) = [p]"
  by (simp add: roots_def untag_tag)

lemma heap_moves_leaf:
  assumes "\<not> is_heap a"
  shows "heap_moves s d (Leaf a k v) s' t' \<longleftrightarrow>
    (\<forall>q. heap s q \<noteq> None \<longrightarrow> heap s' q = heap s q) \<and> (\<forall>q \<in> set (hptrs t'). heap s q = None)
    \<and> dom (heap s') = dom (heap s) \<union> set (hptrs t')"
  using assms by (auto simp: heap_moves_def roots_def)

text \<open>A single child.\<close>

lemma insert_single:
  assumes ins: "inserted P s (d + 6) (Leaf a ek ev) k v u (tptr t) False ps s' t e"
    and p: "p AND 3 = 0" "heap s' p = None" and d: "6 dvd d" "d < 66"
    and sl: "hslice d (p_hash P k) = j" "hslice d (p_hash P ek) = j" "j < 64" and lf: "leaf_ok P s (a, ek, ev)"
  defines "s2 \<equiv> s'\<lparr>heap := (heap s')(p \<mapsto> Heap_internal (inode (one_bit j) [tptr t]))\<rparr>"
  shows "inserted P s d (Leaf a ek ev) k v u (tag p) False (parent (tag p) 0 # ps) s2
    (Inode (tag p) (one_bit j) [t]) e"
proof -
  have t: "tree_ok P s' (d + 6) t" "set (entries t) = insert e {e \<in> {(a, ek, ev)}. ekey e \<noteq> k}" "ekey e = k"
    and hm: "heap_moves s (d + 6) (Leaf a ek ev) s' t" and g: "grows s s'"
    using ins by (auto simp: inserted_def)
  have dom: "set (hptrs t) \<subseteq> dom (heap s')"
    using t(1) repr_hptrs_dom by (fastforce simp: tree_ok_def)
  have fresh: "p \<notin> set (hptrs t)"
    using dom p(2) by auto
  have ok: "tree_ok P s2 (d + 6) t"
    using fresh g by (intro tree_ok_grows [OF t(1)]) (auto simp: s2_def grows_refl growsD)
  have "pop_count (one_bit j :: u64) = 1" "positions (one_bit j :: u64) = [j]"
    using positions_single [of j, where 'a = 64] sl(3) by (simp_all add: pop_count_def)
  moreover have "(one_bit j :: u64) \<noteq> 0"
    using sl(3) by (simp add: one_bit_neq_0)
  ultimately have "tree_ok P s2 d (Inode (tag p) (one_bit j) [t])"
    using p d sl t ok fresh by (intro inode_tree_ok) (auto simp: s2_def tree_ok_def)
  moreover have "heap_moves s d (Leaf a ek ev) s2 (Inode (tag p) (one_bit j) [t])"
    using hm p unfolding heap_moves_leaf [OF leaf_ok_pointer(2) [OF lf]] by (auto simp: s2_def roots_tag)
  ultimately show ?thesis
    using ins g by (auto simp: inserted_def s2_def paths_Inode)
qed

lemma positions_two:
  assumes "i < 64" and "j < 64" and "i < j"
  shows "positions (one_bit i OR one_bit j :: u64) = [i, j]" "positions (one_bit j OR one_bit i :: u64) = [i, j]"
proof -
  have b: "\<not> bit (one_bit i :: u64) j"
    using assms by (simp add: bit_one_shift)
  have "index_below (one_bit i :: u64) j = 1"
    using assms positions_single [of i, where 'a = 64] by (simp add: index_below_def pop_count_below)
  then show "positions (one_bit i OR one_bit j :: u64) = [i, j]"
    using positions_insert(1) [of j "one_bit i :: u64"] b assms positions_single [of i, where 'a = 64] by simp
  then show "positions (one_bit j OR one_bit i :: u64) = [i, j]"
    by (simp add: or.commute)
qed

lemma hslice_unat: "hslice d h = unat (drop_bit d h AND hash_index_mask)" "hslice d h < 64"
  using hash_index_less(2) by (simp_all add: hslice_def)

text \<open>Two leaves.\<close>

lemma insert_pair:
  assumes g: "grows s s'" and hp: "heap s' = heap s" and d: "6 dvd d" "d < 66" and ne: "ek \<noteq> k"
    and lf: "leaf_ok P s (a, ek, ev)" "leaf_ok P s' (b, k, v)" and p: "p AND 3 = 0" "heap s p = None"
    and sl: "hslice d (p_hash P k) \<noteq> hslice d (p_hash P ek)" and gr: "grown P k v s s'"
  defines "oh \<equiv> drop_bit d (p_hash P ek) AND hash_index_mask" and "nh \<equiv> drop_bit d (p_hash P k) AND hash_index_mask"
  defines "s2 \<equiv> s'\<lparr>heap := (heap s)(p \<mapsto> Heap_internal (internal_node2 a b oh nh))\<rparr>"
  shows "\<exists>t' e. inserted P s d (Leaf a ek ev) k v u (tag p) False
    [parent (tag p) (get_new_index nh oh), parent b not_found] s2 t' e"
proof -
  let ?o = "hslice d (p_hash P ek)" and ?n = "hslice d (p_hash P k)"
  let ?bm = "one_bit ?o OR one_bit ?n :: u64"
  let ?ts = "if ?o < ?n then [Leaf a ek ev, Leaf b k v] else [Leaf b k v, Leaf a ek ev]"
  have lt: "?o < 64" "?n < 64"
    by (rule hslice_unat)+
  have un: "unat oh = ?o" "unat nh = ?n"
    by (simp_all add: oh_def nh_def hslice_unat)
  have idx: "get_new_index nh oh = (if ?o < ?n then 1 else 0)"
    using sl by (auto simp: get_new_index_def word_le_nat_alt un)
  have node: "internal_node2 a b oh nh = inode ?bm (map tptr ?ts)"
    by (simp add: internal_node2_def idx un)
  have pos: "positions ?bm = (if ?o < ?n then [?o, ?n] else [?n, ?o])"
    using positions_two [of ?o ?n] positions_two [of ?n ?o] lt sl by auto
  then have bm: "?bm \<noteq> 0" "pop_count ?bm = 2"
    by (auto simp: pop_count_def simp flip: positions_eq_Nil_iff split: if_splits)
  have lf': "leaf_ok P s2 (a, ek, ev)" "leaf_ok P s2 (b, k, v)"
    using lf leaf_ok_later [OF growsD(2) [OF g]] leaf_ok_later [of s' s2] by (auto simp: s2_def later_def)
  have "tree_ok P s2 d (Inode (tag p) ?bm ?ts)"
    using p d bm lf' node
    by (intro inode_tree_ok) (auto simp: s2_def pos less_Suc_eq numeral_2_eq_2 intro!: tree_ok_leaf elim!: dvdE)
  moreover have "heap_moves s d (Leaf a ek ev) s2 (Inode (tag p) ?bm ?ts)"
    using p hp unfolding heap_moves_leaf [OF leaf_ok_pointer(2) [OF lf(1)]] by (auto simp: s2_def roots_tag)
  moreover have "([parent (tag p) (get_new_index nh oh), parent b not_found], (b, k, v))
      \<in> set (paths (Inode (tag p) ?bm ?ts))"
    unfolding paths_Inode idx by (auto intro: exI [of _ 0] exI [of _ "Suc 0"])
  ultimately have "inserted P s d (Leaf a ek ev) k v u (tag p) False
      [parent (tag p) (get_new_index nh oh), parent b not_found] s2 (Inode (tag p) ?bm ?ts) (b, k, v)"
    using g gr ne by (auto simp: inserted_def s2_def)
  then show ?thesis
    by blast
qed

lemma insert_linear_pair:
  assumes g: "grows s s'" and hp: "heap s' = heap s" and ne: "ek \<noteq> k"
    and lf: "leaf_ok P s (a, ek, ev)" "leaf_ok P s' (b, k, v)" and p: "p AND 3 = 0" "heap s p = None"
    and gr: "grown P k v s s'"
  defines "s2 \<equiv> s'\<lparr>heap := (heap s)(p \<mapsto> Heap_linear (linear_node2 a b))\<rparr>"
  shows "\<exists>t' e. inserted P s 66 (Leaf a ek ev) k v u (tag p) False [parent (tag p) 1, parent b not_found] s2 t' e"
proof -
  have lf': "leaf_ok P s2 (a, ek, ev)" "leaf_ok P s2 (b, k, v)"
    using lf leaf_ok_later [OF growsD(2) [OF g]] leaf_ok_later [of s' s2] by (auto simp: s2_def later_def)
  have "linear_node2 a b = lnode [a, b]"
    by (simp add: linear_node2_def linear_node_init_def numeral_2_eq_2)
  then have "tree_ok P s2 66 (Lnode (tag p) [(a, ek, ev), (b, k, v)])"
    using p ne lf' by (auto simp: tree_ok_def linear_ok_def s2_def untag_tag roots_tag)
  moreover have "heap_moves s 66 (Leaf a ek ev) s2 (Lnode (tag p) [(a, ek, ev), (b, k, v)])"
    using p hp unfolding heap_moves_leaf [OF leaf_ok_pointer(2) [OF lf(1)]] by (auto simp: s2_def roots_tag)
  ultimately have "inserted P s 66 (Leaf a ek ev) k v u (tag p) False [parent (tag p) 1, parent b not_found] s2
      (Lnode (tag p) [(a, ek, ev), (b, k, v)]) (b, k, v)"
    using g gr ne by (auto simp: inserted_def s2_def paths_Lnode intro!: exI [of _ "Suc 0"])
  then show ?thesis
    by blast
qed

lemma paths_length:
  "inserted P s d t k v u p x ps s' t' e \<Longrightarrow> length ps \<le> (66 - d) div 6 + 2"
  using repr_depth [of s' d t' ps e] by (simp add: inserted_def tree_ok_def)

lemma inserted_grows: "inserted P s d t k v u p x ps s' t' e \<Longrightarrow> grows s s'"
  by (simp add: inserted_def)

lemma inserted_pointer: "inserted P s d t k v u p x ps s' t' e \<Longrightarrow> p = tptr t'"
  by (simp add: inserted_def)

lemma inserted_leaf_frame:
  "inserted P s d (Leaf a ek ev) k v u p x ps s' t' e \<Longrightarrow> heap s q \<noteq> None \<Longrightarrow> heap s' q = heap s q"
  by (auto simp: inserted_def heap_moves_def)

lemma drop_drop_hash: "drop_bit 6 (drop_bit d h) = drop_bit (d + 6) (h::u64)"
  by (simp add: add.commute)

lemma insert_into_leaf_ok:
  assumes "tx_ok s" and "leaf_ok P s (a, ek, ev)" and "ek \<noteq> k" and "space P s k v"
    and "6 dvd d" and "d \<le> 66" and "d < 66 \<Longrightarrow> eh = drop_bit d (p_hash P ek)" and "h = drop_bit d (p_hash P k)"
  shows "wp (insert_into_leaf P a k v eh h d [])
    (\<lambda>(p, ps) s'. \<exists>t' e. inserted P s d (Leaf a ek ev) k v u p False ps s' t' e) (failed s) s"
  using assms(5-8)
proof (induction "66 - d" arbitrary: d eh h rule: less_induct)
  case less
  let ?Q = "\<lambda>(p, ps) s'. \<exists>t' e. inserted P s d (Leaf a ek ev) k v u p False ps s' t' e"
  let ?nh = "h AND hash_index_mask" and ?oh = "eh AND hash_index_mask"
  note leaf = wp_store_leaf [OF assms(1,4), of "[]"]
  show ?case
  proof (cases "d < 66")
    case False
    then have d: "d = 66" using less.prems by simp
    show ?thesis
      unfolding insert_into_leaf.simps [of P a k v eh h d] using d
      by (auto simp: depth_is_internal_node_iff wp_simps wp_push_parent failed_same
          intro!: leaf wp_linear_allocate insert_linear_pair [OF _ _ assms(3,2)])
  next
    case d: True
    then have hs: "unat ?nh = hslice d (p_hash P k)" "unat ?oh = hslice d (p_hash P ek)"
      "?nh = drop_bit d (p_hash P k) AND hash_index_mask" "?oh = drop_bit d (p_hash P ek) AND hash_index_mask"
      using less.prems by (simp_all add: hslice_unat)
    show ?thesis
    proof (cases "?nh = ?oh")
      case False
      then have sl: "hslice d (p_hash P k) \<noteq> hslice d (p_hash P ek)"
        using hs by (metis word_unat_eq_iff)
      show ?thesis
        unfolding insert_into_leaf.simps [of P a k v eh h d] using d False
        by (auto simp: depth_is_internal_node_iff wp_simps wp_push_parent failed_same Let_def hs(3,4)
            intro!: leaf wp_internal_allocate insert_pair [OF _ _ less.prems(1) d assms(3,2) _ _ _ sl])
    next
      case True
      have d60: "d \<le> 60" "66 - (d + 6) < 66 - d"
        using less.prems(1) d by (auto elim!: dvdE)
      have j: "hslice d (p_hash P k) = hslice d (p_hash P ek)" "unat ?oh < 64"
        using True hs hash_index_less(2) by metis+
      have rec: "wp (insert_into_leaf P a k v (drop_bit 6 eh) (drop_bit 6 h) (d + 6) [])
        (\<lambda>(p, ps) s'. \<exists>t' e. inserted P s (d + 6) (Leaf a ek ev) k v u p False ps s' t' e) (failed s) s"
        using less.prems d60 by (intro less.hyps) (simp_all add: add.commute)
      have step: "wp (internal_allocate (p_new P) (internal_node1 p ?oh))
          (\<lambda>q. wp (sbind (slift (push_parent (tag q) 0 ps)) (\<lambda>ps. sret (tag q, ps))) ?Q (failed s)) (failed s) s'"
        if ins: "inserted P s (d + 6) (Leaf a ek ev) k v u p False ps s' t' e" for p ps s' t' e
      proof (rule wp_internal_allocate)
        show "failed s Bad_alloc s'"
          using inserted_grows [OF ins] inserted_leaf_frame [OF ins] by (intro failed_same) auto
        fix q assume q: "heap s' q = None" "q AND 3 = 0"
        have "length ps < 13"
          using paths_length [OF ins] by simp
        moreover have "inserted P s d (Leaf a ek ev) k v u (tag q) False (parent (tag q) 0 # ps)
          (s'\<lparr>heap := (heap s')(q \<mapsto> Heap_internal (internal_node1 p ?oh))\<rparr>) (Inode (tag q) (one_bit (unat ?oh)) [t']) e"
          using insert_single [OF _ q(2,1) less.prems(1) d _ _ _ assms(2), of k v u t' ps e "unat ?oh"]
            ins inserted_pointer [OF ins] j hs by (simp add: internal_node1_def)
        ultimately show "wp (sbind (slift (push_parent (tag q) 0 ps)) (\<lambda>ps. sret (tag q, ps))) ?Q (failed s)
            (s'\<lparr>heap := (heap s')(q \<mapsto> Heap_internal (internal_node1 p ?oh))\<rparr>)"
          by (auto simp: wp_simps wp_push_parent)
      qed
      show ?thesis
        unfolding insert_into_leaf.simps [of P a k v eh h d]
        using d True
        by (auto simp: depth_is_internal_node_iff wp_simps Let_def hash_index_bits_eq
            intro!: wp_call [OF rec] step)
    qed
  qed
qed

lemma set_update_key:
  assumes "distinct (map ekey es)" and "i < length es" and "ekey (es ! i) = k"
  shows "set (es[i := e]) = insert e {e \<in> set es. ekey e \<noteq> k}"
proof -
  obtain as x bs where es: "es = as @ x # bs" "length as = i"
    using split_at_index [OF assms(2)] by metis
  have x: "ekey x = k"
    using assms(3) es by auto
  have "ekey y \<noteq> k" if "y \<in> set as \<union> set bs" for y
    using assms(1) x that imageI [of y _ ekey] unfolding es(1) by fastforce
  moreover have "es[i := e] = as @ e # bs"
    using es by auto
  ultimately show ?thesis
    using x unfolding es(1) by auto
qed

lemma keys_update: "i < length es \<Longrightarrow> ekey (es ! i) = k \<Longrightarrow> ekey e = k \<Longrightarrow> map ekey (es[i := e]) = map ekey es"
  by (metis list_update_id map_update nth_map)

lemma linear_grown: "linear_allocate_node (Suc (length as)) (lnode as) = lnode (as @ [0])"
  by (simp add: linear_allocate_node_def linear_node_init_def Let_def replicate_append_same [symmetric])

lemma linear_last: "(as @ [0])[length as := a] = as @ [a]"
  by simp

lemma linear_copy: "linear_allocate_node (length as) (lnode as) = lnode as"
  by (simp add: linear_allocate_node_def linear_node_init_def Let_def)

text \<open>An entry is added to a linear node, in a new node.\<close>

lemma inserted_linear_new:
  assumes t: "tree_ok P s 66 (Lnode p es)" and k: "k \<notin> ekey ` set es" and q: "heap s q = None" "q AND 3 = 0"
    and g: "grows s s'" and lf: "leaf_ok P s' (b, k, v)"
    and hp: "heap s' = (heap s)(q \<mapsto> Heap_linear (lnode (map fst es @ [b])))" and gr: "grown P k v s s'"
  shows "\<exists>t' e. inserted P s 66 (Lnode p es) k v u (tag q) False
    [parent (tag q) (of_nat (length es)), parent b not_found] s' t' e"
proof -
  have ok: "linear_ok s p (map fst es)" "distinct (map ekey es)" "\<forall>e \<in> set es. leaf_ok P s e"
    using t by (auto simp: tree_ok_def)
  have "\<forall>e \<in> set es. leaf_ok P s' e"
    using ok(3) leaf_ok_later [OF growsD(2) [OF g]] by blast
  then have "tree_ok P s' 66 (Lnode (tag q) (es @ [(b, k, v)]))"
    using ok(2) k lf q hp by (auto simp: tree_ok_def linear_ok_def untag_tag roots_tag)
  moreover have "tag q \<noteq> p"
    using ok(1) q by (auto simp: linear_ok_def untag_tag)
  then have "heap_moves s 66 (Lnode p es) s' (Lnode (tag q) (es @ [(b, k, v)]))"
    using ok(1) q hp by (auto simp: heap_moves_def roots_tag roots_heap linear_ok_def)
  moreover have "{e \<in> set es. ekey e \<noteq> k} = set es"
    using k by auto
  ultimately have "inserted P s 66 (Lnode p es) k v u (tag q) False
      [parent (tag q) (of_nat (length es)), parent b not_found] s' (Lnode (tag q) (es @ [(b, k, v)])) (b, k, v)"
    using g gr k by (auto simp: inserted_def paths_Lnode nth_append)
  then show ?thesis
    by blast
qed

text \<open>The entry of a key is replaced, in place or in a copy of the node.\<close>

lemma inserted_linear_update:
  assumes t: "tree_ok P s 66 (Lnode p es)" and i: "i < length es" "ekey (es ! i) = k"
    and q: "q AND 3 = 0" and pq: "if is_heap p then p = tag q else heap s q = None"
    and g: "grows s s'" and lf: "leaf_ok P s' (b, k, v)"
    and hp: "heap s' = (heap s)(q \<mapsto> Heap_linear (lnode ((map fst es)[i := b])))" and gr: "grown P k v s s'"
  shows "\<exists>t' e. inserted P s 66 (Lnode p es) k v True (tag q) True
    [parent (tag q) (of_nat i), parent b not_found] s' t' e"
proof -
  have ok: "linear_ok s p (map fst es)" "distinct (map ekey es)" "\<forall>e \<in> set es. leaf_ok P s e"
    using t by (auto simp: tree_ok_def)
  have es: "set (es[i := (b, k, v)]) = insert (b, k, v) {e \<in> set es. ekey e \<noteq> k}"
    by (rule set_update_key [OF ok(2) i])
  have "\<forall>e \<in> set (es[i := (b, k, v)]). leaf_ok P s' e"
    using ok(3) leaf_ok_later [OF growsD(2) [OF g]] lf unfolding es by blast
  moreover have "map ekey (es[i := (b, k, v)]) = map ekey es"
    using i by (intro keys_update) auto
  moreover have "map fst (es[i := (b, k, v)]) = (map fst es)[i := b]"
    by (simp add: map_update)
  ultimately have "tree_ok P s' 66 (Lnode (tag q) (es[i := (b, k, v)]))"
    using ok(2) i q hp by (auto simp: tree_ok_def linear_ok_def untag_tag roots_tag)
  moreover have "heap_moves s 66 (Lnode p es) s' (Lnode (tag q) (es[i := (b, k, v)]))"
    using ok(1) q hp pq by (cases "is_heap p") (auto simp: heap_moves_def roots_tag roots_heap linear_ok_def untag_tag)
  moreover have "k \<in> ekey ` set es"
    using i by (metis image_eqI nth_mem)
  ultimately have "inserted P s 66 (Lnode p es) k v True (tag q) True
      [parent (tag q) (of_nat i), parent b not_found] s' (Lnode (tag q) (es[i := (b, k, v)])) (b, k, v)"
    using g gr i es ok(1) by (auto simp: inserted_def paths_Lnode linear_ok_def is_leaf_def)
  then show ?thesis
    by blast
qed

lemma inserted_linear_same:
  assumes t: "tree_ok P s 66 (Lnode p es)" and i: "i < length es" "ekey (es ! i) = k" and ok: "tx_ok s"
  shows "inserted P s 66 (Lnode p es) k v False p True
    [parent p (of_nat i), parent (fst (es ! i)) not_found] s (Lnode p es) (es ! i)"
proof -
  have "set (es[i := es ! i]) = insert (es ! i) {e \<in> set es. ekey e \<noteq> k}"
    using t i by (intro set_update_key) (auto simp: tree_ok_def)
  then have "set es = insert (es ! i) {e \<in> set es. ekey e \<noteq> k}"
    by simp
  moreover have "heap_moves s 66 (Lnode p es) s (Lnode p es)"
    using t by (auto simp: heap_moves_def roots_heap tree_ok_def linear_ok_def)
  moreover have "k \<in> ekey ` set es"
    using i by (metis image_eqI nth_mem)
  ultimately show ?thesis
    using t i ok by (auto simp: inserted_def paths_Lnode grows_refl)
qed

lemma grows_space: "db_logical_size s' = db_logical_size s \<Longrightarrow> space P s' k v = space P s k v"
  by (simp add: space_def)

lemma wp_sread_heap_linear [wp_simps]:
  "heap s p = Some (Heap_linear n) \<Longrightarrow> wp (sread (heap_linear p)) Q E s = Q n s"
  by (simp add: wp_sread heap_linear_def)

lemma wp_sread_heap_internal [wp_simps]:
  "heap s p = Some (Heap_internal n) \<Longrightarrow> wp (sread (heap_internal p)) Q E s = Q n s"
  by (simp add: wp_sread heap_internal_def)

lemma tree_ok_linear:
  assumes "tx_ok s" and "tree_ok P s 66 (Lnode p es)"
  shows "linear_get_node s p = Inr (lnode (map fst es))" and "length es < 2 ^ 38"
    and "\<forall>e \<in> set es. leaf_ok P s e" and "distinct (map ekey es)" and "is_internal p"
    and "is_heap p \<Longrightarrow> heap s (untag p) = Some (Heap_linear (lnode (map fst es)))"
  using assms linear_get_node_ok [of s p "map fst es"] linear_small [of s es]
  by (auto simp: tree_ok_def linear_ok_def tx_okD)

lemma insert_into_linear_ok:
  assumes ok: "tx_ok s" and t: "tree_ok P s 66 (Lnode p es)" and sp: "space P s k v"
  shows "wp (insert_into_linear P p k v [] u)
    (\<lambda>((p', x), ps) s'. \<exists>t' e. inserted P s 66 (Lnode p es) k v u p' x ps s' t' e) (failed s) s"
proof -
  note node = tree_ok_linear [OF ok t]
  let ?look = "\<lambda>s. linear_lookup P s (lnode (map fst es)) k"
  show ?thesis
  proof (cases "k \<in> ekey ` set es")
    case False
    have "?look s = Inr (0, not_found)"
      using linear_lookup_missing [of s es k] node False ok by (simp add: linear_lookup_def tx_okD)
    then show ?thesis
      unfolding insert_into_linear_def
      by (simp add: wp_simps node(1))
        (auto simp: wp_simps wp_with_unique_ptr linear_set_def rbind_def rassert_def wp_push_parent linear_grown [of "map fst es", simplified]
          linear_last [of "map fst es", simplified] Let_def failed_same ok grows_refl sp grows_space
          intro!: wp_linear_allocate wp_store_leaf inserted_linear_new [OF t False])
  next
    case True
    then obtain i where i: "i < length es" "ekey (es ! i) = k"
      by (auto simp: in_set_conv_nth)
    have un: "unat (of_nat i :: u64) = i" "(of_nat i :: u64) \<noteq> not_found"
      using i(1) node(2) of_nat_not_found [of i] by (simp_all add: unsigned_of_nat take_bit_nat_eq_self)
    have look: "?look s = Inr (fst (es ! i), of_nat i)"
      using linear_lookup_found [OF tx_okD [OF ok] node(3,4) i] by (simp add: linear_lookup_def)
    show ?thesis
    proof (cases u)
      case False
      then show ?thesis
        unfolding insert_into_linear_def
        using i un look inserted_linear_same [OF t i ok]
        by (auto simp: wp_simps node(1) leaf_at_def rbind_def rassert_def wp_push_parent)
    next
      case True
      let ?Q = "\<lambda>((p', x), ps) s'. \<exists>t' e. inserted P s 66 (Lnode p es) k v u p' x ps s' t' e"
      let ?body = "\<lambda>q. sbind (store_leaf_node P k v []) (\<lambda>(leaf, parents).
          sbind (sread (heap_linear q)) (\<lambda>n.
          sbind (slift (linear_set n (unat (of_nat i :: u64)) leaf)) (\<lambda>n.
          sseq (heap_put q (Heap_linear n))
            (let result = (if is_heap p then p else tag q) in
             sbind (slift (push_parent result (of_nat i) parents)) (\<lambda>parents. sret ((result, True), parents))))))"
      have store: "wp (?body q) ?Q E s1"
        if "grows s s1" "db_logical_size s1 = db_logical_size s" "q AND 3 = 0"
          "heap s1 = (heap s)(q \<mapsto> Heap_linear (lnode (map fst es)))"
          "if is_heap p then p = tag q else heap s q = None" for q s1 E
        unfolding wp_sbind
      proof (rule wp_store_leaf)
        show "tx_ok s1" "space P s1 k v"
          using growsD(1) [OF \<open>grows s s1\<close>] sp that(2) by (simp_all add: space_def)
        fix a s' assume s': "grows s1 s'" "heap s' = heap s1" "leaf_ok P s' (a, k, v)" "grown P k v s1 s'"
        define s2 where "s2 = s'\<lparr>heap := (heap s)(q \<mapsto> Heap_linear (lnode ((map fst es)[i := a])))\<rparr>"
        have "grows s s2"
          using grows_trans [OF \<open>grows s s1\<close> s'(1)] by (simp add: s2_def)
        then have "\<exists>t' e. inserted P s 66 (Lnode p es) k v True (tag q) True
            [parent (tag q) (of_nat i), parent a not_found] s2 t' e"
          using that s' by (intro inserted_linear_update [OF t i]) (simp_all add: s2_def grown_def)
        moreover have "(if is_heap p then p else tag q) = tag q"
          using that by (simp split: if_splits)
        ultimately show "wp (case (a, [parent a not_found]) of (leaf, parents) \<Rightarrow> sbind (sread (heap_linear q)) (\<lambda>n.
          sbind (slift (linear_set n (unat (of_nat i :: u64)) leaf)) (\<lambda>n.
          sseq (heap_put q (Heap_linear n))
            (let result = (if is_heap p then p else tag q) in
             sbind (slift (push_parent result (of_nat i) parents)) (\<lambda>parents. sret ((result, True), parents)))))) ?Q E s'"
          using that s' i un True
          by (simp add: wp_simps Let_def linear_set_def rbind_def rassert_def wp_push_parent s2_def)
      qed simp
      show ?thesis
      proof (cases "is_heap p")
        case heap: True
        then have "heap s (untag p) = Some (Heap_linear (lnode (map fst es)))" "tag (untag p) = p"
          using node(5,6) by (simp_all add: tag_untag)
        then have "wp (with_unique_ptr None (?body (untag p))) ?Q (failed s) s"
          unfolding wp_with_unique_ptr
          using ok heap by (intro store) (auto simp: grows_refl untag_aligned fun_upd_idem)
        then show ?thesis
          unfolding insert_into_linear_def
          using un look True node heap by (simp add: wp_simps)
      next
        case False
        have "wp (linear_allocate (p_new P) (linear_allocate_node (length (map fst es)) (lnode (map fst es))))
            (\<lambda>q. wp (with_unique_ptr (Some q) (?body q)) ?Q (failed s)) (failed s) s"
          unfolding wp_with_unique_ptr linear_copy
          using ok False by (intro wp_linear_allocate store failed_same) (auto simp: grows_refl)
        then show ?thesis
          unfolding insert_into_linear_def
          using un look True node False by (simp add: wp_simps wp_ext)
      qed
    qed
  qed
qed

end

end
