(* ===== verification/Hamt_Insert_Node.thy ===== *)
theory Hamt_Insert_Node
  imports Hamt_Insert
begin

unbundle bit_operations_syntax

text \<open>
  Insertion into an internal node, and with it \<^verbatim>\<open>insert_node\<close> as a whole.
\<close>

section \<open>Making a node writable\<close>

text \<open>\<open>q\<close> is where the node \<open>p\<close> can be changed: where it is, or the place of a copy.\<close>

definition writable :: "'z mem_scheme \<Rightarrow> index_pointer \<Rightarrow> u64 \<Rightarrow> bool" where
  "writable s p q \<longleftrightarrow> q AND 3 = 0 \<and> (if is_heap p then p = tag q \<and> heap s q \<noteq> None else heap s q = None)"

abbreviation insert_post :: "('k, 'v) params \<Rightarrow> 'z transaction_scheme \<Rightarrow> nat \<Rightarrow> ('k, 'v) tree \<Rightarrow> 'k \<Rightarrow> 'v \<Rightarrow> bool
    \<Rightarrow> (index_pointer \<times> bool) \<times> parent_stack \<Rightarrow> 'z transaction_scheme \<Rightarrow> bool" where
  "insert_post P s d t k v u r s' \<equiv> \<exists>t' e. inserted P s d t k v u (fst (fst r)) (snd (fst r)) (snd r) s' t' e"

context index_params
begin

lemma wp_make_writable:
  assumes ok: "internal_ok s p b cs" and len: "length cs = pop_count b"
    and Q: "\<And>new q. writable s p q \<Longrightarrow> new = (if is_heap p then None else Some q) \<Longrightarrow>
      Q (new, q) (s\<lparr>heap := (heap s)(q \<mapsto> Heap_internal (inode b cs))\<rparr>)"
    and E: "\<not> is_heap p \<Longrightarrow> E Bad_alloc s"
  shows "wp (make_writable (p_new P) p (inode b cs)) Q E s"
proof (cases "is_heap p")
  case True
  then have h: "heap s (untag p) = Some (Heap_internal (inode b cs))" and "is_internal p"
    using ok by (simp_all add: internal_ok_def)
  then have "writable s p (untag p)"
    using True by (simp add: writable_def untag_aligned tag_untag)
  moreover have "s\<lparr>heap := (heap s)(untag p \<mapsto> Heap_internal (inode b cs))\<rparr> = s"
    using h by (simp add: fun_upd_idem)
  ultimately have "Q (None, untag p) s"
    using Q [of "untag p" None] True by simp
  then show ?thesis
    using True h by (simp add: make_writable_def wp_simps)
next
  case False
  have "internal_node_copy (inode b cs) = inode b cs"
    using len by (simp add: internal_node_copy_def)
  then show ?thesis
    using False E Q
    by (auto simp: make_writable_def wp_simps wp_ext writable_def intro!: wp_internal_allocate)
qed

lemma wp_delete_stored: "\<not> is_heap p \<Longrightarrow> wp (delete_node p d) Q E s = Q () s"
  by (simp add: delete_node_def wp_simps)

lemma wp_delete_linear:
  "is_heap p \<Longrightarrow> is_internal p \<Longrightarrow> heap s (untag p) = Some (Heap_linear n) \<Longrightarrow>
    wp (delete_node p 66) Q E s = Q () (s\<lparr>heap := (heap s)(untag p := None)\<rparr>)"
  by (simp add: delete_node_def wp_simps is_leaf_def depth_is_internal_node_iff)
    (simp add: wp_def heap_delete_def heap_linear_def sread_def)

section \<open>A new child\<close>

lemma inode_key_slice:
  assumes "tree_ok P s d (Inode p b ts)" and "k \<in> set (keys (Inode p b ts))"
  shows "\<exists>i < length ts. k \<in> set (keys (ts ! i)) \<and> hslice d (p_hash P k) = positions b ! i"
proof -
  obtain t where "t \<in> set ts" and k: "k \<in> set (keys t)"
    using assms(2) by auto
  then obtain i where i: "i < length ts" "ts ! i = t"
    by (auto simp: in_set_conv_nth)
  have "\<forall>i < length ts. \<forall>k \<in> set (keys (ts ! i)). hslice d (p_hash P k) = positions b ! i"
    using assms(1) by (simp add: tree_ok_def)
  then show ?thesis
    using i k by blast
qed

lemma inode_missing:
  assumes "tree_ok P s d (Inode p b ts)" and "\<not> bit b (hslice d (p_hash P k))"
  shows "k \<notin> set (keys (Inode p b ts))"
proof
  assume "k \<in> set (keys (Inode p b ts))"
  with inode_key_slice [OF assms(1)] obtain i where
    "i < length ts" "hslice d (p_hash P k) = positions b ! i" by blast
  moreover have "length ts = length (positions b)"
    using assms(1) by (simp add: tree_ok_def pop_count_def)
  ultimately have "hslice d (p_hash P k) \<in> set (positions b)"
    by simp
  then show False
    using assms(2) by (simp add: set_positions)
qed

lemma inode_hptrs:
  assumes "tree_ok P s d (Inode p b ts)" and "r \<in> set (hptrs t)" and "t \<in> set ts"
  shows "heap s r \<noteq> None" and "is_heap p" and "r \<noteq> untag p"
proof -
  have "repr P s (d + 6) t"
    using assms by (auto simp: tree_ok_def)
  then show "heap s r \<noteq> None"
    using assms(2) repr_hptrs_dom by blast
  have "r \<in> set (hptrs (Inode p b ts))"
    using assms(2,3) by auto
  then have "hptrs (Inode p b ts) \<noteq> []"
    by (metis empty_iff empty_set)
  then show "is_heap p"
    using repr_stored [of s d "Inode p b ts"] assms(1) by (auto simp: tree_ok_def)
  then show "r \<noteq> untag p"
    using assms by (auto simp: tree_ok_def roots_def)
qed

lemma writable_fresh:
  assumes "tree_ok P s d (Inode p b ts)" and "writable s p q" and "t \<in> set ts"
  shows "q \<notin> set (hptrs t)"
proof
  assume "q \<in> set (hptrs t)"
  note h = inode_hptrs [OF assms(1) this assms(3)]
  then show False
    using assms(2) by (auto simp: writable_def untag_tag)
qed

lemma inode_not_leaf: "tree_ok P s d (Inode p b ts) \<Longrightarrow> \<not> is_leaf p"
  by (simp add: tree_ok_def internal_ok_def is_leaf_def)

lemma inode_child_ok:
  "tree_ok P s d (Inode p b ts) \<Longrightarrow> t \<in> set ts \<Longrightarrow> tree_ok P s (d + 6) t"
  by (auto simp: tree_ok_def distinct_concat_iff elim!: dvdE)

lemma inserted_inode_new:
  assumes t: "tree_ok P s d (Inode p b ts)" and j: "hslice d (p_hash P k) = j" "\<not> bit b j" and q: "writable s p q"
    and g: "grows s s'" and lf: "leaf_ok P s' (a, k, v)" and gr: "grown P k v s s'"
  defines "i \<equiv> index_below b j"
  assumes hp: "heap s' = (heap s)(q \<mapsto> Heap_internal
      (inode (b OR one_bit j) (take i (map tptr ts) @ a # drop i (map tptr ts))))"
  shows "\<exists>t' e. inserted P s d (Inode p b ts) k v u (tag q) False [parent (tag q) (of_nat i), parent a not_found] s' t' e"
proof -
  let ?ts = "take i ts @ Leaf a k v # drop i ts" and ?b = "b OR one_bit j"
  have k: "k \<notin> set (keys (Inode p b ts))"
    using inode_missing [OF t] j by blast
  have d: "d < 66" "6 dvd d" and len: "length ts = pop_count b"
    using t by (simp_all add: tree_ok_def)
  have sl: "hslice d (p_hash P k) = positions b ! i" if "i < length ts" "k \<in> set (keys (ts ! i))" for i k
    using t that by (auto simp: tree_ok_def)
  have j64: "j < 64"
    using j(1) hslice_unat(2) [of d "p_hash P k"] by simp
  have pos: "positions ?b = take i (positions b) @ j # drop i (positions b)" and i: "i \<le> length ts"
    using positions_insert [of j b] j j64 len by (simp_all add: i_def)
  have nz: "?b \<noteq> 0"
    using pos positions_eq_Nil_iff [of ?b] by auto
  have lenb: "length ?ts = pop_count ?b"
    using i len pos by (simp add: pop_count_def)
  have fresh: "q \<notin> set (hptrs x)" if "x \<in> set ts" for x
    by (rule writable_fresh [OF t q that])
  have sub: "tree_ok P s' (d + 6) x" if "x \<in> set ?ts" for x
  proof (cases "x = Leaf a k v")
    case True
    then show ?thesis
      using lf d by (auto intro!: tree_ok_leaf elim!: dvdE)
  next
    case False
    then have "x \<in> set ts"
      using that by (auto dest: in_set_takeD in_set_dropD)
    then show ?thesis
      using fresh hp by (intro tree_ok_grows [OF inode_child_ok [OF t] g]) auto
  qed
  have slice: "hslice d (p_hash P k') = positions ?b ! n" if "n < length ?ts" "k' \<in> set (keys (?ts ! n))" for n k'
  proof (cases n i rule: linorder_cases)
    case less
    then have "?ts ! n = ts ! n" "positions ?b ! n = positions b ! n"
      using i len by (simp_all add: pos nth_append pop_count_def)
    then show ?thesis using that(2) sl [of n k'] less i by simp
  next
    case equal
    then show ?thesis using that i len j by (auto simp: pos nth_append pop_count_def)
  next
    case greater
    moreover define m where "m = n - 1"
    ultimately have m: "n = Suc m" "i \<le> m" "m < length ts"
      using that(1) i by auto
    then have "?ts ! n = ts ! m" "positions ?b ! n = positions b ! m"
      using i len by (simp_all add: pos nth_append pop_count_def Suc_diff_le)
    then show ?thesis using that(2) sl [of m k'] m(3) by simp
  qed
  have conc: "concat (map hptrs ts) = concat (map hptrs (take i ts)) @ concat (map hptrs (drop i ts))"
    by (metis append_take_drop_id concat_append map_append)
  have "distinct (concat (map hptrs ts))"
    using t by (simp add: tree_ok_def)
  then have "distinct (q # concat (map hptrs ?ts))"
    using fresh conc by (auto dest: in_set_takeD in_set_dropD)
  then have ok: "tree_ok P s' d (Inode (tag q) ?b ?ts)"
    using q d lenb sub slice hp nz
    by (intro inode_tree_ok) (auto simp: writable_def take_map drop_map)
  have ts: "set (hptrs (Inode (tag q) ?b ?ts)) = insert q (set (hptrs (Inode p b ts)))"
    using conc q by (auto simp: writable_def roots_def untag_tag)
  have "heap_moves s d (Inode p b ts) s' (Inode (tag q) ?b ?ts)"
  proof (cases "is_heap p")
    case True
    then have "p = tag q" "q \<in> set (hptrs (Inode p b ts))"
      using q by (auto simp: writable_def roots_def untag_tag)
    then show ?thesis
      using repr_hptrs_dom [of s d "Inode p b ts"] t unfolding heap_moves_def ts hp by (auto simp: tree_ok_def)
  next
    case False
    then have "hptrs (Inode p b ts) = []" "heap s q = None" "roots p = []"
      using repr_stored [of s d "Inode p b ts"] t q by (simp_all add: tree_ok_def writable_def roots_def)
    then show ?thesis
      unfolding heap_moves_def ts hp using False by (auto simp: dom_def)
  qed
  moreover have "set (entries (Inode (tag q) ?b ?ts)) = insert (a, k, v) (set (entries (Inode p b ts)))"
  proof -
    have "concat (map entries ts) = concat (map entries (take i ts)) @ concat (map entries (drop i ts))"
      by (metis append_take_drop_id concat_append map_append)
    then show ?thesis
      by auto
  qed
  moreover have "{e \<in> set (entries (Inode p b ts)). ekey e \<noteq> k} = set (entries (Inode p b ts))"
    using k by force
  moreover have "([parent (tag q) (of_nat i), parent a not_found], (a, k, v)) \<in> set (paths (Inode (tag q) ?b ?ts))"
    using i by (auto simp: paths_Inode nth_append intro!: exI [of _ i])
  ultimately have "inserted P s d (Inode p b ts) k v u (tag q) False [parent (tag q) (of_nat i), parent a not_found] s'
      (Inode (tag q) ?b ?ts) (a, k, v)"
    using ok g gr k unfolding inserted_def by simp
  then show ?thesis
    by blast
qed

section \<open>A changed child\<close>

lemma roots_hptrs: "repr P s d t \<Longrightarrow> set (roots (tptr t)) \<subseteq> set (hptrs t)"
  by (cases t) (auto simp: roots_def dest: leaf_ok_pointer(2))

lemma inode_keys_child:
  assumes t: "tree_ok P s d (Inode p b ts)" and i: "i < length ts" and sl: "hslice d (p_hash P k) = positions b ! i"
    and n: "n < length ts" "n \<noteq> i"
  shows "k \<notin> set (keys (ts ! n))"
proof
  assume "k \<in> set (keys (ts ! n))"
  then have "hslice d (p_hash P k) = positions b ! n"
    using t n by (auto simp: tree_ok_def)
  then have "positions b ! n = positions b ! i"
    using sl by simp
  moreover have "length ts = length (positions b)"
    using t by (simp add: tree_ok_def pop_count_def)
  ultimately show False
    using i n by (simp add: nth_eq_iff_index_eq)
qed

lemma inode_child_facts:
  assumes t: "tree_ok P s d (Inode p b ts)" and i: "i < length ts" and sl: "hslice d (p_hash P k) = positions b ! i"
    and en: "set (entries t1) = insert e {e \<in> set (entries (ts ! i)). ekey e \<noteq> k}" and ek: "ekey e = k"
  shows "n < length ts \<Longrightarrow> k' \<in> set (keys (ts[i := t1] ! n)) \<Longrightarrow> hslice d (p_hash P k') = positions b ! n"
    and "set (entries (Inode q b (ts[i := t1]))) = insert e {e \<in> set (entries (Inode p b ts)). ekey e \<noteq> k}"
    and "k \<in> set (keys (Inode p b ts)) \<longleftrightarrow> k \<in> set (keys (ts ! i))"
    and "(ps, e) \<in> set (paths t1) \<Longrightarrow> (parent q (of_nat i) # ps, e) \<in> set (paths (Inode q b (ts[i := t1])))"
proof -
  obtain as tc bs where ts: "ts = as @ tc # bs" "length as = i"
    using split_at_index [OF i] by metis
  have tc: "ts ! i = tc" and upd: "ts[i := t1] = as @ t1 # bs"
    using ts by auto
  have other: "k \<notin> set (keys y)" if y: "y \<in> set as \<union> set bs" for y
  proof -
    obtain n where n: "n < length ts" "ts ! n = y" "n \<noteq> i"
    proof (cases "y \<in> set as")
      case True
      then obtain n where "n < length as" "as ! n = y" by (auto simp: in_set_conv_nth)
      then show ?thesis using that [of n] ts by (auto simp: nth_append)
    next
      case False
      then obtain n where "n < length bs" "bs ! n = y" using y by (auto simp: in_set_conv_nth)
      then show ?thesis using that [of "length as + Suc n"] ts by (auto simp: nth_append)
    qed
    then show ?thesis
      using inode_keys_child [OF t i sl, of n] by auto
  qed
  show "hslice d (p_hash P k') = positions b ! n"
    if n: "n < length ts" "k' \<in> set (keys (ts[i := t1] ! n))" for n k'
  proof -
    have "k' \<in> set (keys (ts ! n)) \<or> (n = i \<and> k' = k)"
      using n en ek by (cases "n = i") auto
    then show ?thesis
      using t n(1) sl by (auto simp: tree_ok_def)
  qed
  show "set (entries (Inode q b (ts[i := t1]))) = insert e {e \<in> set (entries (Inode p b ts)). ekey e \<noteq> k}"
    using en [unfolded tc] other unfolding upd by (force simp: ts(1))
  show "k \<in> set (keys (Inode p b ts)) \<longleftrightarrow> k \<in> set (keys (ts ! i))"
    using other unfolding tc by (auto simp: ts(1))
  show "(parent q (of_nat i) # ps, e) \<in> set (paths (Inode q b (ts[i := t1])))" if "(ps, e) \<in> set (paths t1)"
    using that i by (auto simp: paths_Inode intro!: exI [of _ i])
qed

text \<open>The heap nodes of the children, when one child is replaced.\<close>

lemma inode_child_heap:
  assumes t: "tree_ok P s d (Inode p b (as @ tc # bs))" and hm: "heap_moves s (d + 6) tc s' t1" and t1: "repr P s' (d + 6) t1"
    and q: "q AND 3 = 0" "if is_heap p then p = tag q else heap s' q = None"
  defines "A \<equiv> set (concat (map hptrs as)) \<union> set (concat (map hptrs bs))"
  shows "r \<in> A \<Longrightarrow> heap s r \<noteq> None \<and> r \<notin> set (hptrs tc) \<and> r \<notin> set (hptrs t1) \<and> r \<noteq> q \<and> heap s' r = heap s r"
    and "q \<notin> set (hptrs tc)" and "q \<notin> set (hptrs t1)" and "heap s q \<noteq> None \<longleftrightarrow> is_heap p"
    and "\<not> is_heap p \<Longrightarrow> hptrs tc = [] \<and> A = {}"
proof -
  have dist: "distinct (roots p @ concat (map hptrs as) @ hptrs tc @ concat (map hptrs bs))"
    using t by (auto simp: tree_ok_def)
  have stored: "hptrs (Inode p b (as @ tc # bs)) = []" if "\<not> is_heap p"
    using that t repr_stored [of s d "Inode p b (as @ tc # bs)"] by (simp add: tree_ok_def)
  then show none: "hptrs tc = [] \<and> A = {}" if "\<not> is_heap p"
    using that by (auto simp: A_def)
  have root: "q \<in> set (roots p)" if "is_heap p"
    using that q by (auto simp: roots_def untag_tag)
  show qc: "q \<notin> set (hptrs tc)"
    using dist root none by (cases "is_heap p") auto
  show hq: "heap s q \<noteq> None \<longleftrightarrow> is_heap p"
  proof (cases "is_heap p")
    case True
    then show ?thesis
      using repr_hptrs_dom [of s d "Inode p b (as @ tc # bs)" q] t root by (simp add: tree_ok_def)
  next
    case False
    then have "heap s q = None"
      using hm q none by (cases "heap s q") (force simp: heap_moves_def)+
    then show ?thesis using False by simp
  qed
  show q1: "q \<notin> set (hptrs t1)"
  proof (cases "is_heap p")
    case True
    then show ?thesis
      using hm qc hq by (auto simp: heap_moves_def)
  next
    case False
    then show ?thesis
      using q repr_hptrs_dom [OF t1, of q] by auto
  qed
  show "heap s r \<noteq> None \<and> r \<notin> set (hptrs tc) \<and> r \<notin> set (hptrs t1) \<and> r \<noteq> q \<and> heap s' r = heap s r" if r: "r \<in> A"
  proof -
    have "r \<in> set (hptrs (Inode p b (as @ tc # bs)))"
      using r by (auto simp: A_def)
    then have h: "heap s r \<noteq> None"
      using repr_hptrs_dom [of s d "Inode p b (as @ tc # bs)" r] t unfolding tree_ok_def by blast
    have c: "r \<notin> set (hptrs tc)"
      using dist r by (auto simp: A_def)
    moreover have "r \<noteq> q"
      using dist root none r by (cases "is_heap p") (auto simp: A_def)
    moreover have "r \<notin> set (hptrs t1)" "heap s' r = heap s r"
      using hm h c by (auto simp: heap_moves_def)
    ultimately show ?thesis
      using h by blast
  qed
qed

lemma inserted_inode_child:
  assumes t: "tree_ok P s d (Inode p b ts)" and i: "i < length ts" and sl: "hslice d (p_hash P k) = positions b ! i"
    and ins: "inserted P s (d + 6) (ts ! i) k v u p1 x ps s' t1 e"
    and q: "q AND 3 = 0" "if is_heap p then p = tag q else heap s' q = None" and g: "grows s' s2"
    and lg: "db_logical_size s2 = db_logical_size s'"
    and hp: "heap s2 = (\<lambda>r. if r = q then Some (Heap_internal (inode b ((map tptr ts)[i := p1])))
      else if p1 \<noteq> tptr (ts ! i) \<and> r \<in> set (roots (tptr (ts ! i))) then None else heap s' r)"
  shows "inserted P s d (Inode p b ts) k v u (tag q) x (parent (tag q) (of_nat i) # ps) s2
    (Inode (tag q) b (ts[i := t1])) e"
proof -
  obtain as tc bs where ts: "ts = as @ tc # bs" "length as = i"
    using split_at_index [OF i] by metis
  have tc: "ts ! i = tc" and upd: "ts[i := t1] = as @ t1 # bs"
    using ts by auto
  have hm: "heap_moves s (d + 6) tc s' t1" and t1: "tree_ok P s' (d + 6) t1" and p1: "p1 = tptr t1"
    and en: "set (entries t1) = insert e {e \<in> set (entries tc). ekey e \<noteq> k}" and ek: "ekey e = k"
    and gs: "grows s s'" and gr: "grown P k v s s'" and x: "x \<longleftrightarrow> k \<in> set (keys tc)" and pth: "(ps, e) \<in> set (paths t1)"
    and res: "if x \<and> \<not> u then e \<in> set (entries tc) else snd (snd e) = v"
    using ins by (simp_all add: inserted_def tc)
  have t1r: "repr P s' (d + 6) t1"
    using t1 by (simp add: tree_ok_def)
  note H = inode_child_heap [OF t [unfolded ts(1)] hm t1r q]
  let ?A = "set (concat (map hptrs as)) \<union> set (concat (map hptrs bs))"
  define D where "D = (if p1 \<noteq> tptr tc then set (roots (tptr tc)) else {})"
  have D: "D \<subseteq> set (hptrs tc)" "D \<inter> set (hptrs t1) = {}"
  proof -
    have "repr P s (d + 6) tc"
      using t by (auto simp: tree_ok_def ts(1))
    then show "D \<subseteq> set (hptrs tc)"
      using roots_hptrs by (auto simp: D_def)
    show "D \<inter> set (hptrs t1) = {}"
      using hm p1 by (auto simp: heap_moves_def roots_heap D_def)
  qed
  have hp': "heap s2 = (\<lambda>r. if r = q then Some (Heap_internal (inode b ((map tptr ts)[i := p1])))
      else if r \<in> D then None else heap s' r)"
    by (auto simp: hp tc D_def)
  note F = inode_child_facts [OF t i sl _ ek, of t1, unfolded tc, OF en]
  have same: "heap s2 r = heap s r" if "r \<in> ?A" for r
    using H(1) [OF that] D(1) by (auto simp: hp')
  have same1: "heap s2 r = heap s' r" if "r \<in> set (hptrs t1)" for r
    using that H(3) D(2) by (auto simp: hp')
  have len: "length (as @ t1 # bs) = pop_count b" and d: "d < 66" "6 dvd d" "b \<noteq> 0"
    using t ts(1) by (simp_all add: tree_ok_def)
  have ok: "tree_ok P s2 d (Inode (tag q) b (as @ t1 # bs))"
  proof (rule inode_tree_ok [OF q(1) _ d(1,2,3) len])
    show "heap s2 q = Some (Heap_internal (inode b (map tptr (as @ t1 # bs))))"
      using upd p1 by (simp add: hp' map_update [symmetric])
    show "hslice d (p_hash P k') = positions b ! n"
      if "n < length (as @ t1 # bs)" "k' \<in> set (keys ((as @ t1 # bs) ! n))" for n k'
      using F(1) [of n k'] that ts(1) unfolding upd by simp
    show "tree_ok P s2 (d + 6) y" if y: "y \<in> set (as @ t1 # bs)" for y
    proof (cases "y = t1")
      case True
      then show ?thesis
        using tree_ok_grows [OF t1 g] same1 by simp
    next
      case False
      then have y': "y \<in> set as \<union> set bs" using y by auto
      then show ?thesis
        using tree_ok_grows [OF inode_child_ok [OF t] grows_trans [OF gs g]] same by (auto simp: ts(1))
    qed
    have "distinct (concat (map hptrs as) @ hptrs tc @ concat (map hptrs bs))" "distinct (hptrs t1)"
      using t t1 by (auto simp: tree_ok_def ts(1))
    then show "distinct (q # concat (map hptrs (as @ t1 # bs)))"
      using H(1,3) by auto
  qed
  have rq: "set (roots p) = (if is_heap p then {q} else {})"
    using q by (auto simp: roots_def untag_tag)
  have "heap_moves s d (Inode p b ts) s2 (Inode (tag q) b (as @ t1 # bs))"
  proof -
    have new: "set (hptrs (Inode (tag q) b (as @ t1 # bs))) = insert q (?A \<union> set (hptrs t1))"
      using q(1) by (auto simp: roots_tag)
    have old: "set (hptrs (Inode p b ts)) = set (roots p) \<union> ?A \<union> set (hptrs tc)"
      by (auto simp: ts(1))
    have dom': "dom (heap s') = (dom (heap s) - set (hptrs tc)) \<union> set (hptrs t1) \<union> D"
      using hm p1 by (auto simp: heap_moves_def D_def)
    have "q \<notin> D"
      using D(1) H(2) by blast
    then have "dom (heap s2) = insert q (dom (heap s') - D)"
      by (auto simp: hp' dom_def)
    moreover have "dom (heap s') - D = (dom (heap s) - set (hptrs tc)) \<union> set (hptrs t1)"
      unfolding dom' using D by auto
    ultimately have dom2: "dom (heap s2) = insert q ((dom (heap s) - set (hptrs tc)) \<union> set (hptrs t1))"
      by simp
    have A: "?A \<subseteq> dom (heap s)" "?A \<inter> set (hptrs tc) = {}"
      using H(1) by blast+
    show ?thesis
      unfolding heap_moves_def new old dom2
    proof (intro conjI allI ballI impI)
      fix r assume r: "heap s r \<noteq> None" "r \<notin> set (roots p) \<union> ?A \<union> set (hptrs tc)"
      then have "r \<noteq> q" "r \<notin> D" "heap s' r = heap s r"
        using rq H(4) D(1) hm by (auto simp: heap_moves_def split: if_splits)
      then show "heap s2 r = heap s r"
        by (simp add: hp')
    next
      fix r assume "r \<in> insert q (?A \<union> set (hptrs t1))"
      then show "r \<in> set (roots p) \<union> ?A \<union> set (hptrs tc) \<or> heap s r = None"
        using rq H(4) hm by (auto simp: heap_moves_def)
    next
      show "insert q (dom (heap s) - set (hptrs tc) \<union> set (hptrs t1)) =
        dom (heap s) - (set (roots p) \<union> ?A \<union> set (hptrs tc)) \<union> insert q (?A \<union> set (hptrs t1)) \<union>
        (if tptr (Inode (tag q) b (as @ t1 # bs)) = tptr (Inode p b ts) then {} else set (roots (tptr (Inode p b ts))))"
        using A rq q(2) by (auto split: if_splits)
    qed (use q(2) in \<open>auto split: if_splits\<close>)
  qed
  moreover have "e \<in> set (entries tc) \<Longrightarrow> e \<in> set (entries (Inode p b ts))"
    by (auto simp: ts(1))
  ultimately show ?thesis
    using ok grows_trans [OF gs g] gr lg ek x res F(2) [of "tag q"] F(3) F(4) [OF pth, of "tag q"] inode_not_leaf [OF t]
    unfolding inserted_def upd by (auto simp: grown_def)
qed

text \<open>The child's pointer did not change: neither does the node.\<close>

lemma inserted_inode_same:
  assumes t: "tree_ok P s d (Inode p b ts)" and i: "i < length ts" and sl: "hslice d (p_hash P k) = positions b ! i"
    and ins: "inserted P s (d + 6) (ts ! i) k v u (tptr (ts ! i)) x ps s' t1 e"
  shows "inserted P s d (Inode p b ts) k v u p x (parent p (of_nat i) # ps) s' (Inode p b (ts[i := t1])) e"
proof -
  have hm: "heap_moves s (d + 6) (ts ! i) s' t1" and t1: "tree_ok P s' (d + 6) t1" and p1: "tptr t1 = tptr (ts ! i)"
    and en: "set (entries t1) = insert e {e \<in> set (entries (ts ! i)). ekey e \<noteq> k}" and ek: "ekey e = k"
    and gs: "grows s s'" and gr: "grown P k v s s'" and x: "x \<longleftrightarrow> k \<in> set (keys (ts ! i))" and pth: "(ps, e) \<in> set (paths t1)"
    and res: "if x \<and> \<not> u then e \<in> set (entries (ts ! i)) else snd (snd e) = v"
    using ins by (simp_all add: inserted_def)
  have iok: "internal_ok s p b (map tptr ts)"
    using t by (simp add: tree_ok_def)
  have tp: "map tptr (ts[i := t1]) = map tptr ts"
    using p1 i by (metis list_update_id map_update nth_map)
  show ?thesis
  proof (cases "is_heap p")
    case True
    let ?q = "untag p"
    have q: "p = tag ?q" "?q AND 3 = 0"
      using True iok by (simp_all add: internal_ok_def tag_untag untag_aligned)
    have h: "heap s ?q = Some (Heap_internal (inode b (map tptr ts)))"
      using True iok by (simp add: internal_ok_def)
    have "?q \<notin> set (hptrs (ts ! i))"
      using inode_hptrs(3) [OF t] i nth_mem by blast
    then have "heap s' ?q = heap s ?q"
      using hm h by (simp add: heap_moves_def)
    moreover have "(map tptr ts)[i := tptr (ts ! i)] = map tptr ts"
      using i by (metis list_update_id nth_map)
    ultimately have "heap s' = (\<lambda>r. if r = ?q then Some (Heap_internal (inode b ((map tptr ts)[i := tptr (ts ! i)])))
        else if tptr (ts ! i) \<noteq> tptr (ts ! i) \<and> r \<in> set (roots (tptr (ts ! i))) then None else heap s' r)"
      using h by (simp add: fun_eq_iff)
    then have "inserted P s d (Inode p b ts) k v u (tag ?q) x (parent (tag ?q) (of_nat i) # ps) s'
        (Inode (tag ?q) b (ts[i := t1])) e"
      using True q(1) grows_refl [OF growsD(1) [OF gs]] by (intro inserted_inode_child [OF t i sl ins q(2)]) simp_all
    then show ?thesis
      unfolding q(1) [symmetric] .
  next
    case False
    have ne: "\<not> is_heap (tptr (ts ! i))" and none: "hptrs (Inode p b ts) = []"
      using t False i valid_children_not_heap [of _ "map tptr ts"] repr_stored [of s d "Inode p b ts"]
      by (auto simp: tree_ok_def internal_ok_def)
    have n1: "hptrs t1 = []" and nc: "hptrs (ts ! i) = []"
      using repr_stored [of s' "d + 6" t1] t1 ne p1 none i by (auto simp: tree_ok_def)
    have same: "heap s' r = heap s r" if "heap s r \<noteq> None" for r
      using hm that nc by (simp add: heap_moves_def)
    have no: "hptrs y = []" if "y \<in> set (ts[i := t1])" for y
      using that n1 none set_update_subset_insert [of ts i t1] by auto
    have "tree_ok P s' (d + 6) y" if "y \<in> set (ts[i := t1])" for y
    proof (cases "y = t1")
      case False
      then have "y \<in> set ts"
        using that set_update_subset_insert [of ts i t1] by auto
      then show ?thesis
        using no [OF that] by (intro tree_ok_grows [OF inode_child_ok [OF t] gs]) simp_all
    qed (use t1 in simp)
    moreover have "internal_ok s' p b (map tptr (ts[i := t1]))"
      using internal_ok_later [OF growsD(2) [OF gs] _ iok] False unfolding tp by simp
    moreover have "\<forall>n < length ts. \<forall>k' \<in> set (keys (ts[i := t1] ! n)). hslice d (p_hash P k') = positions b ! n"
      using inode_child_facts(1) [OF t i sl en ek] by blast
    moreover have "distinct (concat (map hptrs (ts[i := t1])))"
    proof -
      have "concat (map hptrs (ts[i := t1])) = []"
        using no by simp
      then show ?thesis
        by (simp only: distinct.simps)
    qed
    ultimately have "tree_ok P s' d (Inode p b (ts[i := t1]))"
      using t False by (auto simp: tree_ok_def roots_def)
    moreover have "heap_moves s d (Inode p b ts) s' (Inode p b (ts[i := t1]))"
    proof -
      have "hptrs (Inode p b (ts[i := t1])) = []"
        using no False by (simp add: roots_def)
      moreover have "dom (heap s') = dom (heap s)"
        using hm nc n1 p1 by (simp add: heap_moves_def)
      ultimately show ?thesis
        using none same by (simp add: heap_moves_def)
    qed
    moreover have "e \<in> set (entries (ts ! i)) \<Longrightarrow> e \<in> set (entries (Inode p b ts))"
      using i by auto
    ultimately show ?thesis
      using gs gr ek x res inode_child_facts(2-4) [OF t i sl en ek] pth unfolding inserted_def by auto
  qed
qed

section \<open>The whole operation\<close>

lemma inode_get:
  assumes "tx_ok s" and "tree_ok P s d (Inode p b ts)"
  shows "internal_get_node s p = Inr (inode b (map tptr ts))" and "internal_ok s p b (map tptr ts)"
    and "length ts = pop_count b" and "d < 66" and "node_wf (inode b (map tptr ts))"
  using assms internal_get_node_ok [OF tx_okD [OF assms(1)], of p b "map tptr ts"]
  by (auto simp: tree_ok_def node_wf_def)

lemma insert_new_child:
  assumes ok: "tx_ok s" and t: "tree_ok P s d (Inode p b ts)" and sp: "space P s k v"
    and hash: "hash = drop_bit d (p_hash P k)" and nb: "\<not> bit b (hslice d (p_hash P k))"
  shows "wp (insert_into_internal P rec p k v hash d []) (insert_post P s d (Inode p b ts) k v u) (failed s) s"
proof -
  note node = inode_get [OF ok t]
  let ?n = "inode b (map tptr ts)" and ?j = "hslice d (p_hash P k)"
  let ?i = "index_below b ?j"
  have j: "unat (hash AND hash_index_mask) = ?j"
    by (simp add: hash hslice_unat)
  have look: "internal_lookup ?n (hash AND hash_index_mask) = Inr (0, not_found)"
    using internal_lookup_not_found [OF hash_index_less(2) [of hash], of ?n] nb j by simp
  have ins: "internal_insert_child ?n hash a = Inr (inode (b OR one_bit ?j)
      (take ?i (map tptr ts) @ a # drop ?i (map tptr ts)), ?i)" for a
    using internal_insert_child_ok [OF node(5), of hash a] nb j by simp
  have body: "wp (with_unique_ptr new (sbind (store_leaf_node P k v []) (\<lambda>(leaf, parents).
          sbind (sread (heap_internal q)) (\<lambda>n.
          sbind (slift (internal_insert_child n hash leaf)) (\<lambda>(n, position).
          sseq (heap_put q (Heap_internal n))
            (sbind (slift (push_parent (tag q) (of_nat position) parents)) (\<lambda>parents.
             sret ((tag q, False), parents)))))))) (insert_post P s d (Inode p b ts) k v u) (failed s)
        (s\<lparr>heap := (heap s)(q \<mapsto> Heap_internal ?n)\<rparr>)" if q: "writable s p q" for q new
    unfolding wp_with_unique_ptr wp_sbind
  proof (rule wp_store_leaf)
    fix a s' assume s': "grows (s\<lparr>heap := (heap s)(q \<mapsto> Heap_internal ?n)\<rparr>) s'" "leaf_ok P s' (a, k, v)"
      "grown P k v (s\<lparr>heap := (heap s)(q \<mapsto> Heap_internal ?n)\<rparr>) s'" "heap s' = heap (s\<lparr>heap := (heap s)(q \<mapsto> Heap_internal ?n)\<rparr>)"
    let ?s2 = "s'\<lparr>heap := (heap s)(q \<mapsto> Heap_internal (inode (b OR one_bit ?j)
      (take ?i (map tptr ts) @ a # drop ?i (map tptr ts))))\<rparr>"
    have "\<exists>t' e. inserted P s d (Inode p b ts) k v u (tag q) False
        [parent (tag q) (of_nat ?i), parent a not_found] ?s2 t' e"
      using s' by (intro inserted_inode_new [OF t _ nb q]) simp_all
    then show "wp (case (a, [parent a not_found]) of (leaf, parents) \<Rightarrow> sbind (sread (heap_internal q)) (\<lambda>n.
          sbind (slift (internal_insert_child n hash leaf)) (\<lambda>(n, position).
          sseq (heap_put q (Heap_internal n))
            (sbind (slift (push_parent (tag q) (of_nat position) parents)) (\<lambda>parents.
             sret ((tag q, False), parents)))))) (insert_post P s d (Inode p b ts) k v u)
        (\<lambda>e s'. failed s e (case new of None \<Rightarrow> s' | Some q \<Rightarrow> s'\<lparr>heap := (heap s')(q := None)\<rparr>)) s'"
      using s' by (simp add: wp_simps ins wp_push_parent)
  qed (use ok sp in \<open>simp_all add: space_def\<close>)
  have "wp (make_writable (p_new P) p ?n) (\<lambda>(new, q). wp (with_unique_ptr new (sbind (store_leaf_node P k v []) (\<lambda>(leaf, parents).
          sbind (sread (heap_internal q)) (\<lambda>n.
          sbind (slift (internal_insert_child n hash leaf)) (\<lambda>(n, position).
          sseq (heap_put q (Heap_internal n))
            (sbind (slift (push_parent (tag q) (of_nat position) parents)) (\<lambda>parents.
             sret ((tag q, False), parents)))))))) (insert_post P s d (Inode p b ts) k v u) (failed s)) (failed s) s"
    using body ok node by (intro wp_make_writable) (auto simp: failed_same grows_refl)
  then show ?thesis
    unfolding insert_into_internal_def using node(1) look by (simp add: wp_simps case_prod_unfold wp_ext)
qed

lemma replace_child:
  assumes t: "tree_ok P s d (Inode p b ts)" and i: "i < length ts" and sl: "hslice d (p_hash P k) = positions b ! i"
    and ins: "inserted P s (d + 6) (ts ! i) k v u p1 x ps s' t1 e" and ne: "p1 \<noteq> tptr (ts ! i)" and ok: "tx_ok s"
  shows "wp (sbind (make_writable (p_new P) p (inode b (map tptr ts))) (\<lambda>(new_node, w).
             with_unique_ptr new_node
               (sbind (sread (heap_internal w)) (\<lambda>n.
                sbind (slift (child_at n i)) (\<lambda>child.
                sseq (delete_node child (d + hash_index_bits))
                  (sseq (heap_put w (Heap_internal (n\<lparr>i_children := (i_children n)[i := p1]\<rparr>)))
                    (sret (new_node, tag w))))))))
    (\<lambda>(_, node) s2. \<exists>t' e. inserted P s d (Inode p b ts) k v u node x (parent node (of_nat i) # ps) s2 t' e)
    (failed s) s'"
proof -
  note node = inode_get [OF ok t]
  let ?n = "inode b (map tptr ts)"
  obtain as tc bs where ts: "ts = as @ tc # bs" "length as = i"
    using split_at_index [OF i] by metis
  have tc: "ts ! i = tc"
    using ts by auto
  have hm: "heap_moves s (d + 6) tc s' t1" and t1: "repr P s' (d + 6) t1" and p1: "p1 = tptr t1" and gs: "grows s s'"
    using ins by (simp_all add: inserted_def tc tree_ok_def)
  have c: "repr P s (d + 6) tc"
    using t by (auto simp: tree_ok_def ts(1))
  have iok: "internal_ok s' p b (map tptr ts)"
  proof (rule internal_ok_later [OF growsD(2) [OF gs] _ node(2)])
    assume p: "is_heap p"
    have "untag p \<notin> set (hptrs tc)"
      using inode_hptrs(3) [OF t, of "untag p" tc] by (auto simp: ts(1))
    moreover have "heap s (untag p) \<noteq> None"
      using node(2) p by (simp add: internal_ok_def)
    ultimately show "heap s' (untag p) = heap s (untag p)"
      using hm by (simp add: heap_moves_def)
  qed
  have at: "child_at ?n i = Inr (tptr tc)"
    using node(5) i tc by (auto simp: child_at_def internal_size_def rbind_def rassert_def node_wf_def)
  show ?thesis
    unfolding wp_sbind
  proof (rule wp_make_writable [OF iok])
    show "failed s Bad_alloc s'" if "\<not> is_heap p"
    proof (rule failed_same [OF gs])
      have "hptrs tc = []"
        using that t repr_stored [of s d "Inode p b ts"] by (simp add: tree_ok_def ts(1))
      then show "heap s' q = heap s q" if "heap s q \<noteq> None" for q
        using that hm by (simp add: heap_moves_def)
    qed
    fix new q assume q: "writable s' p q"
    then have q': "q AND 3 = 0" "if is_heap p then p = tag q else heap s' q = None"
      by (auto simp: writable_def split: if_splits)
    note H = inode_child_heap [OF t [unfolded ts(1)] hm t1 q']
    let ?s1 = "s'\<lparr>heap := (heap s')(q \<mapsto> Heap_internal ?n)\<rparr>"
    let ?m = "Heap_internal (inode b ((map tptr ts)[i := p1]))"
    let ?s2 = "(if is_heap (tptr tc) then ?s1\<lparr>heap := (heap ?s1)(untag (tptr tc) := None)\<rparr> else ?s1)"
    have dif: "untag (tptr tc) \<noteq> q" if "is_heap (tptr tc)"
      using roots_hptrs [OF c] H(2) that by (auto simp: roots_def)
    have lin: "is_internal (tptr tc) \<and> d + 6 = 66 \<and> (\<exists>n. heap ?s1 (untag (tptr tc)) = Some (Heap_linear n))"
      if "is_heap (tptr tc)"
      using that hm ne p1 dif tc repr_leaf_pointer [OF c] c
      by (cases tc) (auto simp: heap_moves_def is_leaf_def dest: leaf_ok_pointer)
    have res: "\<exists>t' e. inserted P s d (Inode p b ts) k v u (tag q) x (parent (tag q) (of_nat i) # ps)
        (?s2\<lparr>heap := (heap ?s2)(q \<mapsto> ?m)\<rparr>) t' e"
      using ne dif growsD(1) [OF gs]
      by (intro exI) (rule inserted_inode_child [OF t i sl ins q'], auto simp: grows_refl tc roots_heap fun_eq_iff)
    show "wp (case (new, q) of (new_node, w) \<Rightarrow> with_unique_ptr new_node
               (sbind (sread (heap_internal w)) (\<lambda>n.
                sbind (slift (child_at n i)) (\<lambda>child.
                sseq (delete_node child (d + hash_index_bits))
                  (sseq (heap_put w (Heap_internal (n\<lparr>i_children := (i_children n)[i := p1]\<rparr>)))
                    (sret (new_node, tag w)))))))
      (\<lambda>(_, node) s2. \<exists>t' e. inserted P s d (Inode p b ts) k v u node x (parent node (of_nat i) # ps) s2 t' e) (failed s) ?s1"
    proof (cases "is_heap (tptr tc)")
      case True
      then obtain n where "is_internal (tptr tc)" "d = 60" "heap ?s1 (untag (tptr tc)) = Some (Heap_linear n)"
        using lin by auto
      with True res show ?thesis
        by (simp add: wp_simps wp_with_unique_ptr at hash_index_bits_eq wp_delete_linear [of "tptr tc" _ n])
    next
      case False
      with res show ?thesis
        by (simp add: wp_simps wp_with_unique_ptr at wp_delete_stored)
    qed
  qed (use node in simp)
qed

lemma insert_descend:
  assumes ok: "tx_ok s" and t: "tree_ok P s d (Inode p b ts)" and hash: "hash = drop_bit d (p_hash P k)"
    and bt: "bit b (hslice d (p_hash P k))"
    and rec: "\<And>c. c \<in> set ts \<Longrightarrow> wp (rec (tptr c) (drop_bit 6 hash) []) (insert_post P s (d + 6) c k v u) (failed s) s"
  shows "wp (insert_into_internal P rec p k v hash d []) (insert_post P s d (Inode p b ts) k v u) (failed s) s"
proof -
  note node = inode_get [OF ok t]
  let ?n = "inode b (map tptr ts)" and ?j = "hslice d (p_hash P k)"
  define i where "i = index_below b ?j"
  have j: "unat (hash AND hash_index_mask) = ?j" "?j < 64"
    by (simp add: hash hslice_unat) (rule hslice_unat)
  have i: "i < length ts" and sl: "?j = positions b ! i"
    using positions_at [of ?j b] j(2) bt node(3) by (simp_all add: i_def)
  have i64: "i \<le> 64"
    unfolding i_def by (rule index_below_less_64)
  have un: "unat (of_nat i :: u64) = i" "(of_nat i :: u64) \<noteq> not_found"
    using i64 of_nat_not_found [of i] by (simp_all add: unsigned_of_nat take_bit_nat_eq_self)
  have look: "internal_lookup ?n (hash AND hash_index_mask) = Inr (tptr (ts ! i), of_nat i)"
    using internal_lookup_found [OF node(5) hash_index_less(2) [of hash]] bt j i by (simp add: i_def)
  let ?push = "\<lambda>(x::bool) ps (new_node, node). with_unique_ptr new_node
      (sbind (slift (push_parent node (of_nat i) ps)) (\<lambda>ps. sret ((node, x), ps)))"
  let ?change = "\<lambda>p1. if p1 \<noteq> tptr (ts ! i)
      then sbind (make_writable (p_new P) p ?n) (\<lambda>(new_node, w).
             with_unique_ptr new_node
               (sbind (sread (heap_internal w)) (\<lambda>n.
                sbind (slift (child_at n (unat (of_nat i :: u64)))) (\<lambda>child.
                sseq (delete_node child (d + hash_index_bits))
                  (sseq (heap_put w (Heap_internal (n\<lparr>i_children := (i_children n)[unat (of_nat i :: u64) := p1]\<rparr>)))
                    (sret (new_node, tag w)))))))
      else sret (None, p)"
  have step: "wp (sbind (?change p1) (?push x ps)) (insert_post P s d (Inode p b ts) k v u) (failed s) s'"
    if ins: "inserted P s (d + 6) (ts ! i) k v u p1 x ps s' t1 e" for p1 x ps s' t1 e
  proof -
    have len: "length ps < 13"
      using paths_length [OF ins] by simp
    have "wp (?change p1) (\<lambda>(_, node) s2. \<exists>t' e. inserted P s d (Inode p b ts) k v u node x (parent node (of_nat i) # ps) s2 t' e)
        (failed s) s'"
    proof (cases "p1 = tptr (ts ! i)")
      case True
      have "\<exists>t' e. inserted P s d (Inode p b ts) k v u p x (parent p (of_nat i) # ps) s' t' e"
        using inserted_inode_same [OF t i sl ins [unfolded True]] by blast
      with True show ?thesis
        by (simp add: wp_simps)
    next
      case False
      then show ?thesis
        using replace_child [OF t i sl ins False ok] un(1) by simp
    qed
    then show ?thesis
      unfolding wp_sbind
      by (rule wp_mono) (use len in \<open>simp_all add: case_prod_unfold wp_with_unique_ptr wp_simps wp_push_parent\<close>)
  qed
  have "wp (rec (tptr (ts ! i)) (drop_bit 6 hash) []) (insert_post P s (d + 6) (ts ! i) k v u) (failed s) s"
    using rec i by simp
  then have "wp (rec (tptr (ts ! i)) (drop_bit 6 hash) [])
      (\<lambda>((p1, x), ps). wp (sbind (?change p1) (?push x ps)) (insert_post P s d (Inode p b ts) k v u) (failed s)) (failed s) s"
    by (rule wp_mono) (use step in \<open>unfold case_prod_unfold, blast+\<close>)
  then show ?thesis
    unfolding insert_into_internal_def
    using node(1) look un(2) by (simp add: wp_simps hash_index_bits_eq case_prod_unfold cong: if_cong)
qed

lemma insert_node_leaf:
  assumes ok: "tx_ok s" and t: "tree_ok P s d (Leaf a ek ev)" and sp: "space P s k v"
    and hash: "hash = drop_bit d (p_hash P k)"
  shows "wp (insert_node P a k v hash d [] u) (insert_post P s d (Leaf a ek ev) k v u) (failed s) s"
proof -
  have lf: "leaf_ok P s (a, ek, ev)" "6 dvd d" "d \<le> 66"
    using t by (simp_all add: tree_ok_def)
  note ptr = leaf_ok_pointer [OF lf(1)]
  have key: "get_key P s a = Inr ek"
    by (rule load_leaf_ok(1) [OF tx_okD [OF ok] lf(1)])
  show ?thesis
  proof (cases "k = ek")
    case True
    have up: "insert_post P s d (Leaf a ek ev) k v True ((b, True), [parent b not_found]) s'"
      if s': "grows s s'" "heap s' = heap s" "leaf_ok P s' (b, k, v)" "grown P k v s s'" for b s'
    proof -
      have "inserted P s d (Leaf a ek ev) k v True b True [parent b not_found] s' (Leaf b k v) (b, k, v)"
        using s' True lf ptr leaf_ok_pointer(1) [OF s'(3)] by (auto simp: inserted_def tree_ok_def heap_moves_leaf)
      then show ?thesis by auto
    qed
    have same: "insert_post P s d (Leaf a ek ev) k v False ((a, True), [parent a not_found]) s"
    proof -
      have "inserted P s d (Leaf a ek ev) k v False a True [parent a not_found] s (Leaf a ek ev) (a, ek, ev)"
        using t True ok ptr by (auto simp: inserted_def grows_refl heap_moves_leaf)
      then show ?thesis by auto
    qed
    have "wp (store_leaf_node P k v []) (\<lambda>(b, ps). insert_post P s d (Leaf a ek ev) k v True ((b, True), ps)) (failed s) s"
      by (rule wp_store_leaf [OF ok sp]) (use up in simp_all)
    then show ?thesis
      unfolding insert_node.simps [of P a] using True ptr key same
      by (cases u) (simp_all add: wp_simps wp_push_parent case_prod_unfold wp_ext)
  next
    case False
    have "wp (insert_into_leaf P a k v (if d < 64 then drop_bit d (p_hash P ek) else p_wide_shift P (p_hash P ek) d) hash d [])
      (\<lambda>(p, ps) s'. \<exists>t' e. inserted P s d (Leaf a ek ev) k v u p False ps s' t' e) (failed s) s"
      using lf hash False by (intro insert_into_leaf_ok [OF ok lf(1) _ sp]) (auto elim!: dvdE)
    then show ?thesis
      unfolding insert_node.simps [of P a] using False ptr key
      by (simp add: wp_simps Let_def case_prod_unfold wp_ext)
  qed
qed

lemma insert_node_ok:
  assumes "tx_ok s" and "tree_ok P s d t" and "space P s k v" and "hash = drop_bit d (p_hash P k)"
  shows "wp (insert_node P (tptr t) k v hash d [] u) (insert_post P s d t k v u) (failed s) s"
  using assms(2,4)
proof (induction t arbitrary: d hash)
  case (Leaf a ek ev)
  then show ?case
    using insert_node_leaf assms(1,3) by simp
next
  case (Inode p b ts)
  have p: "\<not> is_leaf p" "d < 66"
    using Inode.prems(1) by (auto simp: tree_ok_def internal_ok_def is_leaf_def)
  have rec: "wp (insert_node P (tptr c) k v (drop_bit 6 hash) (d + 6) [] u) (insert_post P s (d + 6) c k v u) (failed s) s"
    if "c \<in> set ts" for c
    using that Inode.prems by (intro Inode.IH inode_child_ok [OF Inode.prems(1)]) (simp_all add: add.commute)
  have "wp (insert_into_internal P (\<lambda>c h ps. insert_node P c k v h (d + 6) ps u) p k v hash d [])
      (insert_post P s d (Inode p b ts) k v u) (failed s) s"
  proof (cases "bit b (hslice d (p_hash P k))")
    case True
    then show ?thesis
      by (rule insert_descend [OF assms(1) Inode.prems(1,2)]) (rule rec)
  next
    case False
    then show ?thesis
      by (rule insert_new_child [OF assms(1) Inode.prems(1) assms(3) Inode.prems(2)])
  qed
  then show ?case
    using p by (simp add: insert_node.simps [of P p] depth_is_internal_node_iff hash_index_bits_eq)
next
  case (Lnode p es)
  have d: "d = 66" and p: "\<not> is_leaf p"
    using Lnode.prems(1) by (auto simp: tree_ok_def linear_ok_def is_leaf_def)
  have "wp (insert_into_linear P p k v [] u) (insert_post P s d (Lnode p es) k v u) (failed s) s"
    using insert_into_linear_ok [OF assms(1) _ assms(3), of p es] Lnode.prems(1) by (simp add: d case_prod_unfold)
  then show ?case
    using p by (simp add: insert_node.simps [of P p] depth_is_internal_node_iff d)
qed

end

end
