(* ===== verification/Hamt_Contract.thy ===== *)
theory Hamt_Contract
  imports Hamt_Insert_Node
begin

unbundle bit_operations_syntax

text \<open>
  An index as a finite map: the invariant of \<^verbatim>\<open>hamt_map\<close> objects, what insertion and lookup do to
  the map that an index stands for, and the contract that a client of an index relies on.
\<close>

section \<open>The contract\<close>

text \<open>
  A map that is kept in a state. \<open>ok s m M\<close>: in the state \<open>s\<close>, the object \<open>m\<close> holds the finite
  map \<open>M\<close>; \<open>left\<close> is the space that the state has left and \<open>cost\<close> what an entry takes of it. An
  insertion either has its effect or runs out of memory and then leaves the object as it was.
\<close>

definition assigned :: "bool \<Rightarrow> ('k \<rightharpoonup> 'v) \<Rightarrow> 'k \<Rightarrow> 'v \<Rightarrow> 'k \<rightharpoonup> 'v" where
  "assigned upsert M k v = (if M k \<noteq> None \<and> \<not> upsert then M else M(k \<mapsto> v))"

fun insert_seq :: "('m \<Rightarrow> 'k \<Rightarrow> 'v \<Rightarrow> ('s, 'm \<times> 'i \<times> bool) sx) \<Rightarrow> 'm \<Rightarrow> ('k \<times> 'v) list \<Rightarrow> ('s, 'm) sx" where
  "insert_seq ins m [] = sret m"
| "insert_seq ins m ((k, v) # kvs) = sbind (ins m k v) (\<lambda>(m, _). insert_seq ins m kvs)"

locale stored_map =
  fixes ok :: "'s \<Rightarrow> 'm \<Rightarrow> ('k \<rightharpoonup> 'v) \<Rightarrow> bool"
    and left :: "'s \<Rightarrow> nat" and cost :: "'k \<Rightarrow> 'v \<Rightarrow> nat"
    and ins :: "bool \<Rightarrow> 'm \<Rightarrow> 'k \<Rightarrow> 'v \<Rightarrow> ('s, 'm \<times> 'i \<times> bool) sx"
    and look :: "'s \<Rightarrow> 'm \<Rightarrow> 'k \<Rightarrow> exn + 'i"
    and deref :: "'s \<Rightarrow> 'i \<Rightarrow> exn + 'k \<times> 'v"
    and stop :: 'i
  assumes ins_law: "ok s m M \<Longrightarrow> cost k v \<le> left s \<Longrightarrow>
      wp (ins u m k v) (\<lambda>(m', i, new) s'. ok s' m' (assigned u M k v) \<and> new = (M k = None)
          \<and> deref s' i = Inr (k, the (assigned u M k v k)) \<and> left s \<le> left s' + cost k v)
        (\<lambda>e s'. e = Bad_alloc \<and> ok s' m M) s"
    and look_law: "ok s m M \<Longrightarrow> \<exists>i. look s m k = Inr i
      \<and> (case M k of None \<Rightarrow> i = stop | Some v \<Rightarrow> i \<noteq> stop \<and> deref s i = Inr (k, v))"
begin

lemma look_cases:
  assumes "ok s m M"
  obtains "M k = None" "look s m k = Inr stop"
  | i v where "M k = Some v" "look s m k = Inr i" "i \<noteq> stop" "deref s i = Inr (k, v)"
  using look_law [OF assms, of k] by (auto split: option.splits)

text \<open>What is found after an insertion: the new value for its key, and the old one for any other.\<close>

lemma look_after_insert:
  assumes "ok s m M" and "cost k v \<le> left s" and "ins u m k v s = (Inr (m', i, new), s')"
  shows "\<exists>j. look s' m' k' = Inr j \<and> (case assigned u M k v k' of None \<Rightarrow> j = stop | Some w \<Rightarrow> deref s' j = Inr (k', w))"
proof -
  have "ok s' m' (assigned u M k v)"
    using wp_result [OF ins_law [OF assms(1,2), of u] assms(3)] by simp
  then show ?thesis
    by (cases rule: look_cases [of _ _ _ k']) auto
qed

text \<open>A sequence of assignments for which there is space.\<close>

definition total_cost :: "('k \<times> 'v) list \<Rightarrow> nat" where
  "total_cost kvs = sum_list (map (\<lambda>(k, v). cost k v) kvs)"

lemma insert_seq_ok:
  assumes "ok s m M" and "total_cost kvs \<le> left s"
  shows "wp (insert_seq (ins True) m kvs) (\<lambda>m' s'. ok s' m' (M ++ map_of (rev kvs)))
    (\<lambda>e s'. e = Bad_alloc \<and> (\<exists>n m'. ok s' m' (M ++ map_of (rev (take n kvs))))) s"
  using assms
proof (induction kvs arbitrary: s m M)
  case Nil
  then show ?case by (simp add: wp_simps)
next
  case (Cons kv kvs)
  let ?E = "\<lambda>e s'. e = Bad_alloc \<and> (\<exists>n m'. ok s' m' (M ++ map_of (rev (take n (kv # kvs)))))"
  obtain k v where kv: "kv = (k, v)" by force
  have M: "M(k \<mapsto> v) ++ map_of (rev kvs') = M ++ map_of (rev (kv # kvs'))" for kvs'
    by (auto simp: kv map_add_def fun_eq_iff split: option.splits)
  have c: "cost k v + total_cost kvs \<le> left s"
    using Cons.prems(2) by (simp add: kv total_cost_def)
  then have "cost k v \<le> left s" by simp
  from ins_law [OF Cons.prems(1) this, of True]
  have "wp (ins True m k v) (\<lambda>(m', _) s'. wp (insert_seq (ins True) m' kvs) (\<lambda>m' s'. ok s' m' (M ++ map_of (rev (kv # kvs)))) ?E s')
      ?E s"
  proof (rule wp_mono)
    fix x s' assume "(case x of (m', i, new) \<Rightarrow> \<lambda>s'. ok s' m' (assigned True M k v) \<and> new = (M k = None)
      \<and> deref s' i = Inr (k, the (assigned True M k v k)) \<and> left s \<le> left s' + cost k v) s'"
    then obtain m' r where x: "x = (m', r)" and ok': "ok s' m' (M(k \<mapsto> v))" and l: "left s \<le> left s' + cost k v"
      by (cases x) (auto simp: assigned_def)
    have "wp (insert_seq (ins True) m' kvs) (\<lambda>m' s'. ok s' m' (M(k \<mapsto> v) ++ map_of (rev kvs)))
        (\<lambda>e s'. e = Bad_alloc \<and> (\<exists>n m'. ok s' m' (M(k \<mapsto> v) ++ map_of (rev (take n kvs))))) s'"
      using c l by (intro Cons.IH ok') simp
    then have "wp (insert_seq (ins True) m' kvs) (\<lambda>m' s'. ok s' m' (M ++ map_of (rev (kv # kvs)))) ?E s'"
      unfolding M by (rule wp_mono) (use take_Suc_Cons [of _ kv kvs] in \<open>metis+\<close>)
    then show "(case x of (m', _) \<Rightarrow> \<lambda>s'. wp (insert_seq (ins True) m' kvs)
        (\<lambda>m' s'. ok s' m' (M ++ map_of (rev (kv # kvs)))) ?E s') s'"
      by (simp add: x)
  qed (auto intro!: exI [of _ 0] exI [of _ m])
  then show ?case
    unfolding kv insert_seq.simps wp_sbind by (simp add: case_prod_unfold)
qed

end

section \<open>Looking a key up\<close>

context index_params
begin

lemma find_leaf:
  assumes "db_ok s" and "\<not> db_closed s" and "leaf_ok P s (a, ek, ev)" and "length ps < 13"
  shows "find_loop P s k a h d ps = Inr (if ek = k then Some (parent a not_found # ps) else None)"
  using leaf_ok_pointer [OF assms(3)] load_leaf_ok(1) [OF assms(1-3)] assms(4)
  by (simp add: find_loop.simps [of P s k a] rbind_def push_parent_def hamt_constants)

text \<open>The search ends at the path of the key's entry.\<close>

definition search_result :: "('k, 'v) tree \<Rightarrow> 'k \<Rightarrow> parent_stack \<Rightarrow> parent_stack option \<Rightarrow> bool" where
  "search_result t k ps r \<longleftrightarrow>
     (if k \<in> set (keys t) then \<exists>qs e. (qs, e) \<in> set (paths t) \<and> ekey e = k \<and> r = Some (rev qs @ ps) else r = None)"

lemma find_linear:
  assumes db: "db_ok s" "\<not> db_closed s" and t: "tree_ok P s 66 (Lnode p es)" and ps: "length ps = 11"
  shows "\<exists>r. find_loop P s k p h 66 ps = Inr r \<and> search_result (Lnode p es) k ps r"
proof -
  have p: "\<not> is_leaf p" and es: "\<forall>e \<in> set es. leaf_ok P s e" "distinct (map ekey es)"
    and get: "linear_get_node s p = Inr (lnode (map fst es))"
    using t linear_get_node_ok [OF db, of p "map fst es"] by (auto simp: tree_ok_def linear_ok_def is_leaf_def)
  show ?thesis
  proof (cases "k \<in> ekey ` set es")
    case False
    then show ?thesis
      using linear_lookup_missing [OF db es(1) False] p get
      by (simp add: find_loop.simps [of P s k p] depth_is_internal_node_iff rbind_def linear_lookup_def search_result_def)
  next
    case True
    then obtain i where i: "i < length es" "ekey (es ! i) = k"
      by (auto simp: in_set_conv_nth)
    obtain a v where e: "es ! i = (a, k, v)"
      using i by (cases "es ! i") auto
    have nf: "(of_nat i :: u64) \<noteq> not_found"
      using linear_small [OF db es] i of_nat_not_found [of i] by simp
    have lf: "leaf_ok P s (a, k, v)"
      using es(1) i e nth_mem by metis
    have "find_loop P s k p h 66 ps
        = find_loop P s k a (drop_bit 6 h) 72 (parent p (of_nat i) # ps)"
      using linear_lookup_found [OF db es i, of 0] p get nf ps e
      by (simp add: find_loop.simps [of P s k p] depth_is_internal_node_iff rbind_def linear_lookup_def
          push_parent_def hamt_constants)
    also have "\<dots> = Inr (Some (parent a not_found # parent p (of_nat i) # ps))"
      using find_leaf [OF db lf] ps by simp
    finally show ?thesis
      using True i e
      by (auto simp: search_result_def paths_Lnode intro!: exI [of _ "[parent p (of_nat i), parent a not_found]"] exI [of _ "(a, k, v)"])
  qed
qed

lemma find_loop_ok:
  assumes db: "db_ok s" "\<not> db_closed s"
  shows "tree_ok P s d t \<Longrightarrow> 6 * length ps = d \<Longrightarrow>
    \<exists>r. find_loop P s k (tptr t) (drop_bit d (p_hash P k)) d ps = Inr r \<and> search_result t k ps r"
proof (induction t arbitrary: d ps)
  case (Leaf a ek ev)
  then have "leaf_ok P s (a, ek, ev)" "length ps < 13"
    by (auto simp: tree_ok_def)
  from find_leaf [OF db this] show ?case
    by (auto simp: search_result_def)
next
  case (Lnode p es)
  then have "d = 66" "length ps = 11"
    by (auto simp: tree_ok_def)
  then show ?case
    using find_linear [OF db, of p es] Lnode.prems by simp
next
  case (Inode p b ts)
  let ?h = "drop_bit d (p_hash P k)" and ?j = "hslice d (p_hash P k)" and ?n = "inode b (map tptr ts)"
  have p: "\<not> is_leaf p" "d < 66" "length ts = pop_count b" and wf: "node_wf ?n"
    and get: "internal_get_node s p = Inr ?n"
    using Inode.prems internal_get_node_ok [OF db, of p b "map tptr ts"]
    by (auto simp: tree_ok_def internal_ok_def is_leaf_def node_wf_def)
  have j: "unat (?h AND hash_index_mask) = ?j" "?j < 64"
    using hash_index_less(2) by (auto simp: hslice_def)
  show ?case
  proof (cases "bit b ?j")
    case False
    have "k \<notin> set (keys (Inode p b ts))"
      by (rule inode_missing [OF Inode.prems(1) False])
    moreover have "find_loop P s k p ?h d ps = Inr None"
      using internal_lookup_not_found [OF hash_index_less(2) [of ?h], of ?n] False j get p
      by (simp add: find_loop.simps [of P s k p] depth_is_internal_node_iff rbind_def)
    ultimately show ?thesis
      by (simp add: search_result_def)
  next
    case True
    define i where "i = index_below b ?j"
    have i: "i < length ts" and sl: "?j = positions b ! i"
      using positions_at [of ?j b] j(2) True p(3) by (simp_all add: i_def)
    have nf: "(of_nat i :: u64) \<noteq> not_found"
      using index_below_less_64 [of b ?j] of_nat_not_found [of i] by (simp add: i_def)
    have "find_loop P s k p ?h d ps
        = find_loop P s k (tptr (ts ! i)) (drop_bit (d + 6) (p_hash P k)) (d + 6) (parent p (of_nat i) # ps)"
      using internal_lookup_found [OF wf hash_index_less(2) [of ?h]] True j get p i nf Inode.prems(2)
      by (simp add: find_loop.simps [of P s k p] depth_is_internal_node_iff rbind_def push_parent_def
          hamt_constants i_def [symmetric] add.commute)
    moreover obtain r where "find_loop P s k (tptr (ts ! i)) (drop_bit (d + 6) (p_hash P k)) (d + 6) (parent p (of_nat i) # ps) = Inr r"
      and r: "search_result (ts ! i) k (parent p (of_nat i) # ps) r"
      using Inode.IH [of "ts ! i" "d + 6" "parent p (of_nat i) # ps"] inode_child_ok [OF Inode.prems(1)] i Inode.prems(2)
      by auto
    moreover have "search_result (Inode p b ts) k ps r"
    proof (cases "k \<in> set (keys (ts ! i))")
      case True
      then obtain qs e where "(qs, e) \<in> set (paths (ts ! i))" "ekey e = k" "r = Some (rev qs @ parent p (of_nat i) # ps)"
        using r by (auto simp: search_result_def)
      moreover from this have "(parent p (of_nat i) # qs, e) \<in> set (paths (Inode p b ts))"
        using i by (auto simp: paths_Inode)
      moreover have "k \<in> set (keys (Inode p b ts))"
        using True nth_mem [OF i] by force
      ultimately show ?thesis
        unfolding search_result_def by (auto intro!: exI [of _ "parent p (of_nat i) # qs"] exI [of _ e])
    next
      case False
      have "k \<notin> set (keys (Inode p b ts))"
        using False inode_keys_child [OF Inode.prems(1) i sl] inode_key_slice [OF Inode.prems(1), of k] by metis
      then show ?thesis
        using r False by (simp add: search_result_def)
    qed
    ultimately show ?thesis
      by simp
  qed
qed

end

section \<open>Index objects\<close>

definition tree_of :: "('k, 'v) tree option \<Rightarrow> (u64 \<times> 'k \<times> 'v) list" where
  "tree_of T = (case T of None \<Rightarrow> [] | Some t \<Rightarrow> entries t)"

definition heap_of :: "('k, 'v) tree option \<Rightarrow> u64 list" where
  "heap_of T = (case T of None \<Rightarrow> [] | Some t \<Rightarrow> hptrs t)"

text \<open>The index object \<open>m\<close> is the trie \<open>T\<close>.\<close>

definition hamt_is :: "('k, 'v) params \<Rightarrow> 'z database_scheme \<Rightarrow> hamt \<Rightarrow> ('k, 'v) tree option \<Rightarrow> bool" where
  "hamt_is P s m T \<longleftrightarrow>
     (case T of None \<Rightarrow> hm_root m = 0
      | Some t \<Rightarrow> tree_ok P s 0 t \<and> hm_root m = tptr t \<and> (is_leaf (tptr t) \<longleftrightarrow> length (entries t) = 1))
     \<and> unat (hm_size m) = length (tree_of T)"

text \<open>The finite map that it stands for.\<close>

definition contents :: "('k, 'v) tree option \<Rightarrow> 'k \<rightharpoonup> 'v" where
  "contents T = map_of (map snd (tree_of T))"

text \<open>An index that can be changed: a transaction is open and the index is that of the newest revision.\<close>

definition index_ok ::
  "('k, 'v) params \<Rightarrow> 'z transaction_scheme \<Rightarrow> hamt \<Rightarrow> ('k, 'v) tree option \<Rightarrow> bool" where
  "index_ok P s m T \<longleftrightarrow> tx_ok s \<and> hamt_is P s m T \<and> get_current_revision s = Inr (hm_revision m)"

text \<open>
  What an insertion does: the index holds the new assignment, the iterator refers to the key, the
  flag says whether the key is new; the file only grows, and of the heap's nodes those of the old
  tree that are not part of the new one are gone, and no other was touched.
\<close>

definition insert_result ::
  "('k, 'v) params \<Rightarrow> 'z transaction_scheme \<Rightarrow> ('k, 'v) tree option \<Rightarrow> 'k \<Rightarrow> 'v \<Rightarrow> bool
    \<Rightarrow> hamt \<times> parent_stack \<times> bool \<Rightarrow> 'z transaction_scheme \<Rightarrow> bool" where
  "insert_result P s T k v u r s' = (case r of (m', it, new) \<Rightarrow> \<exists>t'. index_ok P s' m' (Some t')
     \<and> contents (Some t') = assigned u (contents T) k v \<and> new = (contents T k = None)
     \<and> dereference P s' it = Inr (k, the (contents (Some t') k)) \<and> grows s s' \<and> grown P k v s s'
     \<and> dom (heap s') = (dom (heap s) - set (heap_of T)) \<union> set (hptrs t')
     \<and> (\<forall>q. heap s q \<noteq> None \<longrightarrow> q \<notin> set (heap_of T) \<longrightarrow> heap s' q = heap s q))"

lemma footer_later:
  assumes s: "db_ok s" "\<not> db_closed s" and s': "db_ok s'" "\<not> db_closed s'"
    and "later s s'" and pos: "db_footer_pos s' = db_footer_pos s"
  shows "get_footer s' = get_footer s"
proof -
  have f: "64 \<le> unat (db_footer_pos s)" "unat (db_footer_pos s) + sizeof_trailer \<le> unat (db_logical_size s)"
    using s(1) by (simp_all add: db_ok_def leader_size_def)
  then have "file_bytes s' (unat (db_footer_pos s)) sizeof_trailer = file_bytes s (unat (db_footer_pos s)) sizeof_trailer"
    using assms(5) by (auto simp: file_bytes_def later_def)
  then have "getro s' (db_footer_pos s) (of_nat sizeof_trailer) = getro s (db_footer_pos s) (of_nat sizeof_trailer)"
    using f assms(5) s s' by (simp add: getro_ok later_def)
  then show ?thesis
    by (simp add: get_footer_def getro_typed_def pos)
qed

lemma current_revision_grows:
  "tx_ok s \<Longrightarrow> grows s s' \<Longrightarrow> get_current_revision s' = get_current_revision s"
  using footer_later [of s s'] by (simp add: get_current_revision_def grows_def tx_okD)

lemma reverse_parents_ok: "length ps + length qs \<le> 13 \<Longrightarrow> reverse_parents ps qs = Inr (rev ps @ qs)"
  by (induction ps arbitrary: qs) (auto simp: push_parent_def rbind_def hamt_constants parent_def)

context index_params
begin

lemma hamt_entries:
  assumes "hamt_is P s m T"
  shows "distinct (map ekey (tree_of T))" and "\<forall>e \<in> set (tree_of T). leaf_ok P s e"
proof -
  have leaves: "\<forall>e \<in> set (entries t). leaf_ok P s e" if "repr P s d t" for d t
    using that by (induction t arbitrary: d) auto
  show "distinct (map ekey (tree_of T))"
    using assms repr_keys_distinct by (auto simp: hamt_is_def tree_of_def tree_ok_def split: option.splits)
  show "\<forall>e \<in> set (tree_of T). leaf_ok P s e"
    using assms leaves by (auto simp: hamt_is_def tree_of_def tree_ok_def split: option.splits)
qed

lemma contents_iff:
  assumes "hamt_is P s m T"
  shows "contents T k = Some v \<longleftrightarrow> (\<exists>a. (a, k, v) \<in> set (tree_of T))"
    and "contents T k = None \<longleftrightarrow> k \<notin> ekey ` set (tree_of T)"
proof -
  have "distinct (map fst (map snd (tree_of T)))"
    using hamt_entries(1) [OF assms] by (simp add: comp_def ekey_def [abs_def])
  then show "contents T k = Some v \<longleftrightarrow> (\<exists>a. (a, k, v) \<in> set (tree_of T))"
    by (force simp: contents_def)
  show "contents T k = None \<longleftrightarrow> k \<notin> ekey ` set (tree_of T)"
    by (auto simp: contents_def map_of_eq_None_iff ekey_def [abs_def] image_comp)
qed

lemma hamt_empty_ok:
  assumes "hamt_is P s m T"
  shows "hamt_empty m = Inr (T = None)"
proof (cases T)
  case None
  then show ?thesis
    using assms by (simp add: hamt_is_def hamt_empty_def rbind_def rassert_def is_empty_pointer_def tree_of_def unat_eq_0)
next
  case (Some t)
  then have t: "repr P s 0 t" "hm_root m = tptr t" "unat (hm_size m) = length (entries t)"
    using assms by (simp_all add: hamt_is_def tree_ok_def tree_of_def)
  have "hm_size m \<noteq> 0"
    using t(3) repr_entries_nonempty [OF t(1)] by auto
  moreover have "tptr t \<noteq> 0"
    using t(1) by (cases t) (auto simp: leaf_ok_def internal_ok_def linear_ok_def is_internal_def)
  ultimately show ?thesis
    using Some t(2) by (simp add: hamt_empty_def rbind_def rassert_def is_empty_pointer_def)
qed

lemma paths_last: "(qs, e) \<in> set (paths t) \<Longrightarrow> \<exists>rs. qs = rs @ [parent (fst e) not_found]"
proof (induction t arbitrary: qs)
  case (Inode p b ts)
  from Inode.prems obtain i rs where i: "i < length ts" "qs = parent p (of_nat i) # rs" "(rs, e) \<in> set (paths (ts ! i))"
    by (auto simp: paths_Inode)
  then obtain rs' where "rs = rs' @ [parent (fst e) not_found]"
    using Inode.IH [of "ts ! i" rs] by auto
  then show ?case
    using i(2) by auto
qed (auto simp: paths_Lnode)

lemma path_entry: "(qs, e) \<in> set (paths t) \<Longrightarrow> e \<in> set (entries t)"
  by (metis in_set_conv_nth length_map nth_map snd_conv snd_paths)

lemma path_dereference:
  assumes "db_ok s" and "\<not> db_closed s" and "(qs, e) \<in> set (paths t)" and "leaf_ok P s e"
  shows "dereference P s (rev qs @ ps) = Inr (snd e)" and "rev qs @ ps \<noteq> []"
proof -
  obtain a k v where e: "e = (a, k, v)" by (cases e)
  obtain rs where "qs = rs @ [parent a not_found]"
    using paths_last [OF assms(3)] e by auto
  then show "dereference P s (rev qs @ ps) = Inr (snd e)" "rev qs @ ps \<noteq> []"
    using load_leaf_ok(2) [OF assms(1,2)] assms(4) leaf_ok_pointer(1) [of s a k v]
    by (simp_all add: e dereference_def get_address_def parent_def rbind_def rassert_def)
qed

lemma find_ok:
  assumes db: "db_ok s" "\<not> db_closed s" and m: "hamt_is P s m T"
  shows "\<exists>it. find P s m k = Inr it \<and> (case contents T k of
      None \<Rightarrow> it = [] | Some v \<Rightarrow> it \<noteq> [] \<and> dereference P s it = Inr (k, v))"
proof (cases T)
  case None
  then show ?thesis
    using hamt_empty_ok [OF m] by (simp add: find_def rbind_def contents_def tree_of_def)
next
  case (Some t)
  have t: "tree_ok P s 0 t" "hm_root m = tptr t" and E: "tree_of T = entries t"
    using m Some by (simp_all add: hamt_is_def tree_of_def)
  obtain r where r: "find_loop P s k (hm_root m) (p_hash P k) 0 [] = Inr r" "search_result t k [] r"
    using find_loop_ok [OF db t(1), of "[]" k] t(2) by auto
  have run: "find P s m k = Inr (case r of None \<Rightarrow> [] | Some ps \<Rightarrow> ps)"
    using hamt_empty_ok [OF m] Some r(1) by (simp add: find_def rbind_def)
  show ?thesis
  proof (cases "k \<in> set (keys t)")
    case False
    then have "contents T k = None"
      using contents_iff(2) [OF m] E by simp
    then show ?thesis
      using run r(2) False by (simp add: search_result_def)
  next
    case True
    then obtain qs e where qs: "(qs, e) \<in> set (paths t)" "ekey e = k" "r = Some (rev qs)"
      using r(2) by (auto simp: search_result_def)
    obtain a v where e: "e = (a, k, v)"
      using qs(2) by (cases e) auto
    have mem: "e \<in> set (tree_of T)"
      using path_entry [OF qs(1)] E by simp
    then have "contents T k = Some v"
      using contents_iff(1) [OF m] e by auto
    moreover have "leaf_ok P s e"
      using mem hamt_entries(2) [OF m] by blast
    ultimately show ?thesis
      using path_dereference [OF db qs(1), of "[]"] run qs(3) by (simp add: e)
  qed
qed

section \<open>Inserting\<close>

lemma entries_length:
  assumes "distinct (map ekey es)" and "distinct (map ekey es')" and "ekey e = k"
    and "set es' = insert e {e \<in> set es. ekey e \<noteq> k}"
  shows "length es' = (if k \<in> ekey ` set es then length es else length es + 1)"
proof -
  have d: "distinct es" "distinct es'"
    using assms(1,2) by (simp_all add: distinct_map)
  have "length es' = card (insert e {e \<in> set es. ekey e \<noteq> k})"
    using d(2) assms(4) distinct_card by metis
  also have "\<dots> = card {e \<in> set es. ekey e \<noteq> k} + 1"
    using assms(3) by simp
  finally have l: "length es' = card {e \<in> set es. ekey e \<noteq> k} + 1" .
  show ?thesis
  proof (cases "k \<in> ekey ` set es")
    case False
    then have "{e \<in> set es. ekey e \<noteq> k} = set es"
      by auto
    then show ?thesis
      using l d(1) False distinct_card [of es] by simp
  next
    case True
    then obtain x where x: "x \<in> set es" "ekey x = k" by auto
    then have "{e \<in> set es. ekey e \<noteq> k} = set es - {x}"
      using assms(1) by (auto simp: distinct_map inj_on_def)
    then show ?thesis
      using l d(1) True x distinct_card [of es] length_pos_if_in_set [OF x(1)] by simp
  qed
qed

lemma index_ok_grows:
  assumes "index_ok P s m T" and "grows s s'" and "\<And>q. q \<in> set (heap_of T) \<Longrightarrow> heap s' q = heap s q"
  shows "index_ok P s' m T"
  using assms current_revision_grows [of s s'] tree_ok_grows [of s 0 _ s']
  by (auto simp: index_ok_def hamt_is_def heap_of_def growsD split: option.splits)

lemma inserted_index:
  assumes m: "index_ok P s m (Some t)" and ins: "inserted P s 0 t k v u p x ps s' t' e"
  defines "m' \<equiv> m\<lparr>hm_root := p, hm_size := if x then hm_size m else hm_size m + 1\<rparr>"
  shows "index_ok P s' m' (Some t')" and "contents (Some t') = assigned u (contents (Some t)) k v"
    and "dom (heap s') = (dom (heap s) - set (hptrs t)) \<union> set (hptrs t')"
    and "x \<longleftrightarrow> contents (Some t) k \<noteq> None" and "dereference P s' (rev ps) = Inr (k, the (contents (Some t') k))"
proof -
  have tx: "tx_ok s" and hm: "hamt_is P s m (Some t)" and rev: "get_current_revision s = Inr (hm_revision m)"
    using m by (simp_all add: index_ok_def)
  have t: "tree_ok P s 0 t" "is_leaf (tptr t) \<longleftrightarrow> length (entries t) = 1" "unat (hm_size m) = length (entries t)"
    using hm by (simp_all add: hamt_is_def tree_of_def)
  have t': "tree_ok P s' 0 t'" "p = tptr t'" and g: "grows s s'" and hv: "heap_moves s 0 t s' t'"
    and x: "x \<longleftrightarrow> k \<in> ekey ` set (entries t)" and e: "ekey e = k" "(ps, e) \<in> set (paths t')"
    and E: "set (entries t') = insert e {e \<in> set (entries t). ekey e \<noteq> k}"
    and lf: "x \<longrightarrow> is_leaf (tptr t) \<longrightarrow> is_leaf p"
    and res: "if x \<and> \<not> u then e \<in> set (entries t) else snd (snd e) = v"
    using ins unfolding inserted_def set_map by blast+
  have tx': "tx_ok s'"
    by (rule growsD(1) [OF g])
  have rep: "repr P s 0 t" "repr P s' 0 t'"
    using t(1) t'(1) by (simp_all add: tree_ok_def)
  have len: "length (entries t') = (if x then length (entries t) else length (entries t) + 1)"
    using entries_length [OF repr_keys_distinct [OF rep(1)] repr_keys_distinct [OF rep(2)] e(1) E] x by simp
  have small: "length (entries t) < 2 ^ 38"
    using linear_small [OF tx_okD [OF tx], of "entries t"] hamt_entries [OF hm] by (simp add: tree_of_def)
  have sz: "unat (hm_size m') = length (entries t')"
  proof (cases x)
    case True
    then show ?thesis using t(3) len by (simp add: m'_def)
  next
    case False
    have "unat (hm_size m + 1) = unat (hm_size m) + unat (1 :: u64)"
      using small t(3) by (intro unat_plus_no_wrap) simp
    then show ?thesis using False t(3) len by (simp add: m'_def)
  qed
  have "is_leaf p \<longleftrightarrow> length (entries t') = 1"
  proof
    assume "is_leaf p"
    then show "length (entries t') = 1"
      using repr_leaf_pointer [OF rep(2)] t'(2) by auto
  next
    assume one: "length (entries t') = 1"
    then have "x" "length (entries t) = 1"
      using len repr_entries_nonempty [OF rep(1)] by (auto split: if_splits)
    then show "is_leaf p"
      using lf t(2) by simp
  qed
  then have hm': "hamt_is P s' m' (Some t')"
    using t' sz by (simp add: hamt_is_def tree_of_def m'_def)
  then show "index_ok P s' m' (Some t')"
    using tx' rev current_revision_grows [OF tx g] by (simp add: index_ok_def m'_def)
  show "dom (heap s') = (dom (heap s) - set (hptrs t)) \<union> set (hptrs t')"
    using hv by (auto simp: heap_moves_def roots_def split: if_splits)
  show xc: "x \<longleftrightarrow> contents (Some t) k \<noteq> None"
    using contents_iff(2) [OF hm, of k] x by (simp add: tree_of_def)
  obtain a w where ea: "e = (a, k, w)"
    using e(1) by (cases e) auto
  have ck: "contents (Some t') k = Some w"
    using contents_iff(1) [OF hm', of k w] E ea by (auto simp: tree_of_def)
  show "contents (Some t') = assigned u (contents (Some t)) k v"
  proof
    fix k'
    show "contents (Some t') k' = assigned u (contents (Some t)) k v k'"
    proof (cases "k' = k")
      case True
      have "contents (Some t) k = Some w" if "x" "\<not> u"
        using contents_iff(1) [OF hm, of k w] res that ea by (auto simp: tree_of_def)
      then show ?thesis
        using True ck res xc ea by (auto simp: assigned_def split: if_splits)
    next
      case False
      then have "contents (Some t') k' = Some w' \<longleftrightarrow> contents (Some t) k' = Some w'" for w'
        using contents_iff(1) [OF hm', of k' w'] contents_iff(1) [OF hm, of k' w'] E ea by (auto simp: tree_of_def)
      then have "contents (Some t') k' = contents (Some t) k'"
        by (metis option.exhaust)
      then show ?thesis
        using False by (simp add: assigned_def)
    qed
  qed
  have "leaf_ok P s' e"
    using hamt_entries(2) [OF hm'] E by (simp add: tree_of_def)
  then show "dereference P s' (rev ps) = Inr (k, the (contents (Some t') k))"
    using path_dereference(1) [OF tx_okD [OF tx'] e(2), of "[]"] ck ea by simp
qed

lemma insert_empty:
  assumes m: "index_ok P s m None" and g: "grows s s'" and lf: "leaf_ok P s' (a, k, v)"
  defines "m' \<equiv> m\<lparr>hm_root := a, hm_size := 1\<rparr>"
  shows "index_ok P s' m' (Some (Leaf a k v))" and "contents (Some (Leaf a k v)) = assigned u (contents None) k v"
    and "dereference P s' [parent a not_found] = Inr (k, v)"
proof -
  have tx: "tx_ok s" and rev: "get_current_revision s = Inr (hm_revision m)"
    using m by (simp_all add: index_ok_def)
  show "index_ok P s' m' (Some (Leaf a k v))"
    using lf g rev current_revision_grows [OF tx g] leaf_ok_pointer(1) [OF lf]
    by (simp add: index_ok_def hamt_is_def tree_of_def tree_ok_def growsD m'_def)
  show "contents (Some (Leaf a k v)) = assigned u (contents None) k v"
    by (auto simp: contents_def tree_of_def assigned_def)
  show "dereference P s' [parent a not_found] = Inr (k, v)"
    using path_dereference(1) [OF tx_okD [OF growsD(1) [OF g]], of "[parent a not_found]" "(a, k, v)" "Leaf a k v" "[]"] lf
    by simp
qed

lemma insert_or_upsert_ok:
  assumes m: "index_ok P s m T" and sp: "space P s k v"
  shows "wp (insert_or_upsert P m k v u) (insert_result P s T k v u) (\<lambda>e s'. failed s e s' \<and> index_ok P s' m T) s"
proof -
  have tx: "tx_ok s" and hm: "hamt_is P s m T" and rev: "get_current_revision s = Inr (hm_revision m)"
    using m by (simp_all add: index_ok_def)
  note empty = hamt_empty_ok [OF hm]
  have keep: "index_ok P s' m T" if "failed s e s'" for e s'
  proof (rule index_ok_grows [OF m])
    show "grows s s'" using that by (simp add: failed_def)
    show "heap s' q = heap s q" if "q \<in> set (heap_of T)" for q
      using that \<open>failed s e s'\<close> hm repr_hptrs_dom
      by (fastforce simp: failed_def heap_of_def hamt_is_def tree_ok_def split: option.splits)
  qed
  show ?thesis
  proof (cases T)
    case None
    have "wp (store_leaf_node P k v []) (\<lambda>(a, ps). insert_result P s T k v u (m\<lparr>hm_root := a, hm_size := 1\<rparr>, ps, True))
        (\<lambda>e s'. failed s e s' \<and> index_ok P s' m T) s"
    proof (rule wp_store_leaf [OF tx sp])
      fix a s' assume s': "grows s s'" "heap s' = heap s" "leaf_ok P s' (a, k, v)" "grown P k v s s'"
      have "insert_result P s T k v u (m\<lparr>hm_root := a, hm_size := 1\<rparr>, [parent a not_found], True) s'"
        unfolding insert_result_def prod.case
        using insert_empty [OF m [unfolded None] s'(1,3)] s'
        by (intro exI [of _ "Leaf a k v"])
          (simp add: None heap_of_def contents_def tree_of_def assigned_def)
      then show "(case (a, [parent a not_found]) of (a, ps) \<Rightarrow>
          insert_result P s T k v u (m\<lparr>hm_root := a, hm_size := 1\<rparr>, ps, True)) s'"
        by simp
    qed simp
    then show ?thesis
      unfolding insert_or_upsert_def using rev empty None by (simp add: wp_simps wp_ext case_prod_unfold)
  next
    case (Some t)
    have t: "tree_ok P s 0 t" "hm_root m = tptr t"
      using hm Some by (simp_all add: hamt_is_def)
    have "wp (insert_node P (hm_root m) k v (p_hash P k) 0 [] u)
      (\<lambda>r s'. case r of ((root, x), ps) \<Rightarrow> reverse_parents ps [] = Inr (rev ps)
        \<and> insert_result P s T k v u (m\<lparr>hm_root := root, hm_size := (if x then hm_size m else hm_size m + 1)\<rparr>, rev ps, \<not> x) s')
      (\<lambda>e s'. failed s e s' \<and> index_ok P s' m T) s"
      using insert_node_ok [OF tx t(1) sp, of "p_hash P k" u] unfolding t(2) [symmetric] drop_bit_0 id_apply
    proof (rule wp_mono)
      fix r s' assume "insert_post P s 0 t k v u r s'"
      then obtain t' e root x ps where r: "r = ((root, x), ps)" and ins: "inserted P s 0 t k v u root x ps s' t' e"
        by (metis prod.collapse)
      have "length ps \<le> 13"
        using paths_length [OF ins] by simp
      moreover have "\<forall>q. heap s q \<noteq> None \<longrightarrow> q \<notin> set (hptrs t) \<longrightarrow> heap s' q = heap s q" "grows s s'" "grown P k v s s'"
        using ins by (simp_all add: inserted_def heap_moves_def)
      ultimately show "case r of ((root, x), ps) \<Rightarrow> reverse_parents ps [] = Inr (rev ps)
        \<and> insert_result P s T k v u (m\<lparr>hm_root := root, hm_size := (if x then hm_size m else hm_size m + 1)\<rparr>, rev ps, \<not> x) s'"
        using inserted_index [OF m [unfolded Some] ins]
        by (auto simp: r insert_result_def Some heap_of_def reverse_parents_ok)
    qed (use keep in auto)
    then show ?thesis
      unfolding insert_or_upsert_def using rev empty Some
      by (simp add: wp_simps wp_ext case_prod_unfold) (auto elim!: wp_mono simp: wp_simps)
  qed
qed

end

sublocale index_params \<subseteq> index: stored_map "\<lambda>s m M. \<exists>T. index_ok P s m T \<and> contents T = M"
  "\<lambda>s. 2 ^ 38 - unat (db_logical_size s)" "\<lambda>k v. 4 + layout_space (p_puts P k v)"
  "\<lambda>u m k v. insert_or_upsert P m k v u" "find P" "dereference P" "[]"
proof
  fix s m M k v u
  assume "\<exists>T. index_ok P s m T \<and> contents T = M" and sp: "4 + layout_space (p_puts P k v) \<le> 2 ^ 38 - unat (db_logical_size s)"
  then obtain T where T: "index_ok P s m T" "contents T = M" by blast
  have "space P s k v"
    using sp by (simp add: space_def)
  from insert_or_upsert_ok [OF T(1) this, of u]
  show "wp (insert_or_upsert P m k v u) (\<lambda>(m', i, new) s'. (\<exists>T. index_ok P s' m' T \<and> contents T = assigned u M k v)
      \<and> new = (M k = None) \<and> dereference P s' i = Inr (k, the (assigned u M k v k))
      \<and> 2 ^ 38 - unat (db_logical_size s) \<le> 2 ^ 38 - unat (db_logical_size s') + (4 + layout_space (p_puts P k v)))
    (\<lambda>e s'. e = Bad_alloc \<and> (\<exists>T. index_ok P s' m T \<and> contents T = M)) s"
    by (rule wp_mono) (use T(2) in \<open>auto simp: insert_result_def grown_def failed_def\<close>)
next
  fix s m M k
  assume "\<exists>T. index_ok P s m T \<and> contents T = M"
  then obtain T where T: "index_ok P s m T" "contents T = M" by blast
  then show "\<exists>i. find P s m k = Inr i \<and> (case M k of None \<Rightarrow> i = [] | Some v \<Rightarrow> i \<noteq> [] \<and> dereference P s i = Inr (k, v))"
    using find_ok [of s m T k] by (simp add: index_ok_def tx_okD)
qed

end
