(* ===== verification/Hamt_Iterate.thy ===== *)
theory Hamt_Iterate
  imports Hamt_Contract
begin

unbundle bit_operations_syntax

text \<open>
  Iterating over an index: the iterator that \<^verbatim>\<open>begin ()\<close> returns and those that \<^verbatim>\<open>operator++\<close> goes through
  are the paths to the entries of the tree, in their order, and after the last comes \<^verbatim>\<open>end ()\<close>.
\<close>

section \<open>Adjacent elements of a concatenation\<close>

lemma successively_concat:
  assumes "\<And>i. i < n \<Longrightarrow> f i \<noteq> [] \<and> successively R (f i)"
    and "\<And>i. Suc i < n \<Longrightarrow> R (last (f i)) (hd (f (Suc i)))" and "0 < n"
  shows "successively R (concat (map f [0..<n]))" and "concat (map f [0..<n]) \<noteq> []"
    and "hd (concat (map f [0..<n])) = hd (f 0)" and "last (concat (map f [0..<n])) = last (f (n - 1))"
proof -
  have "successively R (concat (map f [0..<n])) \<and> concat (map f [0..<n]) \<noteq> []
      \<and> hd (concat (map f [0..<n])) = hd (f 0) \<and> last (concat (map f [0..<n])) = last (f (n - 1))"
    using assms
  proof (induction n)
    case (Suc n)
    show ?case
    proof (cases "n = 0")
      case False
      then show ?thesis
        using Suc.IH Suc.prems(1) [of n] Suc.prems(1,2) Suc.prems(2) [of "n - 1"]
        by (auto simp: successively_append_iff)
    qed (use Suc.prems(1) [of 0] in simp)
  qed simp
  then show "successively R (concat (map f [0..<n]))" "concat (map f [0..<n]) \<noteq> []"
    "hd (concat (map f [0..<n])) = hd (f 0)" "last (concat (map f [0..<n])) = last (f (n - 1))"
    by simp_all
qed

lemma map_enumerate: "map f (enumerate n xs) = map (\<lambda>i. f (n + i, xs ! i)) [0..<length xs]"
  by (rule nth_equalityI) (simp_all add: nth_enumerate_eq)

definition extended :: "index_pointer \<Rightarrow> nat \<Rightarrow> parent_type list \<times> 'e \<Rightarrow> parent_type list \<times> 'e" where
  "extended p i = (\<lambda>(qs, e). (parent p (of_nat i) # qs, e))"

lemma paths_Inode_concat:
  "paths (Inode p b ts) = concat (map (\<lambda>i. map (extended p i) (paths (ts ! i))) [0..<length ts])"
  unfolding paths.simps map_enumerate extended_def
  by (rule arg_cong [of _ _ concat], rule map_cong) auto

lemma paths_Lnode_concat:
  "paths (Lnode p es) = concat (map (\<lambda>i. [([parent p (of_nat i), parent (fst (es ! i)) not_found], es ! i)]) [0..<length es])"
  unfolding paths.simps map_enumerate by (simp add: concat_map_singleton)

lemma extended_simps [simp]:
  "fst (extended p i x) = parent p (of_nat i) # fst x" "snd (extended p i x) = snd x"
  by (simp_all add: extended_def case_prod_beta)

section \<open>A loop over an index\<close>

text \<open>
  The loop \<^verbatim>\<open>for (auto it = begin (); it != end (); ++it)\<close> that collects the pairs: its value is \<open>None\<close> when
  it does not end.
\<close>

partial_function (option) hamt_walk ::
  "('k, 'v) params \<Rightarrow> 'z database_scheme \<Rightarrow> parent_stack \<Rightarrow> (exn + ('k \<times> 'v) list) option" where
  "hamt_walk P s it =
     (if it = [] then Some (Inr [])
      else case rbind (dereference P s it) (\<lambda>kv. rbind (iterator_increment s it) (\<lambda>it'. Inr (kv, it'))) of
        Inl e \<Rightarrow> Some (Inl e)
      | Inr (kv, it') \<Rightarrow> Option.bind (hamt_walk P s it') (\<lambda>r. Some (rbind r (\<lambda>kvs. Inr (kv # kvs)))))"

section \<open>Moving an iterator\<close>

text \<open>The iterator of a path within a subtree below the nodes \<open>ps\<close>.\<close>

abbreviation stack :: "parent_stack \<Rightarrow> parent_type list \<times> 'e \<Rightarrow> parent_stack" where
  "stack ps x \<equiv> rev (fst x) @ ps"

lemma parent_sel: "pt_node (parent n i) = n" "pt_position (parent n i) = i"
  by (simp_all add: parent_def)

lemma push_parent_ok: "length ps < 13 \<Longrightarrow> push_parent n p ps = Inr (parent n p # ps)"
  by (simp add: push_parent_def hamt_constants)

lemma unat_of_nat_small: "i < 2 ^ 38 \<Longrightarrow> unat (of_nat i :: u64) = i \<and> unat (of_nat i + 1 :: u64) = Suc i"
proof -
  assume i: "i < 2 ^ 38"
  then have "unat (of_nat i :: u64) = i"
    by (simp add: unsigned_of_nat take_bit_nat_eq_self)
  then show ?thesis
    using i unat_plus_no_wrap [of "of_nat i :: u64" 1] by simp
qed

lemma increment_top: "increment_internal_node s (x # ps) = increment_internal_node s (y # ps)"
  by (cases ps) simp_all

declare increment_internal_node.simps(3) [simp del]

context index_params
begin

lemma paths_nonempty: "repr P s d t \<Longrightarrow> paths t \<noteq> []"
  using repr_entries_nonempty snd_paths by (metis list.simps(8))

lemma inode_node:
  assumes "db_ok s" and "\<not> db_closed s" and "tree_ok P s d (Inode p b ts)"
  shows "internal_get_node s p = Inr (inode b (map tptr ts))" and "\<not> is_leaf p" and "d < 66" and "ts \<noteq> []" and "length ts \<le> 64"
    and "internal_size (inode b (map tptr ts)) = Inr (length ts)"
    and "i < length ts \<Longrightarrow> child_at (inode b (map tptr ts)) i = Inr (tptr (ts ! i))"
proof -
  have t: "d < 66" "b \<noteq> 0" "length ts = pop_count b" "internal_ok s p b (map tptr ts)"
    using assms(3) by (simp_all add: tree_ok_def)
  then show "internal_get_node s p = Inr (inode b (map tptr ts))" "\<not> is_leaf p" "d < 66"
    using internal_get_node_ok [OF assms(1,2) t(4)] by (auto simp: internal_ok_def is_leaf_def)
  show "ts \<noteq> []" "length ts \<le> 64" "internal_size (inode b (map tptr ts)) = Inr (length ts)"
    and "i < length ts \<Longrightarrow> child_at (inode b (map tptr ts)) i = Inr (tptr (ts ! i))"
    using t pop_count_le [of b] pop_count_0_iff [of b] by (auto simp: internal_size_def child_at_def rbind_def rassert_def)
qed

lemma lnode_node:
  assumes "db_ok s" and "\<not> db_closed s" and "tree_ok P s d (Lnode p es)"
  shows "linear_get_node s p = Inr (lnode (map fst es))" and "\<not> is_leaf p" and "d = 66" and "es \<noteq> []" and "length es < 2 ^ 38"
    and "i < length es \<Longrightarrow> leaf_at (lnode (map fst es)) i = Inr (fst (es ! i))" and "i < length es \<Longrightarrow> is_leaf (fst (es ! i))"
proof -
  have t: "d = 66" "es \<noteq> []" "linear_ok s p (map fst es)" "\<forall>e \<in> set es. leaf_ok P s e" "distinct (map ekey es)"
    using assms(3) by (simp_all add: tree_ok_def)
  then show "linear_get_node s p = Inr (lnode (map fst es))" "\<not> is_leaf p" "d = 66" "es \<noteq> []" "length es < 2 ^ 38"
    using linear_get_node_ok [OF assms(1,2) t(3)] linear_small [OF assms(1,2) t(4,5)] by (auto simp: linear_ok_def is_leaf_def)
  show "i < length es \<Longrightarrow> leaf_at (lnode (map fst es)) i = Inr (fst (es ! i))"
    by (simp add: leaf_at_def rbind_def rassert_def)
  show "is_leaf (fst (es ! i))" if "i < length es"
  proof -
    obtain a k v where e: "es ! i = (a, k, v)" by (cases "es ! i")
    then have "leaf_ok P s (a, k, v)"
      using t(4) nth_mem [OF that] by auto
    then show ?thesis
      using leaf_ok_pointer(1) e by simp
  qed
qed

lemma left_most_ok:
  assumes db: "db_ok s" "\<not> db_closed s"
  shows "tree_ok P s d t \<Longrightarrow> 6 * length ps = d \<Longrightarrow> move_to_left_most_child s (tptr t) ps = Inr (stack ps (hd (paths t)))"
proof (induction t arbitrary: d ps)
  case (Leaf a k v)
  then have "is_leaf a" "length ps < 13"
    using leaf_ok_pointer(1) by (auto simp: tree_ok_def)
  then show ?case
    by (simp add: move_to_left_most_child.simps [of s a] push_parent_ok)
next
  case (Inode p b ts)
  note node = inode_node [OF db Inode.prems(1)]
  have len: "length ps < 11"
    using node(3) Inode.prems(2) by simp
  have hd0: "ts ! 0 \<in> set ts"
    using node(4) by simp
  have "move_to_left_most_child s p ps = move_to_left_most_child s (tptr (ts ! 0)) (parent p 0 # ps)"
    using node len by (simp add: move_to_left_most_child.simps [of s p] push_parent_ok rbind_def hamt_constants)
  also have "\<dots> = Inr (stack (parent p 0 # ps) (hd (paths (ts ! 0))))"
    using Inode.IH [OF hd0 inode_child_ok [OF Inode.prems(1) hd0]] Inode.prems(2) by simp
  also have "stack (parent p 0 # ps) (hd (paths (ts ! 0))) = stack ps (hd (paths (Inode p b ts)))"
  proof -
    have "paths (ts ! 0) \<noteq> []"
      using inode_child_ok [OF Inode.prems(1) hd0] paths_nonempty by (auto simp: tree_ok_def)
    moreover have "[0..<length ts] = 0 # [1..<length ts]"
      using node(4) by (simp add: upt_rec)
    ultimately have "hd (paths (Inode p b ts)) = extended p 0 (hd (paths (ts ! 0)))"
      unfolding paths_Inode_concat by (simp add: hd_append hd_map)
    then show ?thesis by simp
  qed
  finally show ?case by simp
next
  case (Lnode p es)
  note node = lnode_node [OF db Lnode.prems(1)]
  have len: "length ps = 11"
    using node(3) Lnode.prems(2) by simp
  have "move_to_left_most_child s p ps = push_parent (fst (es ! 0)) not_found (parent p 0 # ps)"
    using node(1,2,4) node(6,7) [of 0] len
    by (simp add: move_to_left_most_child.simps [of s p] move_to_left_most_child.simps [of s "fst (es ! 0)"] push_parent_ok rbind_def hamt_constants)
  moreover have "hd (paths (Lnode p es)) = ([parent p 0, parent (fst (es ! 0)) not_found], es ! 0)"
  proof -
    have "[0..<length es] = 0 # [1..<length es]"
      using node(4) by (simp add: upt_rec)
    then show ?thesis
      unfolding paths_Lnode_concat by simp
  qed
  ultimately show ?case
    using len by (simp add: push_parent_ok)
qed

lemma increment_inode:
  assumes db: "db_ok s" "\<not> db_closed s" and t: "tree_ok P s d (Inode p b ts)" and ps: "6 * length ps = d" and i: "i < length ts"
  shows "increment_internal_node s (z # parent p (of_nat i) # ps) =
    (if Suc i < length ts then Inr (stack (parent p (of_nat (Suc i)) # ps) (hd (paths (ts ! Suc i))))
     else increment_internal_node s (z # ps))"
proof -
  note node = inode_node [OF db t]
  have u: "unat (of_nat i :: u64) = i" "unat (of_nat i + 1 :: u64) = Suc i"
    using unat_of_nat_small [of i] node(5) i by simp_all
  have pos: "(parent p (of_nat i))\<lparr>pt_position := of_nat i + 1\<rparr> = parent p (of_nat (Suc i))"
    by (simp add: parent_def add.commute)
  have shift: "get_shift_bits (parent p (of_nat i) # ps) = d"
    using ps by (simp add: get_shift_bits_def hamt_constants)
  show ?thesis
  proof (cases "Suc i < length ts")
    case True
    let ?ps = "parent p (of_nat (Suc i)) # ps"
    have child: "tree_ok P s (d + 6) (ts ! Suc i)"
      using inode_child_ok [OF t] True by simp
    have left: "move_to_left_most_child s (tptr (ts ! Suc i)) ?ps = Inr (stack ?ps (hd (paths (ts ! Suc i))))"
      using left_most_ok [OF db child, of ?ps] ps by simp
    moreover have "move_to_left_most_child s (tptr (ts ! Suc i)) ?ps = push_parent (tptr (ts ! Suc i)) not_found ?ps"
      if "\<not> is_internal (tptr (ts ! Suc i))"
      using that by (simp add: move_to_left_most_child.simps [of s "tptr (ts ! Suc i)"] is_leaf_def)
    ultimately show ?thesis
      using True node(1,2,3,6) node(7) [OF True] shift i
      by (simp add: increment_internal_node.simps(3) u pos depth_is_internal_node_iff rbind_def rassert_def parent_sel Let_def)
  next
    case False
    then show ?thesis
      using node(1,2,3,6) shift i increment_top [of s z ps "parent p (of_nat i)"]
      by (simp add: increment_internal_node.simps(3) u depth_is_internal_node_iff rbind_def rassert_def parent_sel Let_def)
  qed
qed

lemma increment_lnode:
  assumes db: "db_ok s" "\<not> db_closed s" and t: "tree_ok P s d (Lnode p es)" and ps: "6 * length ps = d" and i: "i < length es"
  shows "increment_internal_node s (z # parent p (of_nat i) # ps) =
    (if Suc i < length es then Inr (parent (fst (es ! Suc i)) not_found # parent p (of_nat (Suc i)) # ps)
     else increment_internal_node s (z # ps))"
proof -
  note node = lnode_node [OF db t]
  have u: "unat (of_nat i :: u64) = i" "unat (of_nat i + 1 :: u64) = Suc i"
    using unat_of_nat_small [of i] node(5) i by simp_all
  have pos: "(parent p (of_nat i))\<lparr>pt_position := of_nat i + 1\<rparr> = parent p (of_nat (Suc i))"
    by (simp add: parent_def add.commute)
  have shift: "get_shift_bits (parent p (of_nat i) # ps) = d" and len: "length ps = 11"
    using ps node(3) by (simp_all add: get_shift_bits_def hamt_constants)
  show ?thesis
    using node(1,2,3) node(6) [of "Suc i"] shift i len increment_top [of s z ps "parent p (of_nat i)"]
    by (simp add: increment_internal_node.simps(3) u pos depth_is_internal_node_iff rbind_def rassert_def parent_sel Let_def push_parent_ok)
qed

text \<open>Within a subtree, \<^verbatim>\<open>operator++\<close> goes from each entry to the next; from the last it goes up.\<close>

lemma increment_ok:
  assumes db: "db_ok s" "\<not> db_closed s"
  shows "tree_ok P s d t \<Longrightarrow> 6 * length ps = d \<Longrightarrow>
    successively (\<lambda>x y. increment_internal_node s (stack ps x) = Inr (stack ps y)) (paths t)
    \<and> (\<forall>z. increment_internal_node s (stack ps (last (paths t))) = increment_internal_node s (z # ps))"
proof (induction t arbitrary: d ps)
  case (Leaf a k v)
  then show ?case
    using increment_top by auto
next
  case (Lnode p es)
  let ?f = "\<lambda>i. [([parent p (of_nat i), parent (fst (es ! i)) not_found], es ! i)]"
  note step = increment_lnode [OF db Lnode.prems]
  have n: "0 < length es"
    using lnode_node(4) [OF db Lnode.prems(1)] by simp
  have c: "successively (\<lambda>x y. increment_internal_node s (stack ps x) = Inr (stack ps y)) (concat (map ?f [0..<length es]))"
    "last (concat (map ?f [0..<length es])) = last (?f (length es - 1))"
    by (rule successively_concat; use step n in simp)+
  show ?case
    unfolding paths_Lnode_concat c(2) using c(1) n step [of "length es - 1"] increment_top [of s] by simp
next
  case (Inode p b ts)
  let ?f = "\<lambda>i. map (extended p i) (paths (ts ! i))"
  let ?R = "\<lambda>x y. increment_internal_node s (stack ps x) = Inr (stack ps y)"
  note step = increment_inode [OF db Inode.prems]
  have n: "0 < length ts"
    using inode_node(4) [OF db Inode.prems(1)] by simp
  have sub: "paths (ts ! i) \<noteq> []" "successively ?R (?f i)"
    "increment_internal_node s (stack ps (last (?f i))) = increment_internal_node s (z # parent p (of_nat i) # ps)"
    if i: "i < length ts" for i z
  proof -
    have child: "tree_ok P s (d + 6) (ts ! i)"
      using inode_child_ok [OF Inode.prems(1)] i by simp
    then show ne: "paths (ts ! i) \<noteq> []"
      using paths_nonempty by (auto simp: tree_ok_def)
    show "successively ?R (?f i)"
      "increment_internal_node s (stack ps (last (?f i))) = increment_internal_node s (z # parent p (of_nat i) # ps)"
      using Inode.IH [OF nth_mem [OF i] child, of "parent p (of_nat i) # ps"] Inode.prems(2) ne
      by (simp_all add: successively_map last_map)
  qed
  have link: "?R (last (?f i)) (hd (?f (Suc i)))" if "Suc i < length ts" for i
    using sub(3) [of i undefined] sub(1) [of "Suc i"] step [of i undefined] that by (simp add: hd_map)
  have c: "successively ?R (concat (map ?f [0..<length ts]))"
    "last (concat (map ?f [0..<length ts])) = last (?f (length ts - 1))"
    by (rule successively_concat [where R = ?R]; use sub(1,2) link n in simp)+
  show ?case
    unfolding paths_Inode_concat using c sub(3) [of "length ts - 1"] step [of "length ts - 1"] n by simp
qed

lemma begin_ok:
  assumes "db_ok s" and "\<not> db_closed s" and "hamt_is P s m T"
  shows "make_begin_iterator s m = Inr (case T of None \<Rightarrow> [] | Some t \<Rightarrow> stack [] (hd (paths t)))"
proof (cases T)
  case None
  then show ?thesis
    using assms(3) by (simp add: make_begin_iterator_def hamt_is_def)
next
  case (Some t)
  then have t: "tree_ok P s 0 t" "hm_root m = tptr t"
    using assms(3) by (simp_all add: hamt_is_def)
  have "tptr t \<noteq> 0"
    using t(1) by (cases t) (auto simp: tree_ok_def leaf_ok_def internal_ok_def linear_ok_def is_internal_def)
  then show ?thesis
    using left_most_ok [OF assms(1,2) t(1), of "[]"] t(2) Some by (simp add: make_begin_iterator_def)
qed

lemma walk_suffix:
  assumes db: "db_ok s" "\<not> db_closed s" and t: "tree_ok P s 0 t" and p: "paths t = xs @ y # ys"
  shows "hamt_walk P s (stack [] y) = Some (Inr (map (snd \<circ> snd) (y # ys)))"
proof -
  have step: "successively (\<lambda>x y. increment_internal_node s (stack [] x) = Inr (stack [] y)) (paths t)"
    "increment_internal_node s (stack [] (last (paths t))) = Inr []"
    using increment_ok [OF db t, of "[]"] by simp_all
  have leaves: "\<forall>e \<in> set (entries t). leaf_ok P s e" if "repr P s d t" for d t
    using that by (induction t arbitrary: d) auto
  have deref: "dereference P s (stack [] y) = Inr (snd (snd y)) \<and> stack [] y \<noteq> []" if "y \<in> set (paths t)" for y
    using leaves [of 0 t] t path_entry [of "fst y" "snd y" t] path_dereference [OF db, of "fst y" "snd y" t "[]"] that
    by (auto simp: tree_ok_def)
  show ?thesis
    using p
  proof (induction ys arbitrary: xs y)
    case Nil
    then show ?case
      using step(2) deref [of y]
      by (simp add: hamt_walk.simps [of P s "rev (fst y)"] hamt_walk.simps [of P s "[]"] rbind_def iterator_increment_def rassert_def)
  next
    case (Cons z ys)
    have "increment_internal_node s (stack [] y) = Inr (stack [] z)"
      using step(1) Cons.prems by (simp add: successively_append_iff)
    moreover have "hamt_walk P s (stack [] z) = Some (Inr (map (snd \<circ> snd) (z # ys)))"
      using Cons.IH [of "xs @ [y]" z] Cons.prems by simp
    ultimately show ?case
      using deref [of y] Cons.prems
      by (simp add: hamt_walk.simps [of P s "rev (fst y)"] rbind_def iterator_increment_def rassert_def)
  qed
qed

lemma walk_ok:
  assumes "db_ok s" and "\<not> db_closed s" and "hamt_is P s m T"
  shows "\<exists>it. make_begin_iterator s m = Inr it \<and> hamt_walk P s it = Some (Inr (map snd (tree_of T)))"
proof (cases T)
  case None
  then show ?thesis
    using begin_ok [OF assms] by (simp add: tree_of_def hamt_walk.simps [of P s "[]"])
next
  case (Some t)
  then have t: "tree_ok P s 0 t"
    using assms(3) by (simp add: hamt_is_def)
  obtain y ys where y: "paths t = y # ys"
    using paths_nonempty t by (cases "paths t") (auto simp: tree_ok_def)
  have "map (snd \<circ> snd) (y # ys) = map snd (entries t)"
    using snd_paths [of t] y by (metis map_map)
  then show ?thesis
    using begin_ok [OF assms] walk_suffix [OF assms(1,2) t, of "[]" y ys] y Some by (simp add: tree_of_def)
qed

end

end
