(* ===== verification/Index_Types.thy ===== *)
theory Index_Types
  imports Archive Hamt_Iterate
begin

unbundle bit_operations_syntax

text \<open>
  The indices of the store (\<^verbatim>\<open>include/pstore/core/index_types.hpp\<close>) as instances of the index map, and what
  the operations of the map promise for every choice of its template arguments.
\<close>

section \<open>The store's indices\<close>

definition u128_hash :: "uint128 \<Rightarrow> u64" where
  "u128_hash v = high_word v"

text \<open>
  The indices of compilations, of debug line headers and of fragments: from a digest to an extent.
  The global \<^verbatim>\<open>operator new\<close> and the shift by 64 or more bits stay parameters.
\<close>

definition digest_params :: "allocator \<Rightarrow> (u64 \<Rightarrow> nat \<Rightarrow> u64) \<Rightarrow> (uint128, extent) params" where
  "digest_params = make_params u128_hash uint128_puts uint128_read extent_puts extent_read"

text \<open>The write index, from a name to an extent; its hash function is that of the standard library.\<close>

definition write_params ::
  "(u8 list \<Rightarrow> u64) \<Rightarrow> allocator \<Rightarrow> (u64 \<Rightarrow> nat \<Rightarrow> u64) \<Rightarrow> (u8 list, extent) params" where
  "write_params hash = make_params hash string_puts string_read extent_puts extent_read"

interpretation digest_pair: pair_serializer uint128_puts uint128_read extent_puts extent_read
  by unfold_locales

interpretation write_pair: pair_serializer string_puts string_read extent_puts extent_read
  by unfold_locales

lemma digest_params_ok: "allocator_ok new \<Longrightarrow> index_params (digest_params new wide)"
  unfolding digest_params_def by (rule digest_pair.make_params_ok)

lemma write_params_ok: "allocator_ok new \<Longrightarrow> index_params (write_params hash new wide)"
  unfolding write_params_def by (rule write_pair.make_params_ok)

text \<open>An allocator: the first of \<open>n\<close> blocks that is free.\<close>

definition first_fit :: "nat \<Rightarrow> allocator" where
  "first_fit n h bytes = List.find (\<lambda>p. h p = None) (map (\<lambda>i. 4096 * of_nat i) [1..<n])"

lemma first_fit_ok: "n \<le> 2 ^ 32 \<Longrightarrow> allocator_ok (first_fit n)"
  unfolding allocator_ok_def
proof (intro allI impI)
  fix h bytes p assume n: "n \<le> 2 ^ 32" and "first_fit n h bytes = Some p"
  then have "p \<in> set (map (\<lambda>i. 4096 * of_nat i) [1..<n]) \<and> h p = None"
    unfolding first_fit_def find_Some_iff using nth_mem by blast
  then obtain i where i: "1 \<le> i" "i < n" "p = 4096 * of_nat i" "h p = None"
    by auto
  have "unat p = 4096 * i"
    using i n by (simp add: unat_word_ariths unsigned_of_nat take_bit_nat_eq_self)
  moreover have "p AND 3 = p mod 4"
  proof -
    have "(3 :: u64) = mask 2" by (simp add: mask_eq_exp_minus_1)
    then show ?thesis by (simp only: take_bit_eq_mask [symmetric]) (simp add: take_bit_eq_mod)
  qed
  ultimately have "unat (p AND 3) = 0" "unat p \<noteq> 0"
    using i(1) by (simp_all add: unat_mod)
  then show "h p = None \<and> p \<noteq> 0 \<and> p AND 3 = 0"
    using i(4) by (simp only: unat_eq_zero) auto
qed

interpretation digests: index_params "digest_params (first_fit 65536) (\<lambda>w n. 0)"
  by (rule digest_params_ok, rule first_fit_ok) simp

interpretation names: index_params "write_params (\<lambda>str. of_nat (length str)) (first_fit 65536) (\<lambda>w n. 0)"
  by (rule write_params_ok, rule first_fit_ok) simp

section \<open>A new index\<close>

lemma hamt_init_empty:
  assumes "tx_ok s" and al: "db_footer_pos s mod 8 = 0"
  shows "\<exists>m. hamt_init s 0 = Inr m \<and> index_ok P s m None"
proof -
  have db: "db_ok s" "\<not> db_closed s"
    using tx_okD [OF assms(1)] by simp_all
  have "unat (db_footer_pos s) + sizeof_trailer \<le> unat (db_logical_size s)"
    using db(1) by (simp add: db_ok_def)
  then have "\<exists>g. get_current_revision s = Inr g"
    using getro_ok [OF db] by (simp add: get_current_revision_def get_footer_def getro_typed_def rbind_def al)
  then show ?thesis
    using assms(1) by (auto simp: hamt_init_def rbind_def index_ok_def hamt_is_def tree_of_def)
qed

context index_params
begin

text \<open>The first insertion does not fail; one that needs a node fails when there is no memory.\<close>

lemma insert_first:
  assumes m: "index_ok P s m None" and sp: "space P s k v"
  shows "\<exists>m' it s' a. insert_or_upsert P m k v u s = (Inr (m', it, True), s')
    \<and> index_ok P s' m' (Some (Leaf a k v)) \<and> grown P k v s s'"
proof -
  have tx: "tx_ok s" and hm: "hamt_is P s m None" and rev: "get_current_revision s = Inr (hm_revision m)"
    using m by (simp_all add: index_ok_def)
  have "wp (store_leaf_node P k v [])
      (\<lambda>r s'. index_ok P s' (m\<lparr>hm_root := fst r, hm_size := 1\<rparr>) (Some (Leaf (fst r) k v)) \<and> grown P k v s s') (\<lambda>_ _. False) s"
    by (rule wp_store_leaf [OF tx sp]) (use insert_empty(1) [OF m] in auto)
  then obtain r s' where "store_leaf_node P k v [] s = (Inr r, s')"
    "index_ok P s' (m\<lparr>hm_root := fst r, hm_size := 1\<rparr>) (Some (Leaf (fst r) k v))" "grown P k v s s'"
    by (auto simp: wp_total)
  then show ?thesis
    using rev hamt_empty_ok [OF hm]
    by (auto simp: insert_or_upsert_def run_simps slift_def case_prod_unfold)
qed

lemma insert_out_of_memory:
  assumes m: "index_ok P s m (Some (Leaf a ek ev))" and sp: "space P s k v" and new: "p_new P = (\<lambda>_ _. None)"
    and k: "hslice 0 (p_hash P k) \<noteq> hslice 0 (p_hash P ek)"
  shows "\<exists>s'. insert_or_upsert P m k v u s = (Inl Bad_alloc, s')"
proof -
  have tx: "tx_ok s" and hm: "hamt_is P s m (Some (Leaf a ek ev))" and rev: "get_current_revision s = Inr (hm_revision m)"
    using m by (simp_all add: index_ok_def)
  have lf: "leaf_ok P s (a, ek, ev)" and root: "hm_root m = a"
    using hm by (simp_all add: hamt_is_def tree_ok_def)
  have slice: "p_hash P k AND hash_index_mask \<noteq> p_hash P ek AND hash_index_mask" "k \<noteq> ek"
    using k by (auto simp: hslice_def)
  have "wp (store_leaf_node P k v []) (\<lambda>_ _. True) (\<lambda>_ _. False) s"
    by (rule wp_store_leaf [OF tx sp]) auto
  then obtain leaf_addr ps s' where "store_leaf_node P k v [] s = (Inr (leaf_addr, ps), s')"
    by (auto simp: wp_total)
  moreover have "internal_allocate (p_new P) n s' = (Inl Bad_alloc, s')" for n
    by (simp add: internal_allocate_def heap_new_def new run_simps slift_def internal_size_bytes_def rbind_def rassert_def
        hamt_constants)
  ultimately have "insert_into_leaf P a k v (p_hash P ek) (p_hash P k) 0 [] s = (Inl Bad_alloc, s')"
    using slice(1) by (simp add: insert_into_leaf.simps [of P a] depth_is_internal_node_iff Let_def run_simps)
  then have "insert_node P a k v (p_hash P k) 0 [] u s = (Inl Bad_alloc, s')"
    using slice(2) leaf_ok_pointer(1) [OF lf] load_leaf_ok(1) [OF tx_okD [OF tx] lf]
    by (simp add: insert_node.simps [of P a] run_simps)
  then show ?thesis
    using rev hamt_empty_ok [OF hm] root by (simp add: insert_or_upsert_def run_simps slift_def)
qed

end

section \<open>Properties\<close>

text \<open>
  The state of the witnesses: a new index of digests in the transaction of a new store.
\<close>

abbreviation small_params :: "(uint128, extent) params" where
  "small_params \<equiv> digest_params (first_fit 8) (\<lambda>w n. 0)"

definition small_index :: hamt where
  "small_index = projr (hamt_init small_tx 0)"

lemma small_params_ok: "index_params small_params"
  by (rule digest_params_ok, rule first_fit_ok) simp

lemma small_index_ok: "index_ok P small_tx small_index None"
  using hamt_init_empty [OF small_tx_ok, of P] by (auto simp: small_index_def small_tx_def)

lemma digest_cost: "layout_space (p_puts (digest_params new wide) k v) = 64"
  by (simp add: digest_params_def make_params_def pair_puts_def uint128_puts_def extent_puts_def u64_puts_def)

lemma small_space: "space (digest_params new wide) small_tx k v"
  by (simp add: space_def digest_cost small_tx_def)

text \<open>The same with no memory at all.\<close>

abbreviation starved_params :: "(uint128, extent) params" where
  "starved_params \<equiv> digest_params (\<lambda>_ _. None) (\<lambda>w n. 0)"

lemma starved_params_ok: "index_params starved_params"
  by (rule digest_params_ok) (simp add: allocator_ok_def)

text \<open>
  C1. Inserting a key refines the assignment of a finite map: when it returns, the index holds the map with
  the new binding, or the old map when the key was there and no upsert was asked for; the flag says
  whether the key is new, and the iterator that is returned refers to the key with its value in the index.
\<close>

theorem hamt_insert_refines_map:
  assumes "index_params P" and "index_ok P s m T" and "space P s k v"
    and "insert_or_upsert P m k v upsert s = (Inr (m', it, is_new), s')"
  shows "\<exists>T'. index_ok P s' m' T'
    \<and> contents T' = (if contents T k \<noteq> None \<and> \<not> upsert then contents T else (contents T)(k \<mapsto> v))
    \<and> is_new = (contents T k = None) \<and> dereference P s' it = Inr (k, the (contents T' k))"
  using wp_result [OF index_params.insert_or_upsert_ok [OF assms(1-3)] assms(4)]
  by (auto simp: insert_result_def assigned_def)

theorem hamt_insert_refines_map_witness:
  "\<exists>m' it s' T'. insert_or_upsert small_params small_index (u128 1 2) (Extent 168 8) False small_tx = (Inr (m', it, True), s')
    \<and> index_ok small_params s' m' T' \<and> contents T' = [u128 1 2 \<mapsto> Extent 168 8]
    \<and> dereference small_params s' it = Inr (u128 1 2, Extent 168 8)"
proof -
  obtain m' it s' where r: "insert_or_upsert small_params small_index (u128 1 2) (Extent 168 8) False small_tx = (Inr (m', it, True), s')"
    using index_params.insert_first [OF small_params_ok small_index_ok small_space] by blast
  show ?thesis
    using hamt_insert_refines_map [OF small_params_ok small_index_ok small_space r] r
    by (auto simp: contents_def tree_of_def)
qed





text \<open>
  C4. Looking a key up always returns: the end iterator when the index does not hold the key, and otherwise
  an iterator that refers to the key and its value.
\<close>

theorem hamt_find_lookup:
  assumes "index_params P" and "db_ok s" and "\<not> db_closed s" and "hamt_is P s m T"
  shows "\<exists>it. find P s m k = Inr it
    \<and> (case contents T k of None \<Rightarrow> it = make_end_iterator m
       | Some v \<Rightarrow> it \<noteq> make_end_iterator m \<and> dereference P s it = Inr (k, v))"
  unfolding make_end_iterator_def by (rule index_params.find_ok [OF assms])

text \<open>An index with one entry.\<close>

lemma one_entry:
  obtains s m T where "db_ok s" "\<not> db_closed s" "hamt_is small_params s m T" "contents T = [u128 1 2 \<mapsto> Extent 168 8]"
    and "hm_size (m :: hamt) = 1" and "tx_ok (s :: transaction)"
proof -
  obtain m' a and s' :: transaction where r: "index_ok small_params s' m' (Some (Leaf a (u128 1 2) (Extent 168 8)))"
    using index_params.insert_first [OF small_params_ok small_index_ok small_space] by blast
  then have "hm_size m' = 1"
    by (simp add: index_ok_def hamt_is_def tree_of_def word_unat_eq_iff [of _ 1])
  with r show ?thesis
    using that [of s' m' "Some (Leaf a (u128 1 2) (Extent 168 8))"] tx_okD [of s']
    by (simp add: index_ok_def hamt_is_def tree_of_def contents_def)
qed

theorem hamt_find_lookup_witness:
  "\<exists>s m it. find small_params (s :: transaction) m (u128 1 2) = Inr it \<and> dereference small_params s it = Inr (u128 1 2, Extent 168 8)
    \<and> find small_params s m (u128 2 2) = Inr []"
proof -
  obtain s :: transaction and m T where s: "db_ok s" "\<not> db_closed s" "hamt_is small_params s m T" "contents T = [u128 1 2 \<mapsto> Extent 168 8]"
    by (rule one_entry) blast
  show ?thesis
    using hamt_find_lookup [OF small_params_ok s(1-3), of "u128 1 2"] hamt_find_lookup [OF small_params_ok s(1-3), of "u128 2 2"] s(4)
    by (auto simp: make_end_iterator_def)
qed

text \<open>
  C3. A loop over an index from its begin to its end iterator ends without an error and visits every key of the
  index exactly once, with its value; their number is the size that the index records.
\<close>

theorem hamt_iteration_ends:
  assumes "index_params P" and "db_ok s" and "\<not> db_closed s" and "hamt_is P s m T"
  shows "\<exists>it kvs. make_begin_iterator s m = Inr it \<and> hamt_walk P s it = Some (Inr kvs)
    \<and> distinct (map fst kvs) \<and> map_of kvs = contents T \<and> length kvs = unat (hm_size m)"
proof -
  have "distinct (map fst (map snd (tree_of T)))"
    using index_params.hamt_entries(1) [OF assms(1,4)] by (simp add: comp_def ekey_def [abs_def])
  then show ?thesis
    using index_params.walk_ok [OF assms] assms(4) by (auto simp: contents_def hamt_is_def)
qed

theorem hamt_iteration_ends_witness:
  "\<exists>s m it. make_begin_iterator (s :: transaction) m = Inr it
    \<and> hamt_walk small_params s it = Some (Inr [(u128 1 2, Extent 168 8)])"
proof -
  obtain s :: transaction and m T where s: "db_ok s" "\<not> db_closed s" "hamt_is small_params s m T"
    "contents T = [u128 1 2 \<mapsto> Extent 168 8]" "hm_size m = 1"
    by (rule one_entry) blast
  have "kvs = [(u128 1 2, Extent 168 8)]" if "length kvs = 1" "map_of kvs = [u128 1 2 \<mapsto> Extent 168 8]" for kvs
  proof -
    obtain k v where "kvs = [(k, v)]" using \<open>length kvs = 1\<close> by (auto simp: length_Suc_conv)
    then show ?thesis
      using fun_cong [OF that(2), of "u128 1 2"] by (simp split: if_splits)
  qed
  then show ?thesis
    using hamt_iteration_ends [OF small_params_ok s(1-3)] s(4,5) by fastforce
qed

text \<open>
  C7. The serializers of the store's indices read back what they write: a digest or a name with its extent, at
  any alignment and of any length, from wherever the archive put it; so the indices satisfy what the index
  map asks of its key and value types.
\<close>

theorem index_types_ok:
  assumes "allocator_ok new"
  shows "index_params (digest_params new wide) \<and> index_params (write_params hash new wide)"
  using digest_params_ok [OF assms] write_params_ok [OF assms] by blast

theorem index_types_ok_witness:
  "index_params (digest_params (first_fit 8) (\<lambda>w n. 0)) \<and> index_params (write_params (\<lambda>s. 0) (first_fit 8) (\<lambda>w n. 0))"
  by (rule index_types_ok, rule first_fit_ok) simp

end
