(* ===== verification/Hamt_Flush.thy ===== *)
theory Hamt_Flush
  imports Hamt_Contract
begin

unbundle bit_operations_syntax

text \<open>
  Flushing an index: \<^verbatim>\<open>hamt_map::flush\<close> writes the nodes that are on the heap behind the other data of the
  transaction, children first, deletes them, and writes a header block. The theory shows that the trie in the file
  has the same entries in the same order, that exactly the nodes of the index are freed, and that the constructor of
  \<^verbatim>\<open>hamt_map\<close> finds the index at the header block again.
\<close>

section \<open>Nodes in the file\<close>

text \<open>A heap after some of its nodes were deleted.\<close>

definition without :: "'a set \<Rightarrow> ('a \<rightharpoonup> 'b) \<Rightarrow> 'a \<rightharpoonup> 'b" where
  "without A h = (\<lambda>q. if q \<in> A then None else h q)"

lemma without_app: "without A h q = (if q \<in> A then None else h q)"
  by (simp add: without_def)

lemma without_without [simp]: "without A (without B h) = without (A \<union> B) h" "without {} h = h"
  by (auto simp: without_def)

lemma without_delete: "(without A h)(q := None) = without (insert q A) h"
  by (auto simp: without_def)

text \<open>The room that a flush of a tree takes at most, with the alignment of each node.\<close>

fun flush_cost :: "('k, 'v) tree \<Rightarrow> nat" where
  "flush_cost (Leaf a k v) = 0"
| "flush_cost (Inode p b ts) = (if is_heap p then 24 + 8 * length ts + sum_list (map flush_cost ts) else 0)"
| "flush_cost (Lnode p es) = (if is_heap p then 24 + 8 * length es else 0)"

definition root_cost :: "('k, 'v) tree option \<Rightarrow> nat" where
  "root_cost T = (case T of None \<Rightarrow> 0 | Some t \<Rightarrow> flush_cost t)"

lemma aligned_8_and_3:
  assumes "8 dvd unat (a :: u64)"
  shows "a AND 3 = 0"
proof -
  have "a AND 3 = take_bit 2 a"
    by (simp add: take_bit_eq_mask mask_eq_exp_minus_1)
  then have "unat (a AND 3) = unat a mod 4"
    by (simp add: unsigned_take_bit_eq take_bit_eq_mod [where 'a = nat])
  moreover have "4 dvd unat a"
    using assms by (rule dvd_trans [rotated]) simp
  ultimately have "unat (a AND 3) = 0"
    by simp
  then show ?thesis
    by (simp add: unsigned_eq_0_iff)
qed

lemma put_node_ok:
  assumes "tx_ok s" and "unat (db_logical_size s) + 8 + length bs \<le> 2 ^ 38"
  shows "\<exists>a s'. tx_put 8 bs s = (Inr a, s') \<and> grows s s' \<and> heap s' = heap s \<and> on_disk s' a bs
    \<and> 8 dvd unat a \<and> unat (db_logical_size s) \<le> unat a
    \<and> unat (db_logical_size s') = unat a + length bs \<and> unat a < unat (db_logical_size s) + 8"
proof -
  have p: "is_power_of_two (8 :: u64)"
    by (simp add: is_power_of_two_def)
  obtain a s' where put: "tx_put 8 bs s = (Inr a, s')"
    and s': "tx_ok s'" "tx_keep s' = tx_keep s" "unat a = round_up_nat (unat (db_logical_size s)) 8"
      "unat (db_logical_size s') = unat a + length bs" "map (db_memory s') [unat a..<unat a + length bs] = bs"
      "\<forall>i < unat (db_logical_size s). db_memory s' i = db_memory s i"
    using tx_put_ok [OF assms(1) p, of bs] assms(2) by auto
  have r: "unat (db_logical_size s) \<le> unat a" "unat a < unat (db_logical_size s) + 8" "8 dvd unat a"
    using round_up_nat_spec [of 8 "unat (db_logical_size s)"] s'(3) by auto
  have "64 \<le> unat a"
    using assms(1) r(1) by (simp add: tx_ok_def db_ok_def leader_size_def)
  then show ?thesis
    using put s' r by (auto simp: grows_def later_def on_disk_def tx_keep_def)
qed

lemma linear_flush_put:
  "linear_flush n = tx_put 8 (linear_bytes (linear_node_copy n))"
  by (simp add: linear_flush_def tx_put_def length_linear_bytes linear_node_copy_def linear_size_bytes_def)

lemma sbind_slift_Inr: "sbind (slift (Inr x)) f = f x"
  by (simp add: fun_eq_iff sbind_def slift_def)

lemma store_node_put:
  assumes "b \<noteq> 0" "length cs = pop_count b"
  shows "store_node (inode b cs) = tx_put 8 (internal_bytes (inode b cs))"
proof -
  have "0 < pop_count b" "pop_count b < 66"
    using assms(1) pop_count_le [of b] pop_count_0_iff [of b] by simp_all
  then have "internal_size (inode b cs) = Inr (pop_count b)" "internal_size_bytes (pop_count b) = Inr (16 + 8 * pop_count b)"
    using assms(1) by (simp_all add: internal_size_def internal_size_bytes_def rbind_def rassert_def hamt_constants)
  then show ?thesis
    using assms(2)
    by (simp add: store_node_def tx_put_def length_internal_bytes internal_node_copy_def sbind_slift_Inr)
qed

lemma valid_children_iff:
  "valid_children addr cs \<longleftrightarrow> distinct cs \<and> (\<forall>c \<in> set cs. \<not> is_heap c \<and> untag_internal_address c < addr)"
  by (induction cs) (auto simp: not_le)

text \<open>
  The tree \<open>t\<close> was written: \<open>t'\<close> is it in the file, at \<open>a\<close>, and of its nodes on the heap only the root is left.
\<close>

definition root_flushed ::
  "('k, 'v) params \<Rightarrow> 'z transaction_scheme \<Rightarrow> nat \<Rightarrow> ('k, 'v) tree \<Rightarrow> u64 \<Rightarrow> 'z transaction_scheme
    \<Rightarrow> ('k, 'v) tree \<Rightarrow> bool" where
  "root_flushed P s d t a s' t' \<longleftrightarrow>
     repr P s' d t' \<and> tptr t' = a \<and> hptrs t' = [] \<and> entries t' = entries t \<and> grows s s'
     \<and> heap s' (untag (tptr t)) \<noteq> None
     \<and> (\<forall>q. q \<noteq> untag (tptr t) \<longrightarrow> heap s' q = (if q \<in> set (hptrs t) then None else heap s q))
     \<and> unat (db_logical_size s') \<le> unat (db_logical_size s) + flush_cost t"

text \<open>The node at \<open>self\<close> while its children are written.\<close>

definition node_state ::
  "('k, 'v) params \<Rightarrow> nat \<Rightarrow> u64 \<Rightarrow> u64 \<Rightarrow> 'z transaction_scheme \<Rightarrow> ('k, 'v) tree list \<Rightarrow> bool" where
  "node_state P d self b s ts \<longleftrightarrow> tx_ok s \<and> b \<noteq> 0 \<and> length ts = pop_count b
     \<and> heap s self = Some (Heap_internal (inode b (map tptr ts)))
     \<and> (\<forall>t \<in> set ts. repr P s d t) \<and> distinct (self # concat (map hptrs ts))"

text \<open>
  What flushing the index \<open>m\<close>, which is the trie \<open>T\<close>, leaves: the same entries in the file, a header block at
  \<open>pos\<close> with the new root, and none of the nodes of \<open>T\<close> on the heap.
\<close>

definition flush_result ::
  "('k, 'v) params \<Rightarrow> 'z transaction_scheme \<Rightarrow> hamt \<Rightarrow> ('k, 'v) tree option \<Rightarrow> index_pointer \<Rightarrow> address
    \<Rightarrow> 'z transaction_scheme \<Rightarrow> ('k, 'v) tree option \<Rightarrow> bool" where
  "flush_result P s m T root pos s' T' \<longleftrightarrow> grows s s' \<and> hamt_is P s' (m\<lparr>hm_root := root\<rparr>) T'
     \<and> tree_of T' = tree_of T \<and> heap_of T' = []
     \<and> heap s' = without (set (heap_of T)) (heap s)
     \<and> on_disk s' pos (header_block_bytes \<lparr>hb_signature = index_signature, hb_size = hm_size m, hb_root = root\<rparr>)
     \<and> 8 dvd unat pos \<and> unat (db_logical_size s') \<le> unat (db_logical_size s) + root_cost T + 32"

context index_params
begin

text \<open>A pointer into the file determines the tree.\<close>

lemma repr_unique:
  assumes "db_ok s" "\<not> db_closed s"
  shows "repr P s d t \<Longrightarrow> repr P s d t' \<Longrightarrow> tptr t = tptr t' \<Longrightarrow> \<not> is_heap (tptr t) \<Longrightarrow> t = t'"
proof (induction t arbitrary: d t')
  case (Leaf a k v)
  obtain k' v' where "t' = Leaf a k' v'"
    using repr_leaf_pointer [OF Leaf.prems(1)] repr_leaf_pointer [OF Leaf.prems(2)] Leaf.prems(3) by (cases t') auto
  then show ?case
    using Leaf.prems leaf_ok_inj [OF assms] by auto
next
  case (Inode p b ts)
  then obtain b' ts' where t': "t' = Inode p b' ts'"
    using repr_leaf_pointer [OF Inode.prems(1)] repr_leaf_pointer [OF Inode.prems(2)] by (cases t') auto
  have "Inr (inode b (map tptr ts)) = Inr (inode b' (map tptr ts'))"
    using internal_get_node_ok [OF assms, of p b "map tptr ts"] internal_get_node_ok [OF assms, of p b' "map tptr ts'"]
      Inode.prems by (simp add: t')
  then have eq: "b' = b" "map tptr ts = map tptr ts'"
    by simp_all
  have "valid_children (untag_internal_address p) (map tptr ts)"
    using Inode.prems by (simp add: internal_ok_def)
  then have nh: "\<not> is_heap (tptr t)" if "t \<in> set ts" for t
    using that by (auto simp: valid_children_iff)
  have "ts = ts'"
  proof (rule nth_equalityI)
    show len: "length ts = length ts'"
      using eq(2) by (rule map_eq_imp_length_eq)
    show "ts ! i = ts' ! i" if "i < length ts" for i
    proof (rule Inode.IH)
      show "ts ! i \<in> set ts" "repr P s (d + 6) (ts ! i)" "repr P s (d + 6) (ts' ! i)" "\<not> is_heap (tptr (ts ! i))"
        using that len Inode.prems nh by (auto simp: t')
      show "tptr (ts ! i) = tptr (ts' ! i)"
        using that len arg_cong [OF eq(2), of "\<lambda>xs. xs ! i"] by simp
    qed
  qed
  then show ?case
    by (simp add: t' eq)
next
  case (Lnode p es)
  then obtain es' where t': "t' = Lnode p es'"
    using repr_leaf_pointer [OF Lnode.prems(1)] repr_leaf_pointer [OF Lnode.prems(2)] by (cases t') auto
  have "Inr (lnode (map fst es)) = Inr (lnode (map fst es'))"
    using linear_get_node_ok [OF assms, of p "map fst es"] linear_get_node_ok [OF assms, of p "map fst es'"] Lnode.prems
    by (simp add: t')
  then have eq: "map fst es = map fst es'"
    by simp
  have "es = es'"
  proof (rule nth_equalityI)
    show len: "length es = length es'"
      using eq by (rule map_eq_imp_length_eq)
    show "es ! i = es' ! i" if i: "i < length es" for i
    proof -
      have "fst (es ! i) = fst (es' ! i)"
        using i len arg_cong [OF eq, of "\<lambda>xs. xs ! i"] by simp
      moreover have "leaf_ok P s (es ! i)" "leaf_ok P s (es' ! i)"
        using i len Lnode.prems by (auto simp: t')
      ultimately show ?thesis
        using leaf_ok_inj [OF assms] by (metis prod.collapse)
    qed
  qed
  then show ?case
    by (simp add: t')
qed

lemma stored_pointer_less:
  assumes "repr P s d t" "\<not> is_heap (tptr t)"
  shows "untag_internal_address (tptr t) < db_logical_size s"
proof (cases t)
  case (Leaf a k v)
  then show ?thesis
    using assms leaf_ok_less by (auto simp: leaf_ok_def untag_internal_leaf word_less_nat_alt)
qed (use assms in \<open>auto simp: internal_ok_def linear_ok_def on_disk_def length_internal_bytes length_linear_bytes
  word_less_nat_alt\<close>)

text \<open>The children of a node that is written are distinct and before it.\<close>

lemma children_valid:
  assumes "tx_ok s" "b \<noteq> 0" "length ts = pop_count b" "\<forall>t \<in> set ts. repr P s d t \<and> \<not> is_heap (tptr t)"
    and "\<forall>i < length ts. \<forall>k \<in> set (keys (ts ! i)). hslice d' (p_hash P k) = positions b ! i"
    and "unat (db_logical_size s) \<le> unat a"
  shows "valid_children a (map tptr ts)"
proof -
  have "tptr (ts ! i) \<noteq> tptr (ts ! j)" if ij: "i < length ts" "j < length ts" "i \<noteq> j" for i j
  proof
    assume "tptr (ts ! i) = tptr (ts ! j)"
    then have eq: "ts ! i = ts ! j"
      using assms(1,4) ij by (intro repr_unique [of s d]) (auto dest: tx_okD)
    have "repr P s d (ts ! i)"
      using assms(4) ij(1) by simp
    then obtain k where "k \<in> set (keys (ts ! i))"
      using repr_entries_nonempty [of s d "ts ! i"] by (cases "entries (ts ! i)") auto
    then have "positions b ! i = positions b ! j"
      using assms(5) ij eq by metis
    then show False
      using ij assms(3) by (simp add: nth_eq_iff_index_eq pop_count_def)
  qed
  then have "distinct (map tptr ts)"
    by (simp add: distinct_conv_nth)
  moreover have "untag_internal_address (tptr t) < a" if "t \<in> set ts" for t
    using stored_pointer_less [of s d t] assms(4,6) that by (auto simp: word_less_nat_alt)
  ultimately show ?thesis
    using assms(4) by (auto simp: valid_children_iff)
qed

lemma node_state_step:
  assumes n: "node_state P d self b s (xs @ t # ys)" and h: "is_heap (tptr t)" and f: "root_flushed P s d t a s' t'"
  defines "u \<equiv> s'\<lparr>heap := (heap s')(self \<mapsto> Heap_internal (inode b (map tptr (xs @ t' # ys))), untag (tptr t) := None)\<rparr>"
  shows "node_state P d self b u (xs @ t' # ys) \<and> grows s u
    \<and> (\<forall>q. q \<noteq> self \<longrightarrow> heap u q = (if q \<in> set (hptrs t) then None else heap s q))"
proof -
  have root: "untag (tptr t) \<in> set (hptrs t)"
    using n h repr_leaf_pointer [of s d t] by (cases t) (auto simp: node_state_def roots_def leaf_ok_def leaf_pointer)
  then have ne: "self \<noteq> untag (tptr t)"
    using n by (auto simp: node_state_def)
  have other: "heap u q = (if q \<in> set (hptrs t) then None else heap s q)" if "q \<noteq> self" for q
    using that f root by (auto simp: u_def root_flushed_def)
  have g: "grows s u"
    using f by (simp add: u_def root_flushed_def)
  have "repr P u d r" if "r \<in> set (xs @ ys)" for r
  proof (rule repr_later)
    show "later s u"
      using g by (rule growsD)
    show "repr P s d r"
      using n that by (auto simp: node_state_def)
    show "heap u q = heap s q" if q: "q \<in> set (hptrs r)" for q
    proof -
      have "q \<noteq> self" "q \<notin> set (hptrs t)"
        using n q \<open>r \<in> set (xs @ ys)\<close> by (auto simp: node_state_def)
      then show ?thesis
        using other by simp
    qed
  qed
  moreover have "repr P u d t'"
  proof (rule repr_later)
    show "later s' u" "repr P s' d t'"
      using f by (simp_all add: u_def later_def root_flushed_def)
    show "heap u q = heap s' q" if "q \<in> set (hptrs t')" for q
      using f that by (simp add: root_flushed_def)
  qed
  moreover have "distinct (self # concat (map hptrs (xs @ t' # ys)))"
    using n f by (auto simp: node_state_def root_flushed_def)
  moreover have "heap u self = Some (Heap_internal (inode b (map tptr (xs @ t' # ys))))"
    using ne by (simp add: u_def)
  ultimately have "node_state P d self b u (xs @ t' # ys)"
    using n growsD(1) [OF g] by (auto simp: node_state_def)
  then show ?thesis
    using g other by blast
qed

lemma flush_linear_child:
  assumes "tx_ok s" "repr P s 66 (Lnode p es)" "is_heap p" "unat (db_logical_size s) + flush_cost (Lnode p es) \<le> 2 ^ 38"
  shows "\<exists>a s' t'. linear_flush (lnode (map fst es)) s = (Inr a, s')
    \<and> root_flushed P s 66 (Lnode p es) (a OR internal_node_bit) s' t'"
proof -
  have "unat (db_logical_size s) + 8 + length (linear_bytes (lnode (map fst es))) \<le> 2 ^ 38"
    using assms(3,4) by (simp add: length_linear_bytes)
  from put_node_ok [OF assms(1) this] obtain a s' where put: "tx_put 8 (linear_bytes (lnode (map fst es))) s = (Inr a, s')"
    and s': "grows s s'" "heap s' = heap s" "on_disk s' a (linear_bytes (lnode (map fst es)))" "8 dvd unat a"
      "unat (db_logical_size s') = unat a + length (linear_bytes (lnode (map fst es)))"
      "unat a < unat (db_logical_size s) + 8"
    by blast
  note ptr = stored_pointer [OF aligned_8_and_3 [OF s'(4)]]
  have "a mod 8 = 0"
    using s'(4) by (simp add: unat_eq_zero [symmetric] unat_mod mod_eq_0_iff_dvd)
  then have "linear_ok s' (a OR internal_node_bit) (map fst es)"
    using s'(3) ptr by (simp add: linear_ok_def)
  then have "repr P s' 66 (Lnode (a OR internal_node_bit) es)"
    using assms(2) leaf_ok_later [OF growsD(2) [OF s'(1)]] by auto
  moreover have "heap s (untag p) \<noteq> None"
    using assms(2,3) by (simp add: linear_ok_def)
  ultimately have "root_flushed P s 66 (Lnode p es) (a OR internal_node_bit) s' (Lnode (a OR internal_node_bit) es)"
    using assms(3) s' ptr by (simp add: root_flushed_def roots_def length_linear_bytes)
  then show ?thesis
    using put by (auto simp: linear_flush_put linear_node_copy_def)
qed

text \<open>What the loop over the children relies on for its recursive call.\<close>

definition flushes :: "nat \<Rightarrow> (u64 \<Rightarrow> ('z transaction_scheme, address) sx) \<Rightarrow> bool" where
  "flushes d rec \<longleftrightarrow> (\<forall>s t. tx_ok s \<longrightarrow> repr P s d t \<longrightarrow> is_heap (tptr t) \<longrightarrow> distinct (hptrs t) \<longrightarrow>
     unat (db_logical_size s) + flush_cost t \<le> 2 ^ 38 \<longrightarrow>
     (\<exists>a s' t'. rec (untag (tptr t)) s = (Inr a, s') \<and> root_flushed P s d t a s' t'))"

lemma flush_heap_child:
  assumes n: "node_state P d self b s (xs @ t # ys)" and h: "is_heap (tptr t)" and d: "d \<le> 66"
    and rec: "d < 66 \<Longrightarrow> flushes d rec" and fits: "unat (db_logical_size s) + flush_cost t \<le> 2 ^ 38"
  shows "\<exists>s' a t'. root_flushed P s d t a s' t' \<and> (\<forall>is. flush_children rec self d (length xs # is) s
    = flush_children rec self d is
        (s'\<lparr>heap := (heap s')(self \<mapsto> Heap_internal (inode b (map tptr (xs @ t' # ys))), untag (tptr t) := None)\<rparr>))"
proof -
  have t: "repr P s d t" "distinct (hptrs t)" "tx_ok s" "\<not> is_leaf (tptr t)"
    using n h repr_leaf_pointer [of s d t] by (auto simp: node_state_def leaf_ok_def leaf_pointer)
  then have int: "is_internal (tptr t)" "is_linear (tptr t)"
    by (simp_all add: is_leaf_not_internal is_linear_def is_internal_def)
  have child: "child_at (inode b (map tptr (xs @ t # ys))) (length xs) = Inr (tptr t)"
    using n by (simp add: child_at_def internal_size_def rbind_def rassert_def node_state_def nth_append)
  have self: "heap s self = Some (Heap_internal (inode b (map tptr (xs @ t # ys))))"
    using n by (simp add: node_state_def)
  have ne: "self \<notin> set (hptrs t)"
    using n by (simp add: node_state_def)
  have root: "untag (tptr t) \<in> set (hptrs t)"
    using t h by (cases t) (auto simp: roots_def leaf_ok_def leaf_pointer)
  then have nr: "self \<noteq> untag (tptr t)"
    using ne by auto
  have upd: "(map tptr xs @ p # map tptr ys)[length xs := a] = map tptr xs @ a # map tptr ys" for p a
    using list_update_length [of "map tptr xs" p "map tptr ys" a] by simp
  show ?thesis
  proof (cases "d < 66")
    case True
    obtain a s' t' where f: "rec (untag (tptr t)) s = (Inr a, s')" "root_flushed P s d t a s' t'"
      using rec [OF True] t fits h unfolding flushes_def by blast
    moreover have "heap s' self = heap s self" "heap s' (untag (tptr t)) \<noteq> None" "tptr t' = a"
      using f(2) ne nr by (simp_all add: root_flushed_def)
    ultimately show ?thesis
      using True h child self int nr
      by (intro exI [of _ s'] exI [of _ a] exI [of _ t'])
        (simp add: run_simps sbind_slift_Inr heap_internal_def hamt_constants heap_put_def heap_delete_def upd fun_upd_twist del: not_None_eq)
  next
    case False
    then obtain p es where l: "t = Lnode p es" "d = 66"
      using t d h by (cases t) (auto simp: leaf_ok_def leaf_pointer)
    then obtain a s' t' where f: "linear_flush (lnode (map fst es)) s = (Inr a, s')"
      "root_flushed P s d t (a OR internal_node_bit) s' t'"
      using flush_linear_child [of s p es] t h fits by auto
    moreover have "heap s' self = heap s self" "heap s' (untag (tptr t)) \<noteq> None"
      "tptr t' = a OR internal_node_bit"
      using f(2) ne nr by (simp_all add: root_flushed_def)
    moreover have "heap s (untag p) = Some (Heap_linear (lnode (map fst es)))"
      using t h by (simp add: l linear_ok_def)
    ultimately show ?thesis
      using False h child self int nr
      by (intro exI [of _ s'] exI [of _ "a OR internal_node_bit"] exI [of _ t'])
        (simp add: run_simps sbind_slift_Inr heap_internal_def heap_linear_def hamt_constants heap_put_def heap_delete_def upd l fun_upd_twist del: not_None_eq)
  qed
qed

lemma flush_child:
  assumes n: "node_state P d self b s (xs @ t # ys)" and d: "d \<le> 66" and rec: "d < 66 \<Longrightarrow> flushes d rec"
    and fits: "unat (db_logical_size s) + flush_cost t \<le> 2 ^ 38"
  shows "\<exists>s' u. (\<forall>is. flush_children rec self d (length xs # is) s = flush_children rec self d is s')
    \<and> node_state P d self b s' (xs @ u # ys) \<and> hptrs u = [] \<and> entries u = entries t \<and> grows s s'
    \<and> (\<forall>q. q \<noteq> self \<longrightarrow> heap s' q = (if q \<in> set (hptrs t) then None else heap s q))
    \<and> unat (db_logical_size s') \<le> unat (db_logical_size s) + flush_cost t"
proof (cases "is_heap (tptr t)")
  case True
  obtain s' a t' where f: "root_flushed P s d t a s' t'"
    "\<forall>is. flush_children rec self d (length xs # is) s = flush_children rec self d is
      (s'\<lparr>heap := (heap s')(self \<mapsto> Heap_internal (inode b (map tptr (xs @ t' # ys))), untag (tptr t) := None)\<rparr>)"
    using flush_heap_child [OF n True d rec fits] by blast
  let ?u = "s'\<lparr>heap := (heap s')(self \<mapsto> Heap_internal (inode b (map tptr (xs @ t' # ys))), untag (tptr t) := None)\<rparr>"
  have "unat (db_logical_size ?u) \<le> unat (db_logical_size s) + flush_cost t" "hptrs t' = []" "entries t' = entries t"
    using f(1) by (simp_all add: root_flushed_def)
  then show ?thesis
    using f(2) node_state_step [OF n True f(1)] by blast
next
  case False
  have "child_at (inode b (map tptr (xs @ t # ys))) (length xs) = Inr (tptr t)"
    using n by (simp add: child_at_def internal_size_def rbind_def rassert_def node_state_def nth_append)
  moreover have "heap s self = Some (Heap_internal (inode b (map tptr (xs @ t # ys))))" "tx_ok s"
    using n by (simp_all add: node_state_def)
  moreover have "hptrs t = []"
    using n False repr_stored [of s d t] by (auto simp: node_state_def)
  ultimately show ?thesis
    using False n
    by (intro exI [of _ s] exI [of _ t]) (simp add: run_simps sbind_slift_Inr heap_internal_def grows_refl)
qed

lemma flush_children_ok:
  assumes "d \<le> 66" and "d < 66 \<Longrightarrow> flushes d rec"
  shows "node_state P d self b s (xs @ ys) \<Longrightarrow> unat (db_logical_size s) + sum_list (map flush_cost ys) \<le> 2 ^ 38
    \<Longrightarrow> \<exists>s' zs. flush_children rec self d [length xs..<length xs + length ys] s = (Inr (), s')
      \<and> node_state P d self b s' (xs @ zs) \<and> (\<forall>t \<in> set zs. hptrs t = []) \<and> map entries zs = map entries ys
      \<and> grows s s' \<and> (\<forall>q. q \<noteq> self \<longrightarrow> heap s' q = (if q \<in> set (concat (map hptrs ys)) then None else heap s q))
      \<and> unat (db_logical_size s') \<le> unat (db_logical_size s) + sum_list (map flush_cost ys)"
proof (induction ys arbitrary: xs s)
  case Nil
  then show ?case
    by (intro exI [of _ s] exI [of _ "[]"]) (auto simp: run_simps grows_refl node_state_def)
next
  case (Cons t ys)
  obtain s1 u where u: "\<forall>is. flush_children rec self d (length xs # is) s = flush_children rec self d is s1"
    "node_state P d self b s1 (xs @ u # ys)" "hptrs u = []" "entries u = entries t" "grows s s1"
    "\<forall>q. q \<noteq> self \<longrightarrow> heap s1 q = (if q \<in> set (hptrs t) then None else heap s q)"
    "unat (db_logical_size s1) \<le> unat (db_logical_size s) + flush_cost t"
    using flush_child [OF Cons.prems(1) assms] Cons.prems(2) by auto
  have "node_state P d self b s1 ((xs @ [u]) @ ys)" "unat (db_logical_size s1) + sum_list (map flush_cost ys) \<le> 2 ^ 38"
    using u(2,7) Cons.prems(2) by simp_all
  from Cons.IH [OF this] obtain s2 zs where z:
    "flush_children rec self d [Suc (length xs)..<Suc (length xs) + length ys] s1 = (Inr (), s2)"
    "node_state P d self b s2 (xs @ u # zs)" "\<forall>t \<in> set zs. hptrs t = []" "map entries zs = map entries ys" "grows s1 s2"
    "\<forall>q. q \<noteq> self \<longrightarrow> heap s2 q = (if q \<in> set (concat (map hptrs ys)) then None else heap s1 q)"
    "unat (db_logical_size s2) \<le> unat (db_logical_size s1) + sum_list (map flush_cost ys)"
    by auto
  have "[length xs..<length xs + length (t # ys)] = length xs # [Suc (length xs)..<Suc (length xs) + length ys]"
    by (subst upt_conv_Cons) simp_all
  then have "flush_children rec self d [length xs..<length xs + length (t # ys)] s = (Inr (), s2)"
    using u(1) z(1) by (simp del: flush_children.simps)
  moreover have "grows s s2"
    using u(5) z(5) by (rule grows_trans)
  moreover have "\<forall>q. q \<noteq> self \<longrightarrow> heap s2 q = (if q \<in> set (concat (map hptrs (t # ys))) then None else heap s q)"
    using u(6) z(6) by simp
  ultimately show ?case
    using z(2-4,7) u(3,4,7) by (intro exI [of _ s2] exI [of _ "u # zs"]) simp
qed

lemma repr_stored_node:
  assumes n: "node_state P (d + 6) self b s us" and h: "\<forall>t \<in> set us. hptrs t = []" and d: "d < 66"
    and slices: "\<forall>i < length us. \<forall>k \<in> set (keys (us ! i)). hslice d (p_hash P k) = positions b ! i"
    and g: "grows s s'" "heap s' = heap s" and a: "8 dvd unat a" "unat (db_logical_size s) \<le> unat a"
    and disk: "on_disk s' a (internal_bytes (inode b (map tptr us)))"
  shows "repr P s' d (Inode (a OR internal_node_bit) b us)"
proof -
  note ptr = stored_pointer [OF aligned_8_and_3 [OF a(1)]]
  have r: "\<forall>t \<in> set us. repr P s (d + 6) t \<and> \<not> is_heap (tptr t)"
  proof
    fix t assume "t \<in> set us"
    then have "repr P s (d + 6) t" "hptrs t = []"
      using n h by (auto simp: node_state_def)
    then show "repr P s (d + 6) t \<and> \<not> is_heap (tptr t)"
      by (cases t) (auto simp: roots_def leaf_ok_def leaf_pointer split: if_splits)
  qed
  have "valid_children a (map tptr us)"
    using children_valid [OF _ _ _ r slices a(2)] n by (simp add: node_state_def)
  then have "internal_ok s' (a OR internal_node_bit) b (map tptr us)"
    using ptr disk by (simp add: internal_ok_def)
  moreover have "repr P s' (d + 6) t" if "t \<in> set us" for t
    using r that g by (intro repr_later [OF growsD(2) [OF g(1)]]) auto
  ultimately show ?thesis
    using n d slices by (simp add: node_state_def)
qed

lemma internal_flush_ok:
  "d < 66 \<Longrightarrow> 6 dvd d \<Longrightarrow> flushes d (internal_flush d :: u64 \<Rightarrow> ('z transaction_scheme, address) sx)"
proof (induction "66 - d" arbitrary: d rule: less_induct)
  case less
  let ?rec = "\<lambda>p. if d + 6 < 66 then internal_flush (d + 6) p else (sraise Undefined :: ('z transaction_scheme, address) sx)"
  have d: "d + 6 \<le> 66"
    using less.prems by (auto elim!: dvdE)
  have rec: "flushes (d + 6) ?rec" if "d + 6 < 66"
  proof -
    have "66 - (d + 6) < 66 - d"
      using that by linarith
    from less.hyps [OF this that] show ?thesis
      using less.prems that by simp
  qed
  show ?case
    unfolding flushes_def
  proof (intro allI impI)
    fix s :: "'z transaction_scheme" and t
    assume s: "tx_ok s" and r: "repr P s d t" and h: "is_heap (tptr t)" and ds: "distinct (hptrs t)"
      and fits: "unat (db_logical_size s) + flush_cost t \<le> 2 ^ 38"
    obtain p b ts where t: "t = Inode p b ts"
      using r h less.prems(1) by (cases t) (auto simp: leaf_ok_def leaf_pointer)
    have n: "node_state P (d + 6) (untag p) b s ([] @ ts)"
      using s r h ds by (auto simp: t node_state_def internal_ok_def roots_def)
    have "unat (db_logical_size s) + sum_list (map flush_cost ts) \<le> 2 ^ 38"
      using fits h by (simp add: t)
    from flush_children_ok [OF d rec n this] obtain s1 us where c:
      "flush_children ?rec (untag p) (d + 6) [0..<length ts] s = (Inr (), s1)"
      "node_state P (d + 6) (untag p) b s1 us" "\<forall>t \<in> set us. hptrs t = []" "map entries us = map entries ts" "grows s s1"
      "\<forall>q. q \<noteq> untag p \<longrightarrow> heap s1 q = (if q \<in> set (concat (map hptrs ts)) then None else heap s q)"
      "unat (db_logical_size s1) \<le> unat (db_logical_size s) + sum_list (map flush_cost ts)"
      by auto
    have len: "length us = pop_count b" "length ts = pop_count b" "b \<noteq> 0"
      using c(2) n by (simp_all add: node_state_def)
    have "unat (db_logical_size s1) + 8 + length (internal_bytes (inode b (map tptr us))) \<le> 2 ^ 38"
      using c(7) fits h len by (simp add: t length_internal_bytes)
    from put_node_ok [OF _ this] c(2) obtain a s2 where
      put: "tx_put 8 (internal_bytes (inode b (map tptr us))) s1 = (Inr a, s2)"
      and s2: "grows s1 s2" "heap s2 = heap s1" "on_disk s2 a (internal_bytes (inode b (map tptr us)))" "8 dvd unat a"
        "unat (db_logical_size s1) \<le> unat a"
        "unat (db_logical_size s2) = unat a + length (internal_bytes (inode b (map tptr us)))"
        "unat a < unat (db_logical_size s1) + 8"
      unfolding node_state_def by blast
    have "internal_flush d (untag p) s = (Inr (a OR internal_node_bit), s2)"
      using n c(1,2) put len
      by (subst internal_flush.simps)
        (simp add: run_simps sbind_slift_Inr hamt_constants heap_internal_def node_state_def internal_size_def rbind_def rassert_def
          Let_def store_node_put)
    moreover have "root_flushed P s d t (a OR internal_node_bit) s2 (Inode (a OR internal_node_bit) b us)"
    proof -
      have eq: "entries (us ! i) = entries (ts ! i)" if "i < length us" for i
        using that len arg_cong [OF c(4), of "\<lambda>xs. xs ! i"] by simp
      have "repr P s2 d (Inode (a OR internal_node_bit) b us)"
        using r c(3) less.prems(1) s2 len eq by (intro repr_stored_node [OF c(2)]) (auto simp: t)
      moreover have "heap s2 (untag p) \<noteq> None"
        using c(2) s2(2) by (simp add: node_state_def)
      moreover have "grows s s2"
        using c(5) s2(1) by (rule grows_trans)
      moreover have "concat (map hptrs us) = []"
        using c(3) by simp
      ultimately show ?thesis
        using c(4,6,7) s2(2,6,7) h len stored_pointer [OF aligned_8_and_3 [OF s2(4)]]
        by (auto simp: t root_flushed_def roots_def length_internal_bytes)
    qed
    ultimately show "\<exists>a s' t'. internal_flush d (untag (tptr t)) s = (Inr a, s') \<and> root_flushed P s d t a s' t'"
      by (auto simp: t)
  qed
qed

text \<open>The whole index: its root, and the header block.\<close>

lemma flush_root:
  assumes "index_ok P s m T" and "unat (db_logical_size s) + root_cost T \<le> 2 ^ 38"
  shows "\<exists>root s' T'. (if \<not> is_address (hm_root m)
              then sseq (sassert (is_internal (hm_root m)))
                     (sbind (internal_flush 0 (untag (hm_root m))) (\<lambda>root.
                      sseq (heap_delete (untag (hm_root m))) (sret root)))
              else sret (hm_root m)) s = (Inr root, s')
    \<and> grows s s' \<and> hamt_is P s' (m\<lparr>hm_root := root\<rparr>) T' \<and> tree_of T' = tree_of T \<and> heap_of T' = []
    \<and> heap s' = without (set (heap_of T)) (heap s)
    \<and> unat (db_logical_size s') \<le> unat (db_logical_size s) + root_cost T"
proof -
  have s: "tx_ok s" "hamt_is P s m T"
    using assms(1) by (simp_all add: index_ok_def)
  show ?thesis
  proof (cases "is_heap (hm_root m)")
    case True
    then obtain t where T: "T = Some t" "tree_ok P s 0 t" "hm_root m = tptr t" "is_leaf (tptr t) \<longleftrightarrow> length (entries t) = 1"
      using s(2) by (cases T) (auto simp: hamt_is_def is_heap_def)
    then have r: "repr P s 0 t" "distinct (hptrs t)"
      by (simp_all add: tree_ok_def)
    obtain a s1 t' where f: "internal_flush 0 (untag (tptr t)) s = (Inr a, s1)" "root_flushed P s 0 t a s1 t'"
      using internal_flush_ok [of 0, unfolded flushes_def, rule_format, OF _ _ s(1) r(1) _ r(2)] T True assms(2)
      by (auto simp: root_cost_def)
    have nl: "\<not> is_leaf (tptr t)" "untag (tptr t) \<in> set (hptrs t)"
      using r True T(3) by (cases t; auto simp: leaf_ok_def leaf_pointer internal_ok_def linear_ok_def is_leaf_not_internal roots_def)+
    define s2 where "s2 = s1\<lparr>heap := (heap s1)(untag (tptr t) := None)\<rparr>"
    have h: "heap s2 = without (set (hptrs t)) (heap s)"
    proof
      fix q
      show "heap s2 q = without (set (hptrs t)) (heap s) q"
        using f(2) nl(2) by (cases "q = untag (tptr t)") (simp_all add: s2_def root_flushed_def without_app)
    qed
    have r1: "repr P s1 0 t'" "hptrs t' = []"
      using f(2) by (simp_all add: root_flushed_def)
    have r2: "repr P s2 0 t'"
      by (rule repr_later [OF _ _ r1(1)]) (simp_all add: s2_def later_def r1(2))
    have "length (entries t') = length (entries t)"
      using f(2) by (simp add: root_flushed_def)
    then have "\<not> is_leaf (tptr t')"
      using repr_leaf_pointer [OF r2] nl(1) T(4) by auto
    then have "hamt_is P s2 (m\<lparr>hm_root := a\<rparr>) (Some t')"
      using r2 f(2) T nl(1) s(2) by (simp add: hamt_is_def tree_ok_def root_flushed_def tree_of_def)
    moreover have "sseq (sassert (is_internal (hm_root m)))
        (sbind (internal_flush 0 (untag (hm_root m))) (\<lambda>root. sseq (heap_delete (untag (hm_root m))) (sret root))) s = (Inr a, s2)"
      using f nl(1) by (simp add: T(3) run_simps heap_delete_def s2_def root_flushed_def is_leaf_not_internal del: not_None_eq)
    moreover have "\<not> is_address (hm_root m)"
      using True by (simp add: is_address_def)
    moreover have "grows s s2" "tree_of (Some t') = tree_of T" "heap_of (Some t') = []" "set (heap_of T) = set (hptrs t)"
      "unat (db_logical_size s2) \<le> unat (db_logical_size s) + root_cost T"
      using f(2) by (simp_all add: s2_def root_flushed_def T(1) tree_of_def heap_of_def root_cost_def)
    ultimately show ?thesis
      using h by (intro exI [of _ a] exI [of _ s2] exI [of _ "Some t'"]) simp
  next
    case False
    have "heap_of T = []"
      using s(2) False repr_stored by (auto simp: hamt_is_def heap_of_def tree_ok_def split: option.splits)
    moreover have "is_address (hm_root m)"
      using False by (simp add: is_address_def)
    ultimately show ?thesis
      using s by (intro exI [of _ "hm_root m"] exI [of _ s] exI [of _ T]) (simp add: run_simps grows_refl)
  qed
qed

lemma hamt_is_later:
  assumes "later s s'" and "hamt_is P s m T" and "\<And>q. q \<in> set (heap_of T) \<Longrightarrow> heap s' q = heap s q"
  shows "hamt_is P s' m T"
proof (cases T)
  case (Some t)
  then have "repr P s' 0 t"
    using assms by (intro repr_later [OF assms(1)]) (simp_all add: hamt_is_def tree_ok_def heap_of_def)
  then show ?thesis
    using assms(2) Some by (simp add: hamt_is_def tree_ok_def)
qed (use assms(2) in \<open>simp add: hamt_is_def\<close>)

lemma hamt_flush_ok:
  assumes "index_ok P s m T" and "unat (db_logical_size s) + root_cost T + 32 \<le> 2 ^ 38"
  shows "\<exists>root pos s' T'. hamt_flush m generation s = (Inr (m\<lparr>hm_root := root, hm_revision := generation\<rparr>, pos), s')
    \<and> flush_result P s m T root pos s' T'"
proof -
  obtain root s1 T' where r: "(if \<not> is_address (hm_root m)
      then sseq (sassert (is_internal (hm_root m)))
             (sbind (internal_flush 0 (untag (hm_root m))) (\<lambda>root.
              sseq (heap_delete (untag (hm_root m))) (sret root)))
      else sret (hm_root m)) s = (Inr root, s1)"
    and s1: "grows s s1" "hamt_is P s1 (m\<lparr>hm_root := root\<rparr>) T'" "tree_of T' = tree_of T" "heap_of T' = []"
      "heap s1 = without (set (heap_of T)) (heap s)"
      "unat (db_logical_size s1) \<le> unat (db_logical_size s) + root_cost T"
    using flush_root [OF assms(1)] assms(2) by auto
  let ?bs = "header_block_bytes \<lparr>hb_signature = index_signature, hb_size = hm_size m, hb_root = root\<rparr>"
  have len: "length ?bs = 24"
    by (simp add: header_block_bytes_def)
  obtain pos s2 where put: "tx_put 8 ?bs s1 = (Inr pos, s2)"
    and s2: "grows s1 s2" "heap s2 = heap s1" "on_disk s2 pos ?bs" "8 dvd unat pos"
      "unat (db_logical_size s2) = unat pos + 24" "unat pos < unat (db_logical_size s1) + 8"
    using put_node_ok [OF growsD(1) [OF s1(1)], of ?bs] s1(6) assms(2) len by auto
  have "sbind (tx_alloc_rw 24 8) (\<lambda>(ptr, pos). sseq (store ptr ?bs) (sret (f pos))) s1 = (Inr (f pos), s2)" for f
    using put len by (auto simp: tx_put_def run_simps split: prod.splits sum.splits)
  then have run: "hamt_flush m generation s = (Inr (m\<lparr>hm_root := root, hm_revision := generation\<rparr>, pos), s2)"
    using r assms(1) by (simp add: hamt_flush_def run_simps index_ok_def)
  have "hamt_is P s2 (m\<lparr>hm_root := root\<rparr>) T'"
    using s1(2) by (rule hamt_is_later [OF growsD(2) [OF s2(1)]]) (simp add: s2(2))
  then have "flush_result P s m T root pos s2 T'"
    using s1 s2 grows_trans [OF s1(1) s2(1)] by (simp add: flush_result_def)
  with run show ?thesis
    by blast
qed

lemma hamt_init_ok:
  assumes db: "db_ok s" "\<not> db_closed s" and rev: "get_current_revision s = Inr revision"
    and m: "hamt_is P s m T" "heap_of T = []" and pos: "8 dvd unat pos"
    and disk: "on_disk s pos (header_block_bytes \<lparr>hb_signature = index_signature, hb_size = hm_size m, hb_root = hm_root m\<rparr>)"
  shows "hamt_init s pos = Inr (m\<lparr>hm_revision := revision\<rparr>)"
proof -
  let ?bs = "header_block_bytes \<lparr>hb_signature = index_signature, hb_size = hm_size m, hb_root = hm_root m\<rparr>"
  have "getro s pos 24 = Inr ?bs"
    using getro_on_disk [OF db disk, of 24] by (simp add: header_block_bytes_def)
  moreover have "pos mod 8 = 0" "pos \<noteq> 0"
    using pos disk by (auto simp: unat_eq_zero [symmetric] unat_mod mod_eq_0_iff_dvd on_disk_def)
  moreover have "\<not> is_heap (hm_root m) \<and> (hm_size m = 0 \<longleftrightarrow> is_empty_pointer (hm_root m))
    \<and> (hm_size m = 1 \<longrightarrow> is_leaf (hm_root m)) \<and> (1 < hm_size m \<longrightarrow> is_internal (hm_root m))"
  proof (cases T)
    case None
    then show ?thesis
      using m by (simp add: hamt_is_def tree_of_def is_empty_pointer_def is_heap_def unsigned_eq_0_iff)
  next
    case (Some t)
    then have t: "repr P s 0 t" "hptrs t = []" "hm_root m = tptr t" "is_leaf (tptr t) \<longleftrightarrow> length (entries t) = 1"
      "unat (hm_size m) = length (entries t)"
      using m by (simp_all add: hamt_is_def tree_ok_def tree_of_def heap_of_def)
    have "\<not> is_heap (tptr t)" "tptr t \<noteq> 0"
      using t(1,2) by (cases t; auto simp: leaf_ok_def leaf_pointer roots_def internal_ok_def linear_ok_def is_internal_def
          split: if_splits)+
    moreover have "length (entries t) \<noteq> 0"
      using repr_entries_nonempty [OF t(1)] by simp
    ultimately show ?thesis
      using t by (auto simp: is_empty_pointer_def is_leaf_not_internal word_less_nat_alt)
  qed
  ultimately show ?thesis
    using rev by (auto simp: hamt_init_def rbind_def getro_typed_def header_block_of_header_block_bytes Let_def)
qed

section \<open>Clearing\<close>

lemma clear_node_ok:
  fixes s :: "'z database_scheme"
  assumes "6 dvd d" and "d \<le> 66"
  shows "repr P s d t \<Longrightarrow> is_heap (tptr t) \<Longrightarrow> distinct (hptrs t)
    \<Longrightarrow> hamt_clear_node (tptr t) d s = (Inr (), s\<lparr>heap := without (set (hptrs t)) (heap s)\<rparr>)"
  using assms
proof (induction t arbitrary: d s)
  case (Leaf a k v)
  then show ?case
    by (simp add: leaf_ok_def leaf_pointer)
next
  case (Lnode p es)
  then show ?case
    by (subst hamt_clear_node.simps)
      (auto simp: run_simps depth_is_internal_node_iff delete_node_def heap_linear_def heap_delete_def linear_ok_def
        roots_def is_leaf_not_internal without_def fun_upd_def)
next
  case (Inode p b ts)
  have d: "d < 66" "d + 6 \<le> 66" "6 dvd d + 6"
    using Inode.prems by (auto elim!: dvdE)
  have heap_p: "heap s (untag p) = Some (Heap_internal (inode b (map tptr ts)))" "is_internal p"
    using Inode.prems by (simp_all add: internal_ok_def)
  let ?clear = "\<lambda>p m. sseq (if is_heap p then hamt_clear_node p (d + hash_index_bits) else sret ()) m"
  have loop: "foldr ?clear (map tptr us) (sret ()) s'
      = (Inr (), s'\<lparr>heap := without (set (concat (map hptrs us))) (heap s')\<rparr>)"
    if "set us \<subseteq> set ts" "distinct (concat (map hptrs us))" "\<forall>t \<in> set us. repr P s' (d + 6) t"
    for us and s' :: "'z database_scheme"
    using that
  proof (induction us arbitrary: s')
    case (Cons t us)
    let ?s = "s'\<lparr>heap := without (set (hptrs t)) (heap s')\<rparr>"
    have "(if is_heap (tptr t) then hamt_clear_node (tptr t) (d + hash_index_bits) else sret ()) s' = (Inr (), ?s)"
      unfolding hash_index_bits_eq using Cons.prems Inode.IH [of t s' "d + 6"] d repr_stored [of s' "d + 6" t] by (auto simp: run_simps)
    moreover have "\<forall>r \<in> set us. repr P ?s (d + 6) r"
    proof
      fix r assume "r \<in> set us"
      then have r: "repr P s' (d + 6) r" "set (hptrs r) \<inter> set (hptrs t) = {}"
        using Cons.prems by auto
      show "repr P ?s (d + 6) r"
        by (rule repr_later [OF _ _ r(1)]) (use r(2) in \<open>auto simp: later_def without_app\<close>)
    qed
    ultimately show ?case
      using Cons.IH [of ?s] Cons.prems by (simp add: run_simps Un_commute)
  qed (simp add: run_simps)
  then have "foldr ?clear (map tptr ts) (sret ()) s
      = (Inr (), s\<lparr>heap := without (set (concat (map hptrs ts))) (heap s)\<rparr>)"
    using Inode.prems by simp
  moreover have heap_q: "without (set (concat (map hptrs ts))) (heap s) (untag p) = Some (Heap_internal (inode b (map tptr ts)))"
    using Inode.prems heap_p(1) by (simp add: without_app roots_def)
  ultimately show ?case
    using Inode.prems heap_p d(1) heap_q
    by (subst hamt_clear_node.simps)
      (simp add: run_simps depth_is_internal_node_iff delete_node_def heap_internal_def heap_delete_def
        roots_def is_leaf_not_internal without_delete)
qed

end

end
