(* ===== verification/Revisions.thy ===== *)
theory Revisions
  imports Hamt_Flush
begin

unbundle bit_operations_syntax

text \<open>
  The revisions of a store. Each committed transaction ends with a trailer that points at the one before it; the header
  points at the newest. The theory has the moves of a database handle between revisions
  (\<^verbatim>\<open>database::sync\<close>, \<^verbatim>\<open>lib/core/database.cpp\<close>), which drop the cached indices, and the iterator over the
  generations (\<^verbatim>\<open>lib/core/generation_iterator.cpp\<close>). It shows that every revision of an intact list is found,
  that any other is reported as unknown, and that the walks over the list end.
\<close>

section \<open>Cached indices\<close>

text \<open>
  Dropping the cached indices. The last reference to an index runs its destructor, which clears it; the cache is
  taken to hold the only reference.
\<close>

fun clear_indices :: "hamt option list \<Rightarrow> ('z mem_scheme, unit) sx" where
  "clear_indices [] = sret ()"
| "clear_indices (None # rest) = clear_indices rest"
| "clear_indices (Some m # rest) = sseq (sbind (hamt_clear m) (\<lambda>_. sret ())) (clear_indices rest)"

definition clear_index_cache :: "('z database_scheme, unit) sx" where
  "clear_index_cache =
     sbind (sgets db_indices) (\<lambda>xs.
     sseq (clear_indices xs) (smodify (\<lambda>s. s\<lparr>db_indices := map (\<lambda>_. None) xs\<rparr>)))"

section \<open>Moving to a revision\<close>

definition head_revision :: u32 where
  "head_revision = - 1"

text \<open>
  The walk down the list of trailers. Nothing in the loop bounds it when the file is damaged, so that a walk that
  does not end is \<open>None\<close>.
\<close>

partial_function (option) older_loop ::
  "'z database_scheme \<Rightarrow> u32 \<Rightarrow> address \<Rightarrow> (exn + address) option" where
  "older_loop s revision footer_pos =
     (case getro_typed 8 s footer_pos (of_nat sizeof_trailer) of
        Inl e \<Rightarrow> Some (Inl e)
      | Inr bs \<Rightarrow>
          (if t_generation (t_a (trailer_of_bytes bs)) < revision then Some (Inl (Raise unknown_revision))
           else if t_generation (t_a (trailer_of_bytes bs)) = revision then Some (Inr footer_pos)
           else (case trailer_validate s (t_prev_generation (t_a (trailer_of_bytes bs))) of
                   Inl e \<Rightarrow> Some (Inl e)
                 | Inr _ \<Rightarrow> older_loop s revision (t_prev_generation (t_a (trailer_of_bytes bs))))))"

definition older_revision_footer_pos :: "'z database_scheme \<Rightarrow> u32 \<Rightarrow> (exn + address) option" where
  "older_revision_footer_pos s revision =
     (if revision = head_revision then Some (Inl (Raise unknown_revision))
      else case get_current_revision s of
        Inl e \<Rightarrow> Some (Inl e)
      | Inr current \<Rightarrow>
          if current < revision then Some (Inl (Raise unknown_revision))
          else older_loop s revision (db_footer_pos s))"

text \<open>The part of \<open>sync\<close> that moves to the head; \<open>None\<close> when the handle is there already.\<close>

definition move_to_head :: "u32 \<Rightarrow> ('z database_scheme, address option) sx" where
  "move_to_head revision =
     sbind (sread (\<lambda>s. getro_typed 8 s 0 (of_nat sizeof_header))) (\<lambda>bs.
     let new_footer_pos = h_footer_pos (header_of_bytes bs) in
     sbind (sgets id) (\<lambda>s.
     if revision = head_revision \<and> new_footer_pos = db_footer_pos s then sret None
     else if file_size (db_storage s) < new_footer_pos + of_nat sizeof_trailer then sraise (Raise footer_corrupt)
     else
       sseq (on_storage (map_bytes (new_footer_pos + of_nat sizeof_trailer)))
       (sseq (update_footer_pos new_footer_pos)
       (sbind (sread (\<lambda>s. trailer_validate s new_footer_pos)) (\<lambda>_. sret (Some new_footer_pos))))))"

definition sync :: "u32 \<Rightarrow> 'z database_scheme \<Rightarrow> ((exn + unit) \<times> 'z database_scheme) option" where
  "sync revision s =
     (case (if revision = head_revision then Inr (Some True)
            else rbind (get_current_revision s) (\<lambda>current_revision.
                 Inr (if revision = current_revision then None else Some (current_revision < revision)))) of
        Inl e \<Rightarrow> Some (Inl e, s)
      | Inr None \<Rightarrow> Some (Inr (), s)
      | Inr (Some is_newer) \<Rightarrow>
          if \<not> is_newer \<and> db_footer_pos s = 0 then Some (Inl Assertion, s)
          else case (if is_newer then move_to_head revision s else (Inr (Some (db_footer_pos s)), s)) of
            (Inl e, s) \<Rightarrow> Some (Inl e, s)
          | (Inr None, s) \<Rightarrow> Some (Inr (), s)
          | (Inr (Some footer_pos), s) \<Rightarrow>
              (case (if revision \<noteq> head_revision then older_revision_footer_pos s revision else Some (Inr footer_pos)) of
                 None \<Rightarrow> None
               | Some (Inl e) \<Rightarrow> Some (Inl e, s)
               | Some (Inr footer_pos) \<Rightarrow> Some (sseq clear_index_cache (update_footer_pos footer_pos) s)))"

section \<open>The generations\<close>

definition generation_iterator :: "'z database_scheme \<Rightarrow> address \<Rightarrow> exn + address" where
  "generation_iterator s pos = rbind (trailer_validate s pos) (\<lambda>_. Inr pos)"

definition generation_increment :: "'z database_scheme \<Rightarrow> address \<Rightarrow> exn + address" where
  "generation_increment s pos =
     rbind (getro_typed 8 s pos (of_nat sizeof_trailer)) (\<lambda>bs.
     generation_iterator s (t_prev_generation (t_a (trailer_of_bytes bs))))"

definition generation_begin :: "'z database_scheme \<Rightarrow> exn + address" where
  "generation_begin s = generation_iterator s (db_footer_pos s)"

definition generation_end :: "'z database_scheme \<Rightarrow> exn + address" where
  "generation_end s = generation_iterator s 0"

text \<open>
  The loop \<^verbatim>\<open>for (auto pos : generation_container (db))\<close> that collects the positions: its value is \<open>None\<close> when it
  does not end.
\<close>

partial_function (option) generation_walk :: "'z database_scheme \<Rightarrow> address \<Rightarrow> (exn + address list) option" where
  "generation_walk s pos =
     (if generation_end s = Inr pos then Some (Inr [])
      else case generation_increment s pos of
        Inl e \<Rightarrow> Some (Inl e)
      | Inr pos' \<Rightarrow> Option.bind (generation_walk s pos') (\<lambda>r. Some (rbind r (\<lambda>ps. Inr (pos # ps)))))"

section \<open>The list of revisions\<close>

text \<open>
  The trailer that a transaction of \<open>size\<close> bytes (its own included) writes behind the one at \<open>prev\<close>.
\<close>

definition commit_trailer :: "u64 list \<Rightarrow> u32 \<Rightarrow> u64 \<Rightarrow> u64 \<Rightarrow> u64 \<Rightarrow> trailer" where
  "commit_trailer locations generation sz now prev =
     (let t = trailer_init locations;
          t = t\<lparr>t_a := (t_a t)\<lparr>t_generation := generation, t_size := sz - of_nat sizeof_trailer, t_time := now,
                t_prev_generation := prev\<rparr>\<rparr>
      in t\<lparr>t_crc := trailer_get_crc t\<rparr>)"

text \<open>
  A trailer of generation \<open>n\<close> at \<open>p\<close>, whose transaction begins right behind the trailer at \<open>prev\<close>.
\<close>

definition link :: "(nat \<Rightarrow> u8) \<Rightarrow> address \<Rightarrow> trailer \<Rightarrow> address \<Rightarrow> nat \<Rightarrow> bool" where
  "link m p t prev n \<longleftrightarrow>
     map m [unat p..<unat p + sizeof_trailer] = trailer_bytes t \<and> trailer_wf t \<and> crc_is_valid t \<and> signature_is_valid t
     \<and> 8 dvd unat p \<and> t_generation (t_a t) = of_nat n \<and> n < 2 ^ 32 - 1 \<and> t_prev_generation (t_a t) = prev
     \<and> (if prev = 0 then 64 else unat prev + sizeof_trailer) + unat (t_size (t_a t)) = unat p"

definition newest :: "(address \<times> trailer) list \<Rightarrow> address" where
  "newest gs = (case gs of [] \<Rightarrow> 0 | (p, t) # _ \<Rightarrow> p)"

fun chain :: "(nat \<Rightarrow> u8) \<Rightarrow> (address \<times> trailer) list \<Rightarrow> bool" where
  "chain m [] = True"
| "chain m ((p, t) # gs) = (link m p t (newest gs) (length gs) \<and> chain m gs)"

lemma newest_simps [simp]: "newest [] = 0" "newest ((p, t) # gs) = p"
  by (simp_all add: newest_def)

lemma link_leader: "link m p t prev n \<Longrightarrow> 64 \<le> unat p"
  by (auto simp: link_def sizeof_trailer_def split: if_splits)

lemma link_cong:
  assumes "\<And>i. 64 \<le> i \<Longrightarrow> i < unat p + sizeof_trailer \<Longrightarrow> m' i = m i" and "link m p t prev n"
  shows "link m' p t prev n"
proof -
  have "map m' [unat p..<unat p + sizeof_trailer] = map m [unat p..<unat p + sizeof_trailer]"
    using assms link_leader [OF assms(2)] by (intro map_cong) auto
  then show ?thesis
    using assms(2) by (simp add: link_def del: map_eq_conv)
qed

lemma chain_newest:
  assumes "chain m gs" "gs \<noteq> []"
  shows "64 \<le> unat (newest gs)" "newest gs \<noteq> 0"
  using assms link_leader by (cases gs; force)+

lemma chain_below:
  "chain m gs \<Longrightarrow> j < length gs \<Longrightarrow> unat (fst (gs ! j)) + sizeof_trailer \<le> unat (newest gs) + sizeof_trailer"
proof (induction gs arbitrary: j)
  case (Cons g gs)
  obtain p t where g: "g = (p, t)" by force
  show ?case
  proof (cases j)
    case (Suc i)
    then have "gs \<noteq> []" "unat (fst (gs ! i)) \<le> unat (newest gs)"
      using Cons by (auto simp: g)
    moreover have "unat (newest gs) \<le> unat p"
      using Cons.prems(1) chain_newest(2) [of m gs] \<open>gs \<noteq> []\<close> by (simp add: g link_def)
    ultimately show ?thesis
      using Suc by (simp add: g)
  qed (simp add: g)
qed simp

lemma chain_length: "chain m gs \<Longrightarrow> length gs < 2 ^ 32"
  by (cases gs) (auto simp: link_def)

lemma chain_cong:
  assumes "chain m gs" and "\<And>i. 64 \<le> i \<Longrightarrow> i < unat (newest gs) + sizeof_trailer \<Longrightarrow> m' i = m i"
  shows "chain m' gs"
  using assms
proof (induction gs)
  case (Cons g gs)
  obtain p t where g: "g = (p, t)" by force
  have "unat (newest gs) \<le> unat p"
    using Cons.prems(1) chain_newest(2) [of m gs] by (cases "gs = []") (simp_all add: g link_def)
  then have "chain m' gs"
    using Cons by (auto simp: g)
  then show ?case
    using Cons.prems link_cong [of p m' m t "newest gs" "length gs"] by (simp add: g)
qed simp

lemma getro_link:
  assumes "db_ok s" "\<not> db_closed s" "link (db_memory s) p t prev n" "unat p + sizeof_trailer \<le> unat (db_logical_size s)"
  shows "getro_typed 8 s p (of_nat sizeof_trailer) = Inr (trailer_bytes t)"
proof -
  have "p mod 8 = 0"
    using assms(3) by (simp add: link_def unat_eq_zero [symmetric] unat_mod mod_eq_0_iff_dvd)
  then show ?thesis
    using getro_ok [OF assms(1,2), of p "of_nat sizeof_trailer"] assms(3,4)
    by (simp add: getro_typed_def file_bytes_def link_def)
qed

lemma validate_link:
  assumes "db_ok s" "\<not> db_closed s" "link (db_memory s) p t prev n" "unat p + sizeof_trailer \<le> unat (db_logical_size s)"
  shows "trailer_validate s p = Inr True"
proof -
  have l: "trailer_of_bytes (trailer_bytes t) = t" "crc_is_valid t" "signature_is_valid t" "8 dvd unat p"
    "t_prev_generation (t_a t) = prev" "(if prev = 0 then 64 else unat prev + sizeof_trailer) + unat (t_size (t_a t)) = unat p"
    using assms(3) by (simp_all add: link_def trailer_of_trailer_bytes)
  have p: "p \<noteq> 0" "\<not> p < leader_size" "p mod 8 = 0"
    using link_leader [OF assms(3)] l(4)
    by (auto simp: word_less_nat_alt leader_size_def unat_eq_zero [symmetric] unat_mod mod_eq_0_iff_dvd)
  have sz: "\<not> p < t_size (t_a t)" "t_size (t_a t) \<le> p"
    using l(6) by (simp_all add: word_less_nat_alt word_le_nat_alt)
  have overlap: "\<not> p - of_nat sizeof_trailer < prev" if "of_nat sizeof_trailer \<le> p"
  proof -
    have "unat (p - of_nat sizeof_trailer) = unat p - sizeof_trailer"
      using that by (simp add: unat_sub)
    then show ?thesis
      using l(6) by (auto simp: word_less_nat_alt split: if_splits)
  qed
  have "p - t_size (t_a t) = (if prev = 0 then leader_size else prev + of_nat sizeof_trailer)"
  proof (rule unsigned_word_eqI)
    have "prev \<noteq> 0 \<Longrightarrow> unat (prev + of_nat sizeof_trailer) = unat prev + sizeof_trailer"
      using l(6) unsigned_less [of p, where 'a = nat] by (subst unat_plus_no_wrap) simp_all
    then show "unat (p - t_size (t_a t)) = unat (if prev = 0 then leader_size else prev + of_nat sizeof_trailer)"
      using l(6) sz(2) by (auto simp: unat_sub leader_size_def split: if_splits)
  qed
  then show ?thesis
    using p sz overlap l getro_link [OF assms]
    by (auto simp: trailer_validate_def rbind_def rassert_def Let_def typed_minus_def typed_plus_def address_minus_def)
qed

lemma older_loop_ok:
  assumes db: "db_ok s" "\<not> db_closed s"
  shows "chain (db_memory s) gs \<Longrightarrow> unat (newest gs) + sizeof_trailer \<le> unat (db_logical_size s) \<Longrightarrow> r < length gs
    \<Longrightarrow> older_loop s (of_nat r) (newest gs) = Some (Inr (fst (gs ! (length gs - 1 - r))))"
proof (induction gs)
  case (Cons g gs)
  obtain p t where g: "g = (p, t)" by force
  have l: "link (db_memory s) p t (newest gs) (length gs)"
    using Cons.prems(1) by (simp add: g)
  then have t: "trailer_of_bytes (trailer_bytes t) = t" "t_generation (t_a t) = of_nat (length gs)"
    "t_prev_generation (t_a t) = newest gs" "length gs < 2 ^ 32 - 1"
    by (simp_all add: link_def trailer_of_trailer_bytes)
  have read: "getro_typed 8 s p (of_nat sizeof_trailer) = Inr (trailer_bytes t)"
    using getro_link [OF db l] Cons.prems(2) by (simp add: g)
  show ?case
  proof (cases "r = length gs")
    case True
    then show ?thesis
      using read t by (subst older_loop.simps) (simp add: g)
  next
    case False
    then have r: "r < length gs" "gs \<noteq> []"
      using Cons.prems(3) by auto
    have ne: "(of_nat (length gs) :: u32) \<noteq> of_nat r" "\<not> (of_nat (length gs) :: u32) < of_nat r"
      using r t(4) by (auto simp: word_unat_eq_iff word_less_nat_alt unat_of_nat)
    obtain q u gs' where gs: "gs = (q, u) # gs'"
      using r(2) by (cases gs) auto
    have below: "unat (newest gs) + sizeof_trailer \<le> unat (db_logical_size s)"
      using chain_below [OF Cons.prems(1), of 1] Cons.prems(2) by (simp add: g gs)
    then have "trailer_validate s (newest gs) = Inr True"
      using validate_link [OF db, of q u] Cons.prems(1) by (auto simp: g gs)
    then show ?thesis
      using read t ne Cons.IH [OF _ below r(1)] Cons.prems(1) r(1)
      by (subst older_loop.simps) (simp add: g nth_Cons' Suc_diff_Suc)
  qed
qed simp


section \<open>Dropping cached indices\<close>

text \<open>
  A cached index whose nodes on the heap are \<open>A\<close>: clearing it, now or when the file has grown, frees exactly these.
\<close>

definition clears :: "'z database_scheme \<Rightarrow> hamt \<Rightarrow> u64 set \<Rightarrow> bool" where
  "clears s m A \<longleftrightarrow> (\<forall>s' :: 'z database_scheme. later s s' \<longrightarrow> (\<forall>q \<in> A. heap s' q = heap s q)
     \<longrightarrow> (\<exists>m'. hamt_clear m s' = (Inr m', s'\<lparr>heap := without A (heap s')\<rparr>)))"

fun cache_ok :: "'z database_scheme \<Rightarrow> hamt option list \<Rightarrow> u64 set \<Rightarrow> bool" where
  "cache_ok s [] A = (A = {})"
| "cache_ok s (None # xs) A = cache_ok s xs A"
| "cache_ok s (Some m # xs) A = (\<exists>B C. clears s m B \<and> cache_ok s xs C \<and> B \<inter> C = {} \<and> A = B \<union> C)"

lemma cache_ok_empty [simp]: "cache_ok s (replicate n None) {}"
  by (induction n) simp_all

lemma clear_indices_ok:
  fixes s s' :: "'z database_scheme"
  shows "cache_ok s xs A \<Longrightarrow> later s s' \<Longrightarrow> \<forall>q \<in> A. heap s' q = heap s q
    \<Longrightarrow> clear_indices xs s' = (Inr (), s'\<lparr>heap := without A (heap s')\<rparr>)"
proof (induction xs A arbitrary: s' rule: cache_ok.induct)
  case (3 s m xs A)
  then obtain B C where bc: "clears s m B" "cache_ok s xs C" "B \<inter> C = {}" "A = B \<union> C"
    by auto
  obtain m' where m': "hamt_clear m s' = (Inr m', s'\<lparr>heap := without B (heap s')\<rparr>)"
    using bc(1,4) 3(3,4) by (auto simp: clears_def)
  have "\<forall>q \<in> C. without B (heap s') q = heap s q" "later s (s'\<lparr>heap := without B (heap s')\<rparr>)"
    using 3(3,4) bc(3,4) by (auto simp: without_app later_def)
  then have "clear_indices xs (s'\<lparr>heap := without B (heap s')\<rparr>)
      = (Inr (), s'\<lparr>heap := without C (without B (heap s'))\<rparr>)"
    using 3(1) [OF bc(2), of "s'\<lparr>heap := without B (heap s')\<rparr>"] by simp
  then show ?case
    using m' bc(4) by (simp add: run_simps Un_commute)
qed (auto simp: run_simps)

context index_params
begin

lemma hamt_clears:
  fixes s :: "'z database_scheme"
  assumes "hamt_is P s m T"
  shows "clears s m (set (heap_of T))"
  unfolding clears_def
proof (intro allI impI)
  fix s' :: "'z database_scheme"
  assume s': "later s s'" "\<forall>q \<in> set (heap_of T). heap s' q = heap s q"
  have m: "hamt_is P s' m T"
    using hamt_is_later [OF s'(1) assms] s'(2) by simp
  show "\<exists>m'. hamt_clear m s' = (Inr m', s'\<lparr>heap := without (set (heap_of T)) (heap s')\<rparr>)"
  proof (cases "is_heap (hm_root m)")
    case True
    then obtain t where t: "T = Some t" "repr P s' 0 t" "hm_root m = tptr t" "distinct (hptrs t)"
      using m by (cases T) (auto simp: hamt_is_def tree_ok_def is_heap_def)
    then show ?thesis
      using True clear_node_ok [of 0 s' t] by (simp add: hamt_clear_def run_simps heap_of_def)
  next
    case False
    then have "heap_of T = []"
      using m repr_stored by (auto simp: hamt_is_def tree_ok_def heap_of_def split: option.splits)
    then show ?thesis
      using False by (simp add: hamt_clear_def run_simps)
  qed
qed

end

section \<open>Moving between revisions\<close>

text \<open>
  A handle on a file whose revisions are \<open>gs\<close>, the newest first: it is at one of them, and it has no open transaction.
\<close>

definition revisions :: "'z database_scheme \<Rightarrow> (address \<times> trailer) list \<Rightarrow> bool" where
  "revisions s gs \<longleftrightarrow> db_ok s \<and> \<not> db_closed s \<and> gs \<noteq> [] \<and> chain (db_memory s) gs
     \<and> h_footer_pos (db_header s) = newest gs \<and> unat (newest gs) + sizeof_trailer \<le> unat (file_size (db_storage s))
     \<and> unat (newest gs) + sizeof_trailer \<le> 2 ^ 38 \<and> unat (db_logical_size s) \<le> unat (newest gs) + sizeof_trailer
     \<and> db_footer_pos s \<in> fst ` set gs"

lemma chain_drop: "chain m gs \<Longrightarrow> chain m (drop j gs)"
  by (induction gs arbitrary: j) (auto simp: drop_Cons split: nat.splits)

lemma newest_drop: "j < length gs \<Longrightarrow> newest (drop j gs) = fst (gs ! j)"
  by (simp add: newest_def Cons_nth_drop_Suc [symmetric] split: prod.splits list.splits)

lemma chain_nth:
  assumes "chain m gs" "j < length gs"
  shows "link m (fst (gs ! j)) (snd (gs ! j)) (newest (drop (Suc j) gs)) (length gs - 1 - j)"
proof -
  have "drop j gs = (fst (gs ! j), snd (gs ! j)) # drop (Suc j) gs"
    using assms(2) Cons_nth_drop_Suc by fastforce
  then have "chain m ((fst (gs ! j), snd (gs ! j)) # drop (Suc j) gs)"
    using chain_drop [OF assms(1), of j] by simp
  then show ?thesis
    by (simp del: prod.collapse)
qed

lemma footer_at:
  assumes "db_ok s" "\<not> db_closed s" "chain (db_memory s) gs" "j < length gs" "db_footer_pos s = fst (gs ! j)"
  shows "get_footer s = Inr (snd (gs ! j))" "get_current_revision s = Inr (of_nat (length gs - 1 - j))"
proof -
  note l = chain_nth [OF assms(3,4)]
  have "unat (fst (gs ! j)) + sizeof_trailer \<le> unat (db_logical_size s)"
    using assms(1,5) by (simp add: db_ok_def)
  then show "get_footer s = Inr (snd (gs ! j))"
    using getro_link [OF assms(1,2) l] l assms(5)
    by (simp add: get_footer_def rbind_def link_def trailer_of_trailer_bytes)
  then show "get_current_revision s = Inr (of_nat (length gs - 1 - j))"
    using l by (simp add: get_current_revision_def rbind_def link_def)
qed

lemma unat_head_revision [simp]: "unat head_revision = 2 ^ 32 - 1"
  by (simp add: head_revision_def unsigned_minus_1_eq_mask mask_eq_exp_minus_1)

lemma revision_numbers:
  assumes "n < 2 ^ 32 - 1" "r < 2 ^ 32 - 1"
  shows "(of_nat n :: u32) < of_nat r \<longleftrightarrow> n < r" "(of_nat r :: u32) = of_nat n \<longleftrightarrow> r = n" "(of_nat r :: u32) \<noteq> head_revision"
  using assms by (auto simp: word_less_nat_alt unat_of_nat word_unat_eq_iff)

lemma older_revision_ok:
  assumes "db_ok s" "\<not> db_closed s" "chain (db_memory s) gs" "j < length gs" "db_footer_pos s = fst (gs ! j)"
    and "r < length gs - j"
  shows "older_revision_footer_pos s (of_nat r) = Some (Inr (fst (gs ! (length gs - 1 - r))))"
proof -
  have len: "length gs - 1 - j < 2 ^ 32 - 1"
    using chain_nth [OF assms(3,4)] by (simp add: link_def)
  have "\<not> (of_nat (length gs - 1 - j) :: u32) < of_nat r" "(of_nat r :: u32) \<noteq> head_revision"
    using revision_numbers [OF len, of r] len assms(6) by auto
  moreover have "older_loop s (of_nat r) (newest (drop j gs)) = Some (Inr (fst (drop j gs ! (length (drop j gs) - 1 - r))))"
    by (rule older_loop_ok [OF assms(1,2) chain_drop [OF assms(3)]])
      (use assms in \<open>auto simp: newest_drop db_ok_def\<close>)
  moreover have "drop j gs ! (length (drop j gs) - 1 - r) = gs ! (length gs - 1 - r)"
    using assms(4,6) by simp
  ultimately show ?thesis
    unfolding older_revision_footer_pos_def footer_at(2) [OF assms(1-5)] assms(5) newest_drop [OF assms(4)] sum.case
    by (simp only: if_False)
qed

lemma revisionsD:
  assumes "revisions s gs"
  shows "db_ok s" "\<not> db_closed s" "gs \<noteq> []" "chain (db_memory s) gs" "h_footer_pos (db_header s) = newest gs"
    "unat (newest gs) + sizeof_trailer \<le> unat (file_size (db_storage s))" "unat (newest gs) + sizeof_trailer \<le> 2 ^ 38"
    "unat (db_logical_size s) \<le> unat (newest gs) + sizeof_trailer"
    "unat (newest gs + of_nat sizeof_trailer) = unat (newest gs) + sizeof_trailer" "leader_size \<le> newest gs"
proof -
  have "64 \<le> unat (newest gs)"
    using assms chain_newest(1) by (auto simp: revisions_def)
  then show "leader_size \<le> newest gs"
    by (simp add: leader_size_def word_le_nat_alt)
  show "unat (newest gs + of_nat sizeof_trailer) = unat (newest gs) + sizeof_trailer"
    using assms by (subst unat_plus_no_wrap) (simp_all add: revisions_def)
qed (use assms in \<open>simp_all add: revisions_def\<close>)

lemma revisions_at:
  assumes "revisions s gs"
  obtains j where "j < length gs" "db_footer_pos s = fst (gs ! j)" "get_current_revision s = Inr (of_nat (length gs - 1 - j))"
proof -
  obtain j where j: "j < length gs" "db_footer_pos s = fst (gs ! j)"
    using assms by (auto simp: revisions_def in_set_conv_nth image_iff)
  then show ?thesis
    using that footer_at(2) revisionsD [OF assms] by blast
qed

lemma trailer_below:
  assumes "revisions s gs" "i < length gs"
  shows "unat (fst (gs ! i)) + sizeof_trailer \<le> unat (newest gs) + sizeof_trailer" "leader_size \<le> fst (gs ! i)"
    "unat (fst (gs ! i) + of_nat sizeof_trailer) = unat (fst (gs ! i)) + sizeof_trailer"
proof -
  note rv = revisionsD [OF assms(1)]
  show b: "unat (fst (gs ! i)) + sizeof_trailer \<le> unat (newest gs) + sizeof_trailer"
    by (rule chain_below [OF rv(4) assms(2)])
  show "leader_size \<le> fst (gs ! i)"
    using link_leader [OF chain_nth [OF rv(4) assms(2)]] by (simp add: leader_size_def word_le_nat_alt)
  show "unat (fst (gs ! i) + of_nat sizeof_trailer) = unat (fst (gs ! i)) + sizeof_trailer"
    using b rv(7) by (subst unat_plus_no_wrap) simp_all
qed

definition mapped_size :: "'z database_scheme \<Rightarrow> nat" where
  "mapped_size s = unat (region_end (last (regions (db_storage s))))"

definition at_head :: "'z database_scheme \<Rightarrow> storage \<Rightarrow> (address \<times> trailer) list \<Rightarrow> 'z database_scheme" where
  "at_head s st gs = s\<lparr>db_storage := st, db_footer_pos := newest gs, db_logical_size := newest gs + of_nat sizeof_trailer\<rparr>"

lemma mapped_size_eq:
  "storage_ok (db_storage s) n \<Longrightarrow> regions (db_storage s) \<noteq> [] \<Longrightarrow> mapped_size s = n * 2 ^ 22"
  using mapped_segments_end [of 0 "regions (db_storage s)" n] by (simp add: storage_ok_def mapped_size_def)

lemma map_head:
  assumes rv: "revisions s gs"
  obtains st where "map_bytes (newest gs + of_nat sizeof_trailer) (db_storage s) = (Inr (), st)" "revisions (at_head s st gs) gs"
    "file_size st = (if mapped_size s < unat (newest gs) + sizeof_trailer
       then round_up (newest gs + of_nat sizeof_trailer) min_region_size else file_size (db_storage s))"
proof -
  note rvd = revisionsD [OF rv]
  obtain n where n: "storage_ok (db_storage s) n" "sat_clear_from (db_storage s) n" "regions (db_storage s) \<noteq> []"
    and fsz: "n * 2 ^ 22 \<le> unat (file_size (db_storage s))"
    using rvd(1) by (auto simp: db_ok_def)
  have "r_offset (last (regions (db_storage s))) \<le> newest gs + of_nat sizeof_trailer"
    using rvd(1,8,9) by (auto simp: db_ok_def word_le_nat_alt)
  then obtain st m where st: "map_bytes (newest gs + of_nat sizeof_trailer) (db_storage s) = (Inr (), st)"
    "storage_ok st m" "sat_clear_from st m" "unat (newest gs) + sizeof_trailer \<le> m * 2 ^ 22" "regions st \<noteq> []"
    "r_offset (last (regions st)) \<le> newest gs + of_nat sizeof_trailer"
    "file_size st = (if n * 2 ^ 22 < unat (newest gs) + sizeof_trailer
       then round_up (newest gs + of_nat sizeof_trailer) min_region_size else file_size (db_storage s))"
    "m * 2 ^ 22 \<le> unat (file_size st)"
    using map_bytes_no_smaller [OF n, of "newest gs + of_nat sizeof_trailer"] rvd(7,9) fsz by auto
  have "mapped_size s = n * 2 ^ 22"
    using n by (simp add: mapped_size_eq)
  moreover have "unat (newest gs) + sizeof_trailer \<le> unat (file_size st)"
    using st(7) rvd(6,7,9) round_up_nat_spec(1) [of "2 ^ 22" "unat (newest gs) + sizeof_trailer"]
    by (auto simp: unat_round_up)
  moreover have "db_ok (at_head s st gs)"
    using st(2-6,8) rvd(9,10) unfolding db_ok_def by (auto simp: at_head_def word_le_nat_alt)
  moreover have "newest gs \<in> fst ` set gs"
    using rvd(3) by (cases gs) (auto simp: newest_def split: prod.splits)
  ultimately have "revisions (at_head s st gs) gs"
    using rv rvd(9) by (simp add: revisions_def at_head_def db_header_def file_bytes_def)
  then show ?thesis
    using that st(1,7) \<open>mapped_size s = n * 2 ^ 22\<close> by simp
qed

lemma move_to_head_ok:
  assumes rv: "revisions s gs" and new: "\<not> (revision = head_revision \<and> newest gs = db_footer_pos s)"
    and st: "map_bytes (newest gs + of_nat sizeof_trailer) (db_storage s) = (Inr (), st)" "revisions (at_head s st gs) gs"
  shows "move_to_head revision s = (Inr (Some (newest gs)), at_head s st gs)"
proof -
  note rvd = revisionsD [OF rv]
  have "getro_typed 8 s 0 (of_nat sizeof_header) = Inr (file_bytes s 0 sizeof_header)"
    using getro_ok [OF rvd(1,2), of 0 "of_nat sizeof_header"] rvd(1)
    by (simp add: getro_typed_def sizeof_header_def db_ok_def sizeof_trailer_def leader_size_def)
  moreover have "\<not> file_size (db_storage s) < newest gs + of_nat sizeof_trailer"
    using rvd(6,9) by (simp add: word_less_nat_alt)
  moreover have "max (db_logical_size s) (newest gs + of_nat sizeof_trailer) = newest gs + of_nat sizeof_trailer"
    using rvd(8,9) by (simp add: max_def word_le_nat_alt)
  moreover have "trailer_validate (at_head s st gs) (newest gs) = Inr True"
  proof (cases gs)
    case (Cons g gs')
    then show ?thesis
      using revisionsD(1,2,4) [OF st(2)] validate_link [of "at_head s st gs" "fst g" "snd g"] rvd(9)
      by (cases g) (auto simp: at_head_def)
  qed (use rvd(3) in simp)
  ultimately show ?thesis
    using new rvd(5,10) st(1)
    by (auto simp: move_to_head_def run_simps Let_def db_header_def update_footer_pos_def at_head_def)
qed

text \<open>The end of a move: the cached indices go and the handle is at the trailer that was found.\<close>

definition settled :: "'z database_scheme \<Rightarrow> u64 set \<Rightarrow> address \<Rightarrow> 'z database_scheme" where
  "settled s A p = s\<lparr>heap := without A (heap s), db_indices := map (\<lambda>_. None) (db_indices s), db_footer_pos := p\<rparr>"

lemma settle_ok:
  fixes s s' :: "'z database_scheme"
  assumes rv: "revisions s' gs" and "i < length gs" and low: "unat (fst (gs ! i)) + sizeof_trailer \<le> unat (db_logical_size s')"
    and "cache_ok s (db_indices s) A" "later s s'" "heap s' = heap s" "db_indices s' = db_indices s"
  shows "sseq clear_index_cache (update_footer_pos (fst (gs ! i))) s' = (Inr (), settled s' A (fst (gs ! i)))"
    and "revisions (settled s' A (fst (gs ! i))) gs"
    and "get_current_revision (settled s' A (fst (gs ! i))) = Inr (of_nat (length gs - 1 - i))"
proof -
  note rvd = revisionsD [OF rv] and below = trailer_below [OF rv assms(2)]
  have "max (db_logical_size s') (fst (gs ! i) + of_nat sizeof_trailer) = db_logical_size s'"
    using low below(3) by (intro max_absorb1) (simp add: word_le_nat_alt)
  moreover have "clear_indices (db_indices s') s' = (Inr (), s'\<lparr>heap := without A (heap s')\<rparr>)"
    using clear_indices_ok [OF assms(4,5)] assms(6,7) by simp
  ultimately show "sseq clear_index_cache (update_footer_pos (fst (gs ! i))) s' = (Inr (), settled s' A (fst (gs ! i)))"
    using below(2) by (simp add: clear_index_cache_def run_simps update_footer_pos_def settled_def)
  have "db_ok (settled s' A (fst (gs ! i)))"
    using rvd(1) low below(2) unfolding db_ok_def by (auto simp: settled_def word_le_nat_alt)
  then show rv': "revisions (settled s' A (fst (gs ! i))) gs"
    using rv assms(2) by (auto simp: revisions_def settled_def db_header_def file_bytes_def)
  show "get_current_revision (settled s' A (fst (gs ! i))) = Inr (of_nat (length gs - 1 - i))"
    by (rule footer_at(2)) (use revisionsD [OF rv'] assms(2) in \<open>simp_all add: settled_def\<close>)
qed

definition moved :: "'z database_scheme \<Rightarrow> (address \<times> trailer) list \<Rightarrow> u64 set \<Rightarrow> nat \<Rightarrow> 'z database_scheme \<Rightarrow> bool" where
  "moved s gs A r s' \<longleftrightarrow> revisions s' gs \<and> get_current_revision s' = Inr (of_nat r) \<and> db_memory s' = db_memory s
     \<and> (if get_current_revision s = Inr (of_nat r) then s' = s
        else db_indices s' = map (\<lambda>_. None) (db_indices s) \<and> heap s' = without A (heap s))"

lemma later_at_head: "revisions s gs \<Longrightarrow> later s (at_head s st gs)"
  using revisionsD(8,9) by (fastforce simp: later_def at_head_def)

lemma head_footer:
  assumes "revisions s gs" "newest gs = db_footer_pos s"
  shows "get_current_revision s = Inr (of_nat (length gs - 1))"
  using footer_at(2) [of s gs 0] revisionsD [OF assms(1)] assms(2) newest_drop [of 0 gs] by simp

lemma sync_older:
  fixes s :: "'z database_scheme"
  assumes rv: "revisions s gs" and j: "j < length gs" "db_footer_pos s = fst (gs ! j)" and r: "r < length gs - 1 - j"
    and cache: "cache_ok s (db_indices s) A"
  shows "\<exists>s'. sync (of_nat r) s = Some (Inr (), s') \<and> moved s gs A r s'"
proof -
  note rvd = revisionsD [OF rv]
  define i where "i = length gs - 1 - r"
  have i: "i < length gs" "length gs - 1 - i = r"
    using r by (simp_all add: i_def)
  have len: "length gs - 1 - j < 2 ^ 32 - 1" "r < 2 ^ 32 - 1"
    using chain_nth [OF rvd(4) j(1)] r by (simp_all add: link_def)
  note num = revision_numbers [OF len]
  have pos: "db_footer_pos s \<noteq> 0"
    using link_leader [OF chain_nth [OF rvd(4) j(1)]] j(2) by auto
  have low: "unat (fst (gs ! i)) + sizeof_trailer \<le> unat (db_logical_size s)"
  proof -
    have "unat (fst (drop j gs ! (i - j))) + sizeof_trailer \<le> unat (newest (drop j gs)) + sizeof_trailer"
      by (rule chain_below [OF chain_drop [OF rvd(4)]]) (use r i in \<open>simp add: i_def\<close>)
    then show ?thesis
      using j rvd(1) r by (simp add: newest_drop db_ok_def i_def)
  qed
  have "sync (of_nat r) s = Some (Inr (), settled s A (fst (gs ! i)))"
    using footer_at(2) [OF rvd(1,2,4) j] num r pos older_revision_ok [OF rvd(1,2,4) j, of r]
      settle_ok(1) [OF rv i(1) low cache later_refl]
    by (simp add: sync_def rbind_def i_def)
  then show ?thesis
    using settle_ok(2,3) [OF rv i(1) low cache later_refl] footer_at(2) [OF rvd(1,2,4) j] num(2) r i(2)
    by (auto simp: moved_def settled_def)
qed

lemma at_head_frame [simp]:
  "heap (at_head s st gs) = heap s" "db_indices (at_head s st gs) = db_indices s" "db_memory (at_head s st gs) = db_memory s"
  "db_footer_pos (at_head s st gs) = newest gs" "db_logical_size (at_head s st gs) = newest gs + of_nat sizeof_trailer"
  "db_storage (at_head s st gs) = st"
  by (simp_all add: at_head_def)

lemma newest_nth: "gs \<noteq> [] \<Longrightarrow> newest gs = fst (gs ! 0)"
  using newest_drop [of 0 gs] by simp

lemma sync_newer:
  fixes s :: "'z database_scheme"
  assumes rv: "revisions s gs" and cur: "get_current_revision s = Inr (of_nat c)" "c < r" and r: "r < length gs"
    and cache: "cache_ok s (db_indices s) A"
  shows "\<exists>s'. sync (of_nat r) s = Some (Inr (), s') \<and> moved s gs A r s'"
proof -
  note rvd = revisionsD [OF rv]
  define i where "i = length gs - 1 - r"
  have i: "i < length gs" "length gs - 1 - i = r"
    using r by (simp_all add: i_def)
  have len: "c < 2 ^ 32 - 1" "r < 2 ^ 32 - 1"
    using cur(2) r chain_length [OF rvd(4)] by simp_all
  note num = revision_numbers [OF len]
  obtain st where st: "map_bytes (newest gs + of_nat sizeof_trailer) (db_storage s) = (Inr (), st)" "revisions (at_head s st gs) gs"
    using map_head [OF rv] by blast
  note hd = revisionsD [OF st(2)]
  have move: "move_to_head (of_nat r) s = (Inr (Some (newest gs)), at_head s st gs)"
    using num(3) by (intro move_to_head_ok [OF rv _ st]) simp
  have older: "older_revision_footer_pos (at_head s st gs) (of_nat r) = Some (Inr (fst (gs ! i)))"
    using older_revision_ok [OF hd(1,2,4), of 0 r] r rvd(3) newest_nth [OF rvd(3)] by (simp add: i_def)
  have low: "unat (fst (gs ! i)) + sizeof_trailer \<le> unat (db_logical_size (at_head s st gs))"
    using trailer_below(1) [OF rv i(1)] rvd(9) by simp
  note fin = settle_ok [OF st(2) i(1) low cache later_at_head [OF rv] at_head_frame(1,2)]
  have "sync (of_nat r) s = Some (Inr (), settled (at_head s st gs) A (fst (gs ! i)))"
    using cur num move older fin(1) by (simp add: sync_def rbind_def)
  then show ?thesis
    using fin(2,3) cur num(2) i(2) by (auto simp: moved_def settled_def)
qed

lemma sync_head_settled:
  fixes s :: "'z database_scheme"
  assumes rv: "revisions s gs" and cache: "cache_ok s (db_indices s) A" and new: "newest gs \<noteq> db_footer_pos s"
    and st: "map_bytes (newest gs + of_nat sizeof_trailer) (db_storage s) = (Inr (), st)" "revisions (at_head s st gs) gs"
  shows "sync head_revision s = Some (Inr (), settled (at_head s st gs) A (newest gs))"
    and "revisions (settled (at_head s st gs) A (newest gs)) gs"
    and "get_current_revision (settled (at_head s st gs) A (newest gs)) = Inr (of_nat (length gs - 1))"
proof -
  note rvd = revisionsD [OF rv]
  have "0 < length gs" "unat (fst (gs ! 0)) + sizeof_trailer \<le> unat (db_logical_size (at_head s st gs))"
    using rvd(3,9) newest_nth [OF rvd(3)] by simp_all
  note fin = settle_ok [OF st(2) this cache later_at_head [OF rv] at_head_frame(1,2), folded newest_nth [OF rvd(3)]]
  have "move_to_head head_revision s = (Inr (Some (newest gs)), at_head s st gs)"
    using new by (intro move_to_head_ok [OF rv _ st]) simp
  then show "sync head_revision s = Some (Inr (), settled (at_head s st gs) A (newest gs))"
    using fin(1) by (simp add: sync_def)
  show "revisions (settled (at_head s st gs) A (newest gs)) gs"
    "get_current_revision (settled (at_head s st gs) A (newest gs)) = Inr (of_nat (length gs - 1))"
    using fin(2,3) by simp_all
qed

lemma sync_head:
  fixes s :: "'z database_scheme"
  assumes rv: "revisions s gs" and cache: "cache_ok s (db_indices s) A"
  shows "\<exists>s'. sync head_revision s = Some (Inr (), s') \<and> moved s gs A (length gs - 1) s'"
proof (cases "newest gs = db_footer_pos s")
  case True
  note rvd = revisionsD [OF rv]
  have "getro_typed 8 s 0 (of_nat sizeof_header) = Inr (file_bytes s 0 sizeof_header)"
    using getro_ok [OF rvd(1,2), of 0 "of_nat sizeof_header"] rvd(1)
    by (simp add: getro_typed_def sizeof_header_def db_ok_def sizeof_trailer_def leader_size_def)
  then have "move_to_head head_revision s = (Inr None, s)"
    using True rvd(5) by (simp add: move_to_head_def run_simps Let_def db_header_def)
  then show ?thesis
    using head_footer [OF rv True] rv by (simp add: sync_def moved_def)
next
  case False
  note rvd = revisionsD [OF rv]
  obtain st where st: "map_bytes (newest gs + of_nat sizeof_trailer) (db_storage s) = (Inr (), st)" "revisions (at_head s st gs) gs"
    using map_head [OF rv] by blast
  obtain j where j: "j < length gs" "db_footer_pos s = fst (gs ! j)" "get_current_revision s = Inr (of_nat (length gs - 1 - j))"
    using revisions_at [OF rv] .
  have "j \<noteq> 0"
    using False j(2) newest_nth [OF rvd(3)] by (metis)
  then have other: "(of_nat (length gs - 1 - j) :: u32) \<noteq> of_nat (length gs - 1)"
    using revision_numbers(2) [of "length gs - 1" "length gs - 1 - j"] j(1) chain_length [OF rvd(4)] by auto
  note hd = sync_head_settled [OF rv cache False st]
  show ?thesis
    using hd j(3) other by (auto simp: moved_def settled_def)
qed

lemma sync_unknown:
  fixes s :: "'z database_scheme"
  assumes rv: "revisions s gs" and r: "length gs \<le> r" "r < 2 ^ 32 - 1"
  shows "\<exists>st. sync (of_nat r) s = Some (Inl (Raise unknown_revision), at_head s st gs) \<and> revisions (at_head s st gs) gs"
proof -
  note rvd = revisionsD [OF rv]
  obtain st where st: "map_bytes (newest gs + of_nat sizeof_trailer) (db_storage s) = (Inr (), st)" "revisions (at_head s st gs) gs"
    using map_head [OF rv] by blast
  obtain j where j: "j < length gs" "get_current_revision s = Inr (of_nat (length gs - 1 - j))"
    using revisions_at [OF rv] .
  note num = revision_numbers [of "length gs - 1 - j" r]
  have "move_to_head (of_nat r) s = (Inr (Some (newest gs)), at_head s st gs)"
    using num(3) r j(1) by (intro move_to_head_ok [OF rv _ st]) auto
  moreover have "older_revision_footer_pos (at_head s st gs) (of_nat r) = Some (Inl (Raise unknown_revision))"
    using head_footer [OF st(2)] revision_numbers(1) [of "length gs - 1" r] r j(1)
    by (auto simp: older_revision_footer_pos_def)
  ultimately show ?thesis
    using j num r st(2) by (auto simp: sync_def rbind_def)
qed

section \<open>Walking over the generations\<close>

lemma generation_walk_ok:
  assumes db: "db_ok s" "\<not> db_closed s"
  shows "chain (db_memory s) gs \<Longrightarrow> unat (newest gs) + sizeof_trailer \<le> unat (db_logical_size s)
    \<Longrightarrow> generation_walk s (newest gs) = Some (Inr (map fst gs))"
proof (induction gs)
  case Nil
  then show ?case
    by (subst generation_walk.simps) (simp add: generation_end_def generation_iterator_def trailer_validate_def rbind_def)
next
  case (Cons g gs)
  obtain p t where g: "g = (p, t)" by force
  have l: "link (db_memory s) p t (newest gs) (length gs)" and p: "unat p + sizeof_trailer \<le> unat (db_logical_size s)"
    using Cons.prems by (simp_all add: g)
  have t: "trailer_of_bytes (trailer_bytes t) = t" "t_prev_generation (t_a t) = newest gs" "p \<noteq> 0"
    using l link_leader [OF l] by (auto simp: link_def trailer_of_trailer_bytes)
  have below: "unat (newest gs) + sizeof_trailer \<le> unat (db_logical_size s)"
    using chain_below [OF Cons.prems(1), of 1] p by (cases gs) (auto simp: g)
  have "trailer_validate s (newest gs) = Inr True"
  proof (cases gs)
    case (Cons h gs')
    then show ?thesis
      using validate_link [OF db, of "fst h" "snd h"] below Cons.prems(1) Cons by (cases h) (auto simp: g)
  qed (simp add: trailer_validate_def)
  then have "generation_increment s p = Inr (newest gs)"
    using getro_link [OF db l p] t by (simp add: generation_increment_def generation_iterator_def rbind_def)
  moreover have "generation_walk s (newest gs) = Some (Inr (map fst gs))"
    using Cons.IH Cons.prems(1) below by (simp add: g)
  ultimately show ?case
    using t(3) by (subst generation_walk.simps)
      (simp add: g generation_end_def generation_iterator_def trailer_validate_def rbind_def)
qed

section \<open>Properties\<close>

text \<open>
  The state of the witnesses: a file of \<open>fsize\<close> bytes with two revisions, the second with its trailer at \<open>p\<close>, and a handle that is at
  the first one and has not seen the other.
\<close>

definition two_trailers :: "address \<Rightarrow> (address \<times> trailer) list" where
  "two_trailers p =
     [(p, commit_trailer (replicate 5 0) 1 (p - 64) 0 64), (64, commit_trailer (replicate 5 0) 0 104 0 0)]"

definition two_revisions :: "address \<Rightarrow> u64 \<Rightarrow> database" where
  "two_revisions p fsize =
     \<lparr>heap = Map.empty, db_storage = small_storage\<lparr>file_size := fsize\<rparr>,
      db_memory = overwrite (overwrite (overwrite (\<lambda>_. 0) 40 (le_bytes 8 p)) 64 (trailer_bytes (snd (two_trailers p ! 1))))
        (unat p) (trailer_bytes (snd (two_trailers p ! 0))),
      db_footer_pos = 64, db_logical_size = 168, db_closed = False, db_modified = False, db_read_only = [],
      db_page_size = 4096, db_indices = replicate 5 None\<rparr>"

lemma commit_trailer_ok:
  assumes "length locations = 5"
  shows "trailer_wf (commit_trailer locations g sz now prev)" "crc_is_valid (commit_trailer locations g sz now prev)"
    "signature_is_valid (commit_trailer locations g sz now prev)"
    "length (trailer_bytes (commit_trailer locations g sz now prev)) = sizeof_trailer"
    "t_generation (t_a (commit_trailer locations g sz now prev)) = g"
    "t_size (t_a (commit_trailer locations g sz now prev)) = sz - of_nat sizeof_trailer"
    "t_prev_generation (t_a (commit_trailer locations g sz now prev)) = prev"
    "t_index_records (t_a (commit_trailer locations g sz now prev)) = locations"
proof -
  show wf: "trailer_wf (commit_trailer locations g sz now prev)"
    using assms by (simp add: trailer_wf_def commit_trailer_def trailer_init_def Let_def default_signature1_def default_signature2_def)
  then show "length (trailer_bytes (commit_trailer locations g sz now prev)) = sizeof_trailer"
    by (rule length_trailer_bytes)
qed (simp_all add: commit_trailer_def trailer_init_def Let_def crc_is_valid_def signature_is_valid_def trailer_get_crc_def)

lemma overwrite_below: "q + n \<le> p \<Longrightarrow> map (overwrite m p bs) [q..<q + n] = map m [q..<q + n]"
  by (simp add: overwrite_def)

lemma two_trailers_chain:
  assumes "168 \<le> unat p" "8 dvd unat p"
  shows "chain (db_memory (two_revisions p fsize)) (two_trailers p)" "newest (two_trailers p) = p" "length (two_trailers p) = 2"
proof -
  let ?t1 = "commit_trailer (replicate 5 0) 1 (p - 64) 0 64" and ?t0 = "commit_trailer (replicate 5 0) 0 104 0 0"
  let ?m = "overwrite (overwrite (\<lambda>_. 0) 40 (le_bytes 8 p)) 64 (trailer_bytes ?t0)"
  have mem: "db_memory (two_revisions p fsize) = overwrite ?m (unat p) (trailer_bytes ?t1)"
    by (simp add: two_revisions_def two_trailers_def)
  have new: "map (overwrite ?m (unat p) (trailer_bytes ?t1)) [unat p..<unat p + sizeof_trailer] = trailer_bytes ?t1"
    using overwrite_same [of ?m "unat p" "trailer_bytes ?t1"] by (simp add: commit_trailer_ok)
  have "map (overwrite ?m (unat p) (trailer_bytes ?t1)) [64..<64 + sizeof_trailer] = map ?m [64..<64 + sizeof_trailer]"
    using assms(1) by (intro overwrite_below) (simp add: sizeof_trailer_def)
  moreover have "map ?m [64..<64 + sizeof_trailer] = trailer_bytes ?t0"
    using overwrite_same [of "overwrite (\<lambda>_. 0) 40 (le_bytes 8 p)" 64 "trailer_bytes ?t0"] by (simp add: commit_trailer_ok)
  ultimately have old: "map (overwrite ?m (unat p) (trailer_bytes ?t1)) [64..<64 + sizeof_trailer] = trailer_bytes ?t0"
    by simp
  have "unat (p - 64 - of_nat sizeof_trailer) = unat p - 168"
  proof -
    have "p - 64 - of_nat sizeof_trailer = p - 168" by (simp add: sizeof_trailer_def)
    then show ?thesis using assms(1) by (simp add: unat_diff_no_wrap word_le_nat_alt)
  qed
  then show "chain (db_memory (two_revisions p fsize)) (two_trailers p)"
    unfolding mem using new old assms
    by (simp add: two_trailers_def link_def commit_trailer_ok sizeof_trailer_def del: map_eq_conv)
qed (simp_all add: two_trailers_def)

lemma two_revisions_ok:
  assumes "168 \<le> unat p" "8 dvd unat p" "unat p + 104 \<le> 2 ^ 38" "unat p + 104 \<le> unat fsize" "2 ^ 22 \<le> unat fsize"
  shows "revisions (two_revisions p fsize) (two_trailers p)"
proof -
  let ?s = "two_revisions p fsize"
  have "db_ok ?s"
    unfolding db_ok_def using small_storage_ok assms(5)
    by (auto simp: two_revisions_def small_storage_def Let_def leader_size_def sizeof_trailer_def storage_ok_def sat_clear_from_def
        intro!: exI [of _ 1])
  moreover have "file_bytes ?s 0 sizeof_header = map (db_memory ?s) [0..<40] @ le_bytes 8 p"
  proof -
    have "map (db_memory ?s) [40..<40 + 8] = le_bytes 8 p"
      unfolding two_revisions_def database.simps
      using overwrite_same [of "\<lambda>_. 0" 40 "le_bytes 8 p"] assms(1)
        overwrite_below [of 40 8 64 "overwrite (\<lambda>_. 0) 40 (le_bytes 8 p)"] overwrite_below [of 40 8 "unat p"]
      by (simp del: map_eq_conv upt_rec_numeral)
    then show ?thesis
      using upt_add_eq_append [of 0 40 8] by (simp add: file_bytes_def sizeof_header_def)
  qed
  then have "h_footer_pos (db_header ?s) = p"
    by (simp add: db_header_def header_of_bytes_def)
  ultimately show ?thesis
    using two_trailers_chain(1) [OF assms(1,2), of fsize] two_trailers_chain(2,3) [OF assms(1,2)] assms
    by (simp add: revisions_def) (simp add: two_trailers_def two_revisions_def sizeof_trailer_def)
qed

text \<open>
  C0. A handle can be moved to every revision of the store, from any other and by number or as the head. The call returns without
  an error, the handle then is at that revision, no byte of the file has changed, and when the revision is not the
  one that the handle was at, the cached indices are gone and exactly their nodes are freed.
\<close>

theorem sync_reaches_every_revision:
  assumes "revisions s gs" and "cache_ok s (db_indices s) A"
    and "revision = of_nat r \<and> r < length gs \<or> revision = head_revision \<and> r = length gs - 1"
  shows "\<exists>s'. sync revision s = Some (Inr (), s') \<and> revisions s' gs \<and> get_current_revision s' = Inr (of_nat r)
    \<and> db_memory s' = db_memory s
    \<and> (if get_current_revision s = Inr (of_nat r) then s' = s
       else db_indices s' = map (\<lambda>_. None) (db_indices s) \<and> heap s' = without A (heap s))"
proof -
  have "\<exists>s'. sync revision s = Some (Inr (), s') \<and> moved s gs A r s'"
    using assms(3)
  proof
    assume r: "revision = of_nat r \<and> r < length gs"
    obtain j where j: "j < length gs" "db_footer_pos s = fst (gs ! j)" "get_current_revision s = Inr (of_nat (length gs - 1 - j))"
      using revisions_at [OF assms(1)] .
    consider "r < length gs - 1 - j" | "r = length gs - 1 - j" | "length gs - 1 - j < r"
      by linarith
    then show ?thesis
    proof cases
      case 1
      then show ?thesis using sync_older [OF assms(1) j(1,2) _ assms(2)] r by blast
    next
      case 2
      then have cur: "get_current_revision s = Inr (of_nat r)"
        using j(3) by simp
      moreover have "(of_nat r :: u32) \<noteq> head_revision"
        using r chain_length [OF revisionsD(4) [OF assms(1)]] by (intro revision_numbers(3) [of r]) simp_all
      ultimately have "sync revision s = Some (Inr (), s)"
        using r by (simp add: sync_def rbind_def)
      then show ?thesis using assms(1) cur by (auto simp: moved_def)
    next
      case 3
      then show ?thesis using sync_newer [OF assms(1) j(3) _ _ assms(2)] r by blast
    qed
  next
    assume "revision = head_revision \<and> r = length gs - 1"
    then show ?thesis using sync_head [OF assms(1,2)] by simp
  qed
  then show ?thesis
    by (auto simp: moved_def)
qed

theorem sync_reaches_every_revision_witness:
  "\<exists>s'. sync head_revision (two_revisions 168 0x400000) = Some (Inr (), s') \<and> get_current_revision s' = Inr 1"
proof -
  have "cache_ok (two_revisions 168 0x400000) (db_indices (two_revisions 168 0x400000)) {}"
    by (simp add: two_revisions_def)
  moreover have "revisions (two_revisions 168 0x400000) (two_trailers 168)"
    by (rule two_revisions_ok) simp_all
  ultimately show ?thesis
    using sync_reaches_every_revision [of "two_revisions 168 0x400000" "two_trailers 168" "{}" head_revision 1]
    by (auto simp: two_trailers_def)
qed

text \<open>
  C0. A request for a revision that the store does not have is refused, but the handle does not stay where it was: it is
  moved to the head, and it keeps the cached indices of the revision that it has left.
\<close>

theorem sync_unknown_revision_moves_handle:
  assumes "revisions s gs" and "length gs \<le> r" and "r < 2 ^ 32 - 1"
  shows "\<exists>s'. sync (of_nat r) s = Some (Inl (Raise unknown_revision), s')
    \<and> get_current_revision s' = Inr (of_nat (length gs - 1)) \<and> db_indices s' = db_indices s \<and> db_memory s' = db_memory s"
proof -
  obtain st where st: "sync (of_nat r) s = Some (Inl (Raise unknown_revision), at_head s st gs)" "revisions (at_head s st gs) gs"
    using sync_unknown [OF assms] by blast
  have "get_current_revision (at_head s st gs) = Inr (of_nat (length gs - 1))"
    by (rule head_footer [OF st(2)]) simp
  then show ?thesis
    using st(1) by (intro exI [of _ "at_head s st gs"]) simp
qed

theorem sync_unknown_revision_moves_handle_witness:
  "get_current_revision (two_revisions 168 0x400000) = Inr 0
   \<and> (\<exists>s'. sync 7 (two_revisions 168 0x400000) = Some (Inl (Raise unknown_revision), s') \<and> get_current_revision s' = Inr 1)"
proof
  have rv: "revisions (two_revisions 168 0x400000) (two_trailers 168)"
    by (rule two_revisions_ok) simp_all
  show "get_current_revision (two_revisions 168 0x400000) = Inr 0"
    using footer_at(2) [of "two_revisions 168 0x400000" "two_trailers 168" 1] revisionsD [OF rv]
    by (simp add: two_trailers_def two_revisions_def)
  show "\<exists>s'. sync 7 (two_revisions 168 0x400000) = Some (Inl (Raise unknown_revision), s') \<and> get_current_revision s' = Inr 1"
    using sync_unknown_revision_moves_handle [OF rv, of 7] by (auto simp: two_trailers_def)
qed

text \<open>
  C0. When a handle moves to a head that it has not mapped yet, the file is cut to the end of the head's trailer, rounded up to
  the granule of mappings, whatever else was in it: the space that an open transaction of another handle has added is lost.
\<close>

theorem sync_truncates_file:
  assumes "revisions s gs" and "cache_ok s (db_indices s) A" and "mapped_size s < unat (newest gs) + sizeof_trailer"
    and "newest gs \<noteq> db_footer_pos s"
  shows "\<exists>s'. sync head_revision s = Some (Inr (), s')
    \<and> unat (file_size (db_storage s')) = round_up_nat (unat (newest gs) + sizeof_trailer) (2 ^ 22)"
proof -
  note rvd = revisionsD [OF assms(1)]
  obtain st where st: "map_bytes (newest gs + of_nat sizeof_trailer) (db_storage s) = (Inr (), st)" "revisions (at_head s st gs) gs"
    and fs: "file_size st = round_up (newest gs + of_nat sizeof_trailer) min_region_size"
    using map_head [OF assms(1)] assms(3) by (metis (full_types))
  have "sync head_revision s = Some (Inr (), settled (at_head s st gs) A (newest gs))"
    by (rule sync_head_settled [OF assms(1,2,4) st])
  then show ?thesis
    using fs rvd(7,9) by (auto simp: settled_def unat_round_up)
qed

theorem sync_truncates_file_witness:
  "\<exists>s'. sync head_revision (two_revisions 0x500000 0x4000000) = Some (Inr (), s') \<and> unat (file_size (db_storage s')) = 0x800000"
proof -
  let ?s = "two_revisions 0x500000 0x4000000"
  have rv: "revisions ?s (two_trailers 0x500000)"
    by (rule two_revisions_ok) simp_all
  have cache: "cache_ok ?s (db_indices ?s) {}"
    by (simp add: two_revisions_def)
  have "newest (two_trailers 0x500000) = 0x500000" "mapped_size ?s = 0x400000" "db_footer_pos ?s = 64"
    by (simp_all add: two_trailers_def mapped_size_def two_revisions_def small_storage_def Let_def region_end_def)
  then show ?thesis
    using sync_truncates_file [OF rv cache] by (simp add: sizeof_trailer_def round_up_nat_def)
qed

text \<open>
  C0. A loop over the generations ends without an error and visits the trailers from that of the handle's revision back to that of
  the first, in this order.
\<close>

theorem generations_visits_revisions:
  assumes "revisions s gs" and "get_current_revision s = Inr (of_nat r)" and "r < length gs"
  shows "\<exists>it. generation_begin s = Inr it \<and> generation_walk s it = Some (Inr (map fst (drop (length gs - 1 - r) gs)))"
proof -
  note rvd = revisionsD [OF assms(1)]
  obtain j where j: "j < length gs" "db_footer_pos s = fst (gs ! j)" "get_current_revision s = Inr (of_nat (length gs - 1 - j))"
    using revisions_at [OF assms(1)] .
  have "length gs - 1 - j < 2 ^ 32 - 1" "r < 2 ^ 32 - 1"
    using chain_length [OF rvd(4)] assms(3) j(1) by simp_all
  then have "r = length gs - 1 - j"
    using revision_numbers(2) assms(2) j(3) by simp
  then have eq: "length gs - 1 - r = j"
    using j(1) by simp
  have fit: "unat (newest (drop j gs)) + sizeof_trailer \<le> unat (db_logical_size s)"
    using rvd(1) j by (simp add: db_ok_def newest_drop)
  then have "trailer_validate s (db_footer_pos s) = Inr True"
    using validate_link [OF rvd(1,2) chain_nth [OF rvd(4) j(1)]] j by (simp add: newest_drop)
  moreover have "generation_walk s (db_footer_pos s) = Some (Inr (map fst (drop j gs)))"
    using generation_walk_ok [OF rvd(1,2) chain_drop [OF rvd(4)] fit] j by (simp add: newest_drop)
  ultimately show ?thesis
    unfolding eq by (simp add: generation_begin_def generation_iterator_def rbind_def)
qed

theorem generations_visits_revisions_witness:
  "\<exists>it. generation_begin (two_revisions 168 0x400000) = Inr it \<and> generation_walk (two_revisions 168 0x400000) it = Some (Inr [64])"
proof -
  have rv: "revisions (two_revisions 168 0x400000) (two_trailers 168)"
    by (rule two_revisions_ok) simp_all
  have "get_current_revision (two_revisions 168 0x400000) = Inr (of_nat 0)"
    using footer_at(2) [of "two_revisions 168 0x400000" "two_trailers 168" 1] revisionsD [OF rv]
    by (simp add: two_trailers_def two_revisions_def)
  then show ?thesis
    using generations_visits_revisions [OF rv, of 0] by (simp add: two_trailers_def)
qed

end
