(* ===== verification/Base32.thy ===== *)
theory Base32
  imports Uint128
begin

unbundle bit_operations_syntax

text \<open>
  The base-32 form of integers (\<^verbatim>\<open>lib/core/base32.hpp\<close>, \<^verbatim>\<open>lib/core/base32.cpp\<close>), lowest digit first. The
  overload for a 128-bit integer works on its two words; the lemmas compare it with the one for the
  built-in types, which a native 128-bit type would use.
\<close>

lemma unat_drop_bit: "unat (drop_bit n w) = unat w div 2 ^ n" for w :: "'a::len word"
  by (simp only: unat_drop_bit_eq drop_bit_eq_div [where 'a = nat])

lemma drop_bit_smaller:
  fixes w :: "'a::len word"
  assumes "drop_bit n w \<noteq> 0" and "0 < n"
  shows "unat (drop_bit n w) < unat w"
proof -
  have "unat w div 2 ^ n \<noteq> 0"
    using assms(1) by (metis unat_drop_bit unat_eq_zero)
  then have "0 < unat w" by (metis div_0 gr0I)
  then show ?thesis
    unfolding unat_drop_bit using one_less_power [of "2 :: nat" n] assms(2) by (intro div_less_dividend) simp_all
qed

section \<open>Model\<close>

definition alphabet :: string where
  "alphabet = ''abcdefghijklmnopqrstuvwxyz234567''"

text \<open>The loop for a built-in type.\<close>

function convert_word :: "'a::len word \<Rightarrow> string" where
  "convert_word val =
     (let digit = alphabet ! unat (val AND mask 5); val = drop_bit 5 val in
      if val \<noteq> 0 then digit # convert_word val else [digit])"
  by pat_completeness auto
termination
  by (relation "measure unat") (simp_all add: drop_bit_smaller)

text \<open>The loop for the two words of a 128-bit integer.\<close>

function convert_loop :: "u64 \<Rightarrow> u64 \<Rightarrow> string" where
  "convert_loop high low =
     (let digit = alphabet ! unat (low AND mask 5);
          low = drop_bit 5 low OR push_bit (64 - 5) (high AND mask 5);
          high = drop_bit 5 high
      in if low OR high \<noteq> 0 then digit # convert_loop high low else [digit])"
  by pat_completeness auto
termination
proof (relation "measure (\<lambda>(high, low). unat (whole (u128 high low)))", simp)
  fix high low digit low' high'
  assume low': "low' = drop_bit 5 low OR push_bit (64 - 5) (high AND mask 5)" and high': "high' = drop_bit 5 high"
    and ne: "low' OR high' \<noteq> (0 :: u64)"
  have w: "whole (u128 high' low') = drop_bit 5 (whole (u128 high low))"
    using whole_shr [of 5 "u128 high low"]
    by (simp add: u128_shr_def rbind_def rassert_def low' high' mask_eq_exp_minus_1)
  have "u128 high' low' \<noteq> u128 0 0"
    using ne by auto
  then have "whole (u128 high' low') \<noteq> 0"
    using whole_inj [of "u128 high' low'" "u128 0 0"] by (simp add: whole_one)
  then show "((high', low'), (high, low)) \<in> measure (\<lambda>(high, low). unat (whole (u128 high low)))"
    using drop_bit_smaller [of 5 "whole (u128 high low)"] by (simp add: w)
qed

declare convert_word.simps [simp del] convert_loop.simps [simp del]

definition convert_wide :: "uint128 \<Rightarrow> string" where
  "convert_wide wide = convert_loop (high_word wide) (low_word wide)"

section \<open>The value of a base-32 form\<close>

definition digit_value :: "char \<Rightarrow> nat" where
  "digit_value c = length (takeWhile (\<lambda>d. d \<noteq> c) alphabet)"

fun base32_value :: "string \<Rightarrow> nat" where
  "base32_value [] = 0"
| "base32_value (c # cs) = digit_value c + 32 * base32_value cs"

lemma digit_value_alphabet: "n < 32 \<Longrightarrow> digit_value (alphabet ! n) = n"
  by (rule bounded_check [where k = 32]) code_simp

lemma unat_mask_5: "unat (w AND mask 5) = unat w mod 32" for w :: "'a::len word"
  by (simp only: take_bit_eq_mask [symmetric] unsigned_take_bit_eq) (simp add: take_bit_eq_mod)

lemma base32_value_convert: "base32_value (convert_word w) = unat w"
proof (induction w rule: convert_word.induct)
  case (1 w)
  have "unat w = unat w mod 32 + 32 * unat (drop_bit 5 w)"
    by (simp add: unat_drop_bit)
  then show ?case
    using 1 by (subst convert_word.simps) (auto simp: Let_def unat_mask_5 digit_value_alphabet)
qed

lemma length_convert: "unat w < 32 ^ Suc n \<Longrightarrow> length (convert_word w) \<le> Suc n"
proof (induction w arbitrary: n rule: convert_word.induct)
  case (1 w)
  show ?case
  proof (cases "drop_bit 5 w = 0")
    case True
    then show ?thesis by (subst convert_word.simps) simp
  next
    case False
    then have "unat (drop_bit 5 w) \<noteq> 0"
      by (simp only: unat_eq_zero not_False_eq_True)
    then have "unat w div 32 \<noteq> 0"
      by (simp add: unat_drop_bit)
    then obtain m where m: "n = Suc m"
      using 1(2) by (cases n) auto
    have "unat (drop_bit 5 w) < 32 ^ Suc m"
      using 1(2) by (simp add: unat_drop_bit m div_less_iff_less_mult)
    then show ?thesis
      using 1(1) [OF refl refl False] False by (subst convert_word.simps) (simp add: m)
  qed
qed

text \<open>One turn of the loop over two words is one of the loop over the whole.\<close>

lemma wide_step:
  "whole (u128 (drop_bit 5 h) (drop_bit 5 l OR push_bit (64 - 5) (h AND mask 5))) = drop_bit 5 (whole (u128 h l))"
  using whole_shr [of 5 "u128 h l"] by (simp add: u128_shr_def rbind_def rassert_def mask_eq_exp_minus_1)

lemma low_digit: "unat (l AND mask 5) = unat (whole (u128 h l) AND mask 5)"
proof -
  have "unat (whole (u128 h l)) = unat l + 32 * (2 ^ 59 * unat h)"
    by (simp add: unat_whole)
  then show ?thesis
    by (simp only: unat_mask_5 mod_mult_self2)
qed

lemma convert_loop_whole: "convert_loop h l = convert_word (whole (u128 h l))"
proof (induction h l rule: convert_loop.induct)
  case (1 h l)
  let ?l = "drop_bit 5 l OR push_bit (64 - 5) (h AND mask 5)" and ?h = "drop_bit 5 h"
  have "?l OR ?h \<noteq> 0 \<longleftrightarrow> u128 ?h ?l \<noteq> u128 0 0"
    by (auto simp: or_eq_0_iff)
  also have "\<dots> \<longleftrightarrow> drop_bit 5 (whole (u128 h l)) \<noteq> 0"
    using whole_inj [of "u128 ?h ?l" "u128 0 0"] by (simp only: whole_one wide_step)
  finally have z: "?l OR ?h \<noteq> 0 \<longleftrightarrow> drop_bit 5 (whole (u128 h l)) \<noteq> 0" .
  have rest: "convert_loop ?h ?l = convert_word (drop_bit 5 (whole (u128 h l)))" if "?l OR ?h \<noteq> 0"
    using 1 [OF refl refl refl that] by (simp only: wide_step)
  show ?case
    unfolding convert_loop.simps [of h l] convert_word.simps [of "whole (u128 h l)"] Let_def low_digit [of l h] z
    by (rule if_cong [OF refl arg_cong refl], rule rest) (simp only: z not_False_eq_True)
qed

section \<open>Properties\<close>

text \<open>
  C29. The base-32 form of a 128-bit integer, computed on its two words, is that of the integer as a whole; it
  has one to 26 digits of the alphabet, and their value is the integer. So different integers have different forms.
\<close>

theorem base32_wide:
  "convert_wide w = convert_word (whole w) \<and> length (convert_wide w) \<in> {1..26}
   \<and> base32_value (convert_wide w) = unat (whole w)"
proof -
  have eq: "convert_wide w = convert_word (whole w)"
    by (cases w) (simp add: convert_wide_def convert_loop_whole)
  have "unat (whole w) < 2 ^ 128"
    using unsigned_less [of "whole w", where 'a = nat] by simp
  also have "(2 :: nat) ^ 128 \<le> 32 ^ Suc 25"
    by simp
  finally have "length (convert_word (whole w)) \<le> 26"
    using length_convert [of "whole w" 25] by simp
  moreover have "convert_word (whole w) \<noteq> []"
    by (subst convert_word.simps) (simp add: Let_def)
  ultimately show ?thesis
    by (simp add: eq base32_value_convert Suc_le_eq)
qed

end
