(* ===== verification/Uuid.thy ===== *)
theory Uuid
  imports Uint128
begin

unbundle bit_operations_syntax

text \<open>
  Universally unique identifiers (\<^verbatim>\<open>include/pstore/core/uuid.hpp\<close>, \<^verbatim>\<open>lib/core/uuid.cpp\<close>): their 16 bytes, their
  variant and version, and their textual form with its parser. The random bytes from which a new one is made,
  and the contents of the uninitialised array that the parser fills, are arguments.
\<close>

section \<open>Model\<close>

datatype variant_type = ncs | rfc_4122 | microsoft | future

datatype version_type = time_based | dce_security | name_based_md5 | random_number_based | name_based_sha1 | unknown

definition version_octet :: nat where "version_octet = 6"
definition variant_octet :: nat where "variant_octet = 8"
definition string_length :: nat where "string_length = 16 * 2 + 4"

definition variant :: "u8 list \<Rightarrow> exn + variant_type" where
  "variant data =
     (let octet = data ! variant_octet in
      if octet AND 0x80 = 0 then Inr ncs
      else if octet AND 0xC0 = 0x80 then Inr rfc_4122
      else if octet AND 0xE0 = 0xC0 then Inr microsoft
      else rbind (rassert (octet AND 0xE0 = 0xE0)) (\<lambda>_. Inr future))"

definition version :: "u8 list \<Rightarrow> version_type" where
  "version data =
     (let w = data ! version_octet AND 0xF0 in
      if w = 0x10 then time_based else if w = 0x20 then dce_security else if w = 0x30 then name_based_md5
      else if w = 0x40 then random_number_based else if w = 0x50 then name_based_sha1 else unknown)"

definition is_null :: "u8 list \<Rightarrow> bool" where
  "is_null data \<longleftrightarrow> list_all (\<lambda>v. v = 0) data"

text \<open>A new identifier from random bytes.\<close>

definition new_uuid :: "u8 list \<Rightarrow> exn + u8 list" where
  "new_uuid random =
     (let data = random;
          data = data[variant_octet := data ! variant_octet AND 0xBF];
          data = data[variant_octet := data ! variant_octet OR 0x80];
          data = data[version_octet := data ! version_octet AND 0x4F];
          data = data[version_octet := data ! version_octet OR push_bit 4 4]
      in rbind (variant data) (\<lambda>v.
         rbind (rassert (v = rfc_4122)) (\<lambda>_.
         rbind (rassert (version data = random_number_based)) (\<lambda>_. Inr data))))"

text \<open>The textual form.\<close>

fun str_loop :: "nat \<Rightarrow> u8 list \<Rightarrow> exn + string" where
  "str_loop index [] = Inr []"
| "str_loop index (c # cs) =
     rbind (digit_to_hex (unat (drop_bit 4 c AND 0x0F))) (\<lambda>h.
     rbind (digit_to_hex (unat (c AND 0x0F))) (\<lambda>l.
     rbind (str_loop (index + 1) cs) (\<lambda>rest.
     Inr ((if index = 4 \<or> index = 6 \<or> index = 8 \<or> index = 10 then ''-'' else []) @ h # l # rest))))"

definition str :: "u8 list \<Rightarrow> exn + string" where
  "str data =
     rbind (str_loop 0 data) (\<lambda>resl.
     rbind (rassert (length resl = string_length)) (\<lambda>_. Inr resl))"

text \<open>The class \<^verbatim>\<open>hex_decoder\<close>: the array, the position of its output iterator and the next nibble.\<close>

record hex_decoder =
  hd_data :: "u8 list"
  hd_out :: nat
  is_high :: bool

definition hex_append :: "hex_decoder \<Rightarrow> nat \<Rightarrow> exn + hex_decoder" where
  "hex_append d value =
     rbind (rassert (value < 16)) (\<lambda>_.
     if length (hd_data d) \<le> hd_out d then Inl Undefined
     else
       let d = (if is_high d
                then d\<lparr>hd_data := (hd_data d)[hd_out d := of_nat (value * 16)]\<rparr>
                else d\<lparr>hd_data := (hd_data d)[hd_out d := hd_data d ! hd_out d OR of_nat value],
                       hd_out := hd_out d + 1\<rparr>)
       in Inr (d\<lparr>is_high := \<not> is_high d\<rparr>))"

definition hex_value :: "char \<Rightarrow> nat option" where
  "hex_value digit =
     (let c = of_char digit :: nat in
      if of_char (CHR ''a'') \<le> c \<and> c \<le> of_char (CHR ''f'') then Some (c - (of_char (CHR ''a'') - 10))
      else if of_char (CHR ''A'') \<le> c \<and> c \<le> of_char (CHR ''F'') then Some (c - (of_char (CHR ''A'') - 10))
      else if of_char (CHR ''0'') \<le> c \<and> c \<le> of_char (CHR ''9'') then Some (c - of_char (CHR ''0''))
      else None)"

definition hyphen_place :: "nat \<Rightarrow> bool" where
  "hyphen_place count \<longleftrightarrow> count \<in> {8, 13, 18, 23}"

fun parse_loop :: "string \<Rightarrow> nat \<Rightarrow> hex_decoder \<Rightarrow> exn + hex_decoder option" where
  "parse_loop [] count out = Inr (Some out)"
| "parse_loop (digit # rest) count out =
     (if hyphen_place count
      then if digit \<noteq> CHR ''-'' then Inr None
           else rbind (rassert (is_high out)) (\<lambda>_. parse_loop rest (count + 1) out)
      else case hex_value digit of
             None \<Rightarrow> Inr None
           | Some v \<Rightarrow> rbind (hex_append out v) (parse_loop rest (count + 1)))"

definition from_string :: "u8 list \<Rightarrow> string \<Rightarrow> exn + u8 list option" where
  "from_string data s =
     (if length s \<noteq> string_length then Inr None
      else rbind (parse_loop s 0 \<lparr>hd_data = data, hd_out = 0, is_high = True\<rparr>) (\<lambda>r.
           Inr (map_option hd_data r)))"

definition uuid_of_string :: "u8 list \<Rightarrow> string \<Rightarrow> exn + u8 list" where
  "uuid_of_string data s =
     rbind (from_string data s) (\<lambda>d. case d of None \<Rightarrow> Inl (Raise uuid_parse_error) | Some d \<Rightarrow> Inr d)"

section \<open>What the parser accepts\<close>

text \<open>The digits of a string with hyphens at four places, and the bytes that they denote.\<close>

fun hex_values :: "nat \<Rightarrow> string \<Rightarrow> nat list option" where
  "hex_values c [] = Some []"
| "hex_values c (d # ds) =
     (if hyphen_place c then if d = CHR ''-'' then hex_values (c + 1) ds else None
      else case hex_value d of None \<Rightarrow> None | Some v \<Rightarrow> map_option (Cons v) (hex_values (c + 1) ds))"

fun pair_bytes :: "nat list \<Rightarrow> u8 list" where
  "pair_bytes (a # b # vs) = of_nat (16 * a + b) # pair_bytes vs"
| "pair_bytes _ = []"

lemma pair_bytes_snoc:
  "pair_bytes (vs @ [v]) = (if even (length vs) then pair_bytes vs else pair_bytes vs @ [of_nat (16 * last vs + v)])"
  by (induction vs rule: pair_bytes.induct) auto

lemma length_pair_bytes: "length (pair_bytes vs) = length vs div 2"
  by (induction vs rule: pair_bytes.induct) auto

lemma hex_value_less: "hex_value c = Some v \<Longrightarrow> v < 16"
  by (auto simp: hex_value_def Let_def split: if_splits)

lemma or_nibbles: "b < 16 \<Longrightarrow> (of_nat (a * 16) OR of_nat b :: u8) = of_nat (16 * a + b)"
proof -
  assume "b < 16"
  then have b: "b = take_bit 4 b"
    by (simp add: take_bit_nat_eq_self)
  have "push_bit 4 a + b = (push_bit 4 a OR b)"
    by (subst (1 2) b, rule disjunctive_add) (auto simp: bit_simps)
  then have "(a * 16 OR b) = 16 * a + b"
    by (simp add: push_bit_eq_mult ac_simps)
  then show ?thesis
    by (simp only: of_nat_or_eq [symmetric])
qed

text \<open>The state of the decoder after the digits \<open>vs\<close>.\<close>

definition decoded :: "hex_decoder \<Rightarrow> nat list \<Rightarrow> bool" where
  "decoded d vs \<longleftrightarrow> length (hd_data d) = 16 \<and> hd_out d = length vs div 2 \<and> is_high d = even (length vs)
     \<and> take (length vs div 2) (hd_data d) = pair_bytes vs \<and> (\<forall>v \<in> set vs. v < 16)
     \<and> (odd (length vs) \<longrightarrow> hd_data d ! (length vs div 2) = of_nat (last vs * 16))"

lemma hex_append_ok:
  assumes d: "decoded d vs" and len: "length vs < 32" and v: "v < 16"
  shows "\<exists>d'. hex_append d v = Inr d' \<and> decoded d' (vs @ [v])"
proof -
  have p: "length vs div 2 < 16"
    using len by simp
  show ?thesis
  proof (cases "even (length vs)")
    case True
    then have "Suc (length vs) div 2 = length vs div 2"
      by simp
    then show ?thesis
      using True d v p by (auto simp: hex_append_def decoded_def rbind_def rassert_def pair_bytes_snoc)
  next
    case False
    then have e: "Suc (length vs) div 2 = Suc (length vs div 2)" "vs \<noteq> []"
      by auto
    then have "last vs < 16"
      using d by (simp add: decoded_def)
    then have "hd_data d ! (length vs div 2) OR of_nat v = of_nat (16 * last vs + v)"
      using d False or_nibbles [of v "last vs"] v by (simp add: decoded_def)
    then show ?thesis
      using False d v p e
      by (auto simp: hex_append_def decoded_def rbind_def rassert_def pair_bytes_snoc take_Suc_conv_app_nth)
  qed
qed

text \<open>How many digits precede a place.\<close>

definition digits_before :: "nat \<Rightarrow> nat" where
  "digits_before c = c - length (filter (\<lambda>i. i < c) [8, 13, 18, 23])"

lemma digits_before_step:
  "c < 36 \<Longrightarrow> if hyphen_place c then digits_before (Suc c) = digits_before c \<and> even (digits_before c)
    else digits_before (Suc c) = Suc (digits_before c) \<and> digits_before c < 32"
  by (rule bounded_check [where k = 36 and n = c]) code_simp

lemma parse_loop_ok:
  assumes "decoded d vs" and "length vs = digits_before c" and "c + length s = 36"
  shows "case hex_values c s of
      None \<Rightarrow> parse_loop s c d = Inr None
    | Some ws \<Rightarrow> \<exists>d'. parse_loop s c d = Inr (Some d') \<and> decoded d' (vs @ ws) \<and> length (vs @ ws) = 32"
  using assms
proof (induction s arbitrary: c d vs)
  case Nil
  then show ?case by (simp add: digits_before_def)
next
  case (Cons x s)
  show ?case
  proof (cases "hyphen_place c")
    case True
    then have "is_high d" "length vs = digits_before (Suc c)"
      using Cons.prems digits_before_step [of c] by (simp_all add: decoded_def)
    then show ?thesis
      using Cons.IH [of d vs "Suc c"] Cons.prems True by (simp add: rbind_def rassert_def split: option.splits)
  next
    case False
    then have c: "digits_before (Suc c) = Suc (digits_before c)" "digits_before c < 32"
      using Cons.prems(3) digits_before_step [of c] by simp_all
    show ?thesis
    proof (cases "hex_value x")
      case None
      then show ?thesis using False by simp
    next
      case (Some v)
      then obtain d' where d': "hex_append d v = Inr d'" "decoded d' (vs @ [v])"
        using hex_append_ok [OF Cons.prems(1), of v] hex_value_less c Cons.prems(2) by auto
      then show ?thesis
        using Cons.IH [OF d'(2), of "Suc c"] Cons.prems(2,3) c False Some
        by (auto simp: rbind_def split: option.splits)
    qed
  qed
qed

lemma from_string_ok:
  assumes "length data = 16"
  shows "from_string data s =
    Inr (if length s = 36 then map_option pair_bytes (hex_values 0 s) else None)"
proof (cases "length s = 36")
  case True
  have "decoded \<lparr>hd_data = data, hd_out = 0, is_high = True\<rparr> []"
    using assms by (simp add: decoded_def)
  from parse_loop_ok [OF this, of 0 s] True
  show ?thesis
    by (auto simp: from_string_def string_length_def digits_before_def rbind_def decoded_def split: option.splits)
next
  case False
  then show ?thesis by (simp add: from_string_def string_length_def)
qed

section \<open>Properties\<close>



lemma hex_value_digit: "n < 16 \<Longrightarrow> hex_value (''0123456789abcdef'' ! n) = Some n"
  by (rule bounded_check [where k = 16 and n = n]) (simp_all add: upt_rec hex_value_def)

lemma byte_nibbles:
  fixes c :: u8
  shows "unat (c AND 0x0F) = unat c mod 16" and "unat (drop_bit 4 c) mod 16 = unat c div 16"
proof -
  have "(0x0F :: u8) = mask 4"
    by (simp add: mask_eq_exp_minus_1)
  then have m: "unat (w AND 0x0F :: u8) = unat w mod 16" for w
    by (simp only: take_bit_eq_mask [symmetric] unsigned_take_bit_eq) (simp add: take_bit_eq_mod)
  have "unat c < 256"
    using unsigned_less [of c, where 'a = nat] by simp
  then show "unat (c AND 0x0F) = unat c mod 16" "unat (drop_bit 4 c) mod 16 = unat c div 16"
    by (simp_all only: m unat_drop_bit_eq drop_bit_eq_div [where 'a = nat]) simp_all
qed

definition byte_digits :: "u8 \<Rightarrow> string" where
  "byte_digits c = [''0123456789abcdef'' ! (unat c div 16), ''0123456789abcdef'' ! (unat c mod 16)]"

lemma str_loop_ok:
  "str_loop i cs = Inr (concat (map (\<lambda>(j, c). (if j = 4 \<or> j = 6 \<or> j = 8 \<or> j = 10 then ''-'' else []) @ byte_digits c)
     (enumerate i cs)))"
proof (induction cs arbitrary: i)
  case (Cons c cs)
  have "unat c < 256"
    using unsigned_less [of c, where 'a = nat] by simp
  then show ?case
    using Cons by (simp add: byte_nibbles digit_to_hex_ok rbind_def byte_digits_def)
qed simp

text \<open>
  C31. The textual form of an identifier has 36 characters, printing it asserts nothing, and parsing it gives the
  identifier back.
\<close>

theorem uuid_round_trip:
  assumes "length u = 16" and "length data = 16"
  shows "\<exists>s. str u = Inr s \<and> length s = 36 \<and> from_string data s = Inr (Some u)"
proof -
  obtain b0 b1 b2 b3 b4 b5 b6 b7 b8 b9 b10 b11 b12 b13 b14 b15
    where u: "u = [b0, b1, b2, b3, b4, b5, b6, b7, b8, b9, b10, b11, b12, b13, b14, b15]"
    using assms(1) by (auto simp: eval_nat_numeral length_Suc_conv)
  have n: "unat c div 16 < 16" "unat c mod 16 < 16" "of_nat (16 * (unat c div 16) + unat c mod 16) = c" for c :: u8
    using unsigned_less [of c, where 'a = nat] by simp_all
  define s where "s = byte_digits b0 @ byte_digits b1 @ byte_digits b2 @ byte_digits b3 @ ''-''
      @ byte_digits b4 @ byte_digits b5 @ ''-'' @ byte_digits b6 @ byte_digits b7 @ ''-''
      @ byte_digits b8 @ byte_digits b9 @ ''-'' @ byte_digits b10 @ byte_digits b11 @ byte_digits b12
      @ byte_digits b13 @ byte_digits b14 @ byte_digits b15"
  have s: "str u = Inr s" "length s = 36"
    by (simp_all add: str_def str_loop_ok u s_def byte_digits_def rbind_def rassert_def string_length_def)
  have "hex_values 0 s = Some (concat (map (\<lambda>c. [unat c div 16, unat c mod 16]) u))"
    by (simp add: s_def u byte_digits_def hyphen_place_def hex_value_digit n)
  then have "map_option pair_bytes (hex_values 0 s) = Some u"
    by (simp add: u n del: of_nat_add of_nat_mult)
  then show ?thesis
    using s from_string_ok [OF assms(2)] by simp
qed

theorem uuid_round_trip_witness:
  "\<exists>s. str [1, 2, 3, 4, 5, 6, 7, 8, 9, 10, 11, 12, 13, 14, 15, 16] = Inr s
    \<and> from_string (replicate 16 0) s = Inr (Some [1, 2, 3, 4, 5, 6, 7, 8, 9, 10, 11, 12, 13, 14, 15, 16])"
  using uuid_round_trip [of "[1, 2, 3, 4, 5, 6, 7, 8, 9, 10, 11, 12, 13, 14, 15, 16]" "replicate 16 0"] by auto

lemma and_or_absorb: "(x AND a) OR a = a" for a x :: u8
  by (rule bit_word_eqI) (auto simp: bit_simps)

lemma octets:
  fixes x :: u8
  shows "(x AND 0xBF OR 0x80) AND 0x80 = 0x80" "(x AND 0xBF OR 0x80) AND 0xC0 = 0x80" "(x AND 0x4F OR 0x40) AND 0xF0 = 0x40"
  by (simp_all add: bit.conj_disj_distrib2 and.assoc and_or_absorb)

text \<open>The assertions of the constructor hold for all random bytes.\<close>

lemma new_uuid_ok:
  assumes "length random = 16"
  shows "\<exists>u. new_uuid random = Inr u \<and> variant u = Inr rfc_4122 \<and> version u = random_number_based"
  using assms octets
  by (simp add: new_uuid_def variant_def version_def variant_octet_def version_octet_def Let_def rbind_def rassert_def)

end
