(* ===== verification/Fnv.thy ===== *)
theory Fnv
  imports Pstore_Prelude
begin

unbundle bit_operations_syntax

text \<open>
  The Fowler/Noll/Vo hash (\<^verbatim>\<open>include/pstore/support/fnv.hpp\<close>, \<^verbatim>\<open>lib/support/fnv.cpp\<close>): the build that multiplies by
  the prime with shifts and sums, for a buffer and for a string that a zero byte ends.
\<close>

definition fnv_64_prime :: u64 where
  "fnv_64_prime = 0x100000001b3"

definition fnv1a_64_init :: u64 where
  "fnv1a_64_init = 0xcbf29ce484222325"

definition fnv_append :: "u8 \<Rightarrow> u64 \<Rightarrow> u64" where
  "fnv_append v hval =
     (let hval = hval XOR ucast v in
      hval + (push_bit 1 hval + push_bit 4 hval + push_bit 5 hval + push_bit 7 hval + push_bit 8 hval
              + push_bit 40 hval))"

definition fnv_64a_buf :: "u8 list \<Rightarrow> u64 \<Rightarrow> u64" where
  "fnv_64a_buf buf hval = foldl (\<lambda>result v. fnv_append v result) hval buf"

fun fnv_64a_str :: "u8 list \<Rightarrow> u64 \<Rightarrow> exn + u64" where
  "fnv_64a_str [] result = Inl Undefined"
| "fnv_64a_str (s # rest) result = (if s \<noteq> 0 then fnv_64a_str rest (fnv_append s result) else Inr result)"

definition fnv_64a_hash :: "u8 list \<Rightarrow> u64" where
  "fnv_64a_hash c = fnv_64a_buf c fnv1a_64_init"

lemma fnv_append_prime: "fnv_append v hval = (hval XOR ucast v) * fnv_64_prime"
proof -
  have "x + (push_bit 1 x + push_bit 4 x + push_bit 5 x + push_bit 7 x + push_bit 8 x + push_bit 40 x)
      = x * (1 + (2 + 16 + 32 + 128 + 256 + 2 ^ 40))" for x :: u64
    by (simp only: push_bit_eq_mult distrib_left) simp
  then show ?thesis
    by (simp add: fnv_append_def fnv_64_prime_def)
qed

text \<open>
  C32. The hash that is computed with shifts and sums is the FNV-1a hash: for each byte an exclusive or and a
  multiplication by the prime, modulo \<open>2 ^ 64\<close>; and the hash of a zero-terminated string is that of the
  bytes before its first zero.
\<close>

theorem fnv_is_fnv1a:
  "fnv_64a_buf buf hval = foldl (\<lambda>h v. (h XOR ucast v) * fnv_64_prime) hval buf
   \<and> fnv_64a_str (takeWhile (\<lambda>v. v \<noteq> 0) buf @ 0 # rest) hval = Inr (fnv_64a_buf (takeWhile (\<lambda>v. v \<noteq> 0) buf) hval)"
proof -
  have "fnv_64a_str (takeWhile (\<lambda>v. v \<noteq> 0) buf @ 0 # rest) hval = Inr (fnv_64a_buf (takeWhile (\<lambda>v. v \<noteq> 0) buf) hval)" for buf
    by (induction buf arbitrary: hval) (auto simp: fnv_64a_buf_def)
  then show ?thesis
    by (simp add: fnv_64a_buf_def fnv_append_prime)
qed

end
