(* ===== verification/Utf.thy ===== *)
theory Utf
  imports Pstore_Prelude
begin

unbundle bit_operations_syntax

text \<open>
  UTF-8 and UTF-16 (\<^verbatim>\<open>include/pstore/support/utf.hpp\<close>, \<^verbatim>\<open>lib/support/utf.cpp\<close>): the table-driven decoder, the encoder,
  the conversion of UTF-16 with either byte order, and the functions that count and find code points in UTF-8.
\<close>

section \<open>Model\<close>

definition utf8d :: "nat list" where
  "utf8d = [
      0, 0, 0, 0, 0, 0, 0, 0, 0, 0, 0, 0, 0, 0, 0, 0, 0, 0, 0, 0, 0, 0, 0, 0, 0, 0, 0, 0, 0, 0, 0, 0,
      0, 0, 0, 0, 0, 0, 0, 0, 0, 0, 0, 0, 0, 0, 0, 0, 0, 0, 0, 0, 0, 0, 0, 0, 0, 0, 0, 0, 0, 0, 0, 0,
      0, 0, 0, 0, 0, 0, 0, 0, 0, 0, 0, 0, 0, 0, 0, 0, 0, 0, 0, 0, 0, 0, 0, 0, 0, 0, 0, 0, 0, 0, 0, 0,
      0, 0, 0, 0, 0, 0, 0, 0, 0, 0, 0, 0, 0, 0, 0, 0, 0, 0, 0, 0, 0, 0, 0, 0, 0, 0, 0, 0, 0, 0, 0, 0,
      1, 1, 1, 1, 1, 1, 1, 1, 1, 1, 1, 1, 1, 1, 1, 1, 9, 9, 9, 9, 9, 9, 9, 9, 9, 9, 9, 9, 9, 9, 9, 9,
      7, 7, 7, 7, 7, 7, 7, 7, 7, 7, 7, 7, 7, 7, 7, 7, 7, 7, 7, 7, 7, 7, 7, 7, 7, 7, 7, 7, 7, 7, 7, 7,
      8, 8, 2, 2, 2, 2, 2, 2, 2, 2, 2, 2, 2, 2, 2, 2, 2, 2, 2, 2, 2, 2, 2, 2, 2, 2, 2, 2, 2, 2, 2, 2,
      10, 3, 3, 3, 3, 3, 3, 3, 3, 3, 3, 3, 3, 4, 3, 3, 11, 6, 6, 6, 5, 8, 8, 8, 8, 8, 8, 8, 8, 8, 8, 8,
      0, 1, 2, 3, 5, 8, 7, 1, 1, 1, 4, 6, 1, 1, 1, 1, 1, 1, 1, 1, 1, 1, 1, 1, 1, 1, 1, 1, 1, 1, 1, 1,
      1, 0, 1, 1, 1, 1, 1, 0, 1, 0, 1, 1, 1, 1, 1, 1, 1, 2, 1, 1, 1, 1, 1, 2, 1, 2, 1, 1, 1, 1, 1, 1,
      1, 1, 1, 1, 1, 1, 1, 2, 1, 1, 1, 1, 1, 1, 1, 1, 1, 2, 1, 1, 1, 1, 1, 1, 1, 2, 1, 1, 1, 1, 1, 1,
      1, 1, 1, 1, 1, 1, 1, 3, 1, 3, 1, 1, 1, 1, 1, 1, 1, 3, 1, 1, 1, 1, 1, 3, 1, 3, 1, 1, 1, 1, 1, 1,
      1, 3, 1, 1, 1, 1, 1, 1, 1, 1, 1, 1, 1, 1, 1, 1]"

record utf8_decoder =
  codepoint :: u32
  decoder_state :: nat
  well_formed :: bool

definition new_decoder :: utf8_decoder where
  "new_decoder = \<lparr>codepoint = 0, decoder_state = 0, well_formed = True\<rparr>"

definition utf8_decode :: "nat \<Rightarrow> u32 \<Rightarrow> u8 \<Rightarrow> nat \<times> u32" where
  "utf8_decode state codep byte =
     (let type = utf8d ! unat byte;
          codep = (if state \<noteq> 0 then (ucast byte AND 0x3F) OR push_bit 6 codep else drop_bit type 0xFF AND ucast byte)
      in (utf8d ! (256 + state * 16 + type), codep))"

definition decoder_get :: "utf8_decoder \<Rightarrow> u8 \<Rightarrow> utf8_decoder \<times> u32 option" where
  "decoder_get d byte =
     (let (state, codep) = utf8_decode (decoder_state d) (codepoint d) byte;
          d = d\<lparr>decoder_state := state, codepoint := codep\<rparr>
      in if state \<noteq> 0 then (d\<lparr>well_formed := False\<rparr>, None)
         else (d\<lparr>well_formed := True, codepoint := 0\<rparr>, Some codep))"

definition replacement_char_code_point :: u32 where
  "replacement_char_code_point = 0xFFFD"

function code_point_to_utf8 :: "u32 \<Rightarrow> u8 list" where
  "code_point_to_utf8 c =
     (if c < 0x80 then [ucast c]
      else if c < 0x800 then [ucast (c div 64 + 0xC0), ucast (c mod 64 + 0x80)]
      else if (0xD800 \<le> c \<and> c < 0xE000) \<or> 0x110000 \<le> c then code_point_to_utf8 replacement_char_code_point
      else if c < 0x10000
      then [ucast (c div 0x1000 OR 0xE0), ucast (c div 64 mod 64 OR 0x80), ucast (c mod 64 OR 0x80)]
      else [ucast (c div 0x40000 OR 0xF0), ucast (c div 0x1000 mod 64 OR 0x80), ucast (c div 64 mod 64 OR 0x80),
            ucast (c mod 64 OR 0x80)])"
  by pat_completeness auto
termination
  by (relation "measure (\<lambda>c. if c = replacement_char_code_point then 0 else 1)")
    (auto simp: replacement_char_code_point_def)

declare code_point_to_utf8.simps [simp del]

definition nop_swapper :: "u16 \<Rightarrow> u16" where
  "nop_swapper v = v"

definition byte_swapper :: "u16 \<Rightarrow> u16" where
  "byte_swapper v = push_bit 8 (v AND 0x00FF) OR drop_bit 8 (v AND 0xFF00)"

definition is_utf16_high_surrogate :: "u16 \<Rightarrow> bool" where
  "is_utf16_high_surrogate code_unit \<longleftrightarrow> 0xD800 \<le> code_unit \<and> code_unit \<le> 0xDBFF"

definition is_utf16_low_surrogate :: "u16 \<Rightarrow> bool" where
  "is_utf16_low_surrogate code_unit \<longleftrightarrow> 0xDC00 \<le> code_unit \<and> code_unit \<le> 0xDFFF"

definition utf16_to_code_point :: "u16 list \<Rightarrow> (u16 \<Rightarrow> u16) \<Rightarrow> exn + u16 list \<times> u32" where
  "utf16_to_code_point src swapper =
     (case src of
        [] \<Rightarrow> Inl Assertion
      | c # rest \<Rightarrow>
          let code_unit = swapper c in
          if \<not> is_utf16_high_surrogate code_unit then Inr (rest, ucast code_unit)
          else (case rest of
                  [] \<Rightarrow> Inr ([], replacement_char_code_point)
                | c # rest \<Rightarrow>
                    let high = code_unit; low = swapper c in
                    if low < 0xDC00 \<or> 0xDFFF < low then Inr (rest, replacement_char_code_point)
                    else Inr (rest, 0x10000 + push_bit 10 (ucast high AND 0x03FF) + (ucast low AND 0x03FF))))"

function utf16_to_code_points :: "u16 list \<Rightarrow> (u16 \<Rightarrow> u16) \<Rightarrow> exn + u32 list" where
  "utf16_to_code_points src swapper =
     (if src = [] then Inr []
      else case utf16_to_code_point src swapper of
             Inl e \<Rightarrow> Inl e
           | Inr (rest, code_point) \<Rightarrow>
               rbind (utf16_to_code_points rest swapper) (\<lambda>out. Inr (code_point # out)))"
  by pat_completeness auto
termination
  by (relation "measure (\<lambda>(src, _). length src)")
    (auto simp: utf16_to_code_point_def Let_def split: list.splits if_splits)

definition is_utf_char_start :: "u8 \<Rightarrow> bool" where
  "is_utf_char_start c \<longleftrightarrow> c AND 0xC0 \<noteq> 0x80"

definition utf_length :: "u8 list \<Rightarrow> nat" where
  "utf_length str = length (filter is_utf_char_start str)"

text \<open>The position that \<^verbatim>\<open>index\<close> returns, the length of the range when it is the end.\<close>

fun utf_index :: "u8 list \<Rightarrow> nat \<Rightarrow> nat \<Rightarrow> nat" where
  "utf_index [] start_count pos = 0"
| "utf_index (c # rest) start_count pos =
     (if is_utf_char_start c
      then if start_count = pos then 0 else Suc (utf_index rest (start_count + 1) pos)
      else Suc (utf_index rest start_count pos))"

definition utf_length_ptr :: "u8 list option \<Rightarrow> nat" where
  "utf_length_ptr str = (case str of None \<Rightarrow> 0 | Some str \<Rightarrow> utf_length str)"

definition utf_index_ptr :: "u8 list option \<Rightarrow> nat \<Rightarrow> nat option" where
  "utf_index_ptr str pos =
     (case str of
        None \<Rightarrow> None
      | Some str \<Rightarrow> let result = utf_index str 0 pos in if result = length str then None else Some result)"

definition slice :: "u8 list option \<Rightarrow> int \<Rightarrow> int \<Rightarrow> int \<times> int" where
  "slice str start stop =
     (case str of
        None \<Rightarrow> (- 1, - 1)
      | Some str \<Rightarrow>
          let p1 = utf_index str 0 (nat (max 0 start)); p2 = utf_index str 0 (nat (max 0 stop)); last = length str
          in (if p1 \<noteq> last then int p1 else - 1, if p2 \<noteq> last then int p2 else - 1))"

section \<open>The table\<close>

definition byte_class :: "nat \<Rightarrow> nat" where
  "byte_class b =
     (if b < 0x80 then 0 else if b < 0x90 then 1 else if b < 0xA0 then 9 else if b < 0xC0 then 7
      else if b < 0xC2 then 8 else if b < 0xE0 then 2 else if b = 0xE0 then 10 else if b = 0xED then 4
      else if b < 0xF0 then 3 else if b = 0xF0 then 11 else if b < 0xF4 then 6 else if b = 0xF4 then 5 else 8)"

definition next_state :: "nat \<Rightarrow> nat \<Rightarrow> nat" where
  "next_state s t =
     (if s = 0 then [0, 1, 2, 3, 5, 8, 7, 1, 1, 1, 4, 6] ! t
      else if s = 2 \<and> t \<in> {1, 7, 9} then 0 else if s = 3 \<and> t \<in> {1, 7, 9} then 2
      else if s = 4 \<and> t = 7 then 2 else if s = 5 \<and> t \<in> {1, 9} then 2
      else if s = 6 \<and> t \<in> {7, 9} then 3 else if s = 7 \<and> t \<in> {1, 7, 9} then 3
      else if s = 8 \<and> t = 1 then 3 else 1)"

lemma utf8d_alt:
  "utf8d = map byte_class [0..<256]
           @ map (\<lambda>i. if i mod 16 < 12 then next_state (i div 16) (i mod 16) else 1) [0..<144]"
  by code_simp

lemma utf8d_class: "b < 256 \<Longrightarrow> utf8d ! b = byte_class b"
  by (simp add: utf8d_alt nth_append)

lemma utf8d_next: "s < 9 \<Longrightarrow> t < 12 \<Longrightarrow> utf8d ! (256 + s * 16 + t) = next_state s t"
  by (simp add: utf8d_alt nth_append)

section \<open>The decoder\<close>

text \<open>The client loop: a byte at a time, collecting the code points.\<close>

fun decode_all :: "utf8_decoder \<Rightarrow> u8 list \<Rightarrow> utf8_decoder \<times> u32 list" where
  "decode_all d [] = (d, [])"
| "decode_all d (b # bs) =
     (let (d, r) = decoder_get d b; (d, cs) = decode_all d bs in (d, case r of None \<Rightarrow> cs | Some c \<Rightarrow> c # cs))"

definition scalar_value :: "u32 \<Rightarrow> bool" where
  "scalar_value c \<longleftrightarrow> c < 0xD800 \<or> 0xE000 \<le> c \<and> c < 0x110000"

text \<open>The bytes of a scalar value, as numbers.\<close>

definition utf8_bytes :: "nat \<Rightarrow> nat list" where
  "utf8_bytes c =
     (if c < 0x80 then [c]
      else if c < 0x800 then [0xC0 + c div 64, 0x80 + c mod 64]
      else if c < 0x10000 then [0xE0 + c div 0x1000, 0x80 + c div 64 mod 64, 0x80 + c mod 64]
      else [0xF0 + c div 0x40000, 0x80 + c div 0x1000 mod 64, 0x80 + c div 64 mod 64, 0x80 + c mod 64])"

lemma unat_take_bit_ucast:
  fixes b :: u8
  shows "unat (take_bit n (ucast b) :: u32) = unat b mod 2 ^ n"
proof -
  have "unat (ucast b :: u32) = unat b"
    using unsigned_less [of b, where 'a = nat] by (simp add: unsigned_ucast_eq take_bit_eq_mod)
  then show ?thesis
    by (simp add: unsigned_take_bit_eq take_bit_eq_mod [where 'a = nat])
qed

lemma unat_cont:
  fixes b :: u8 and cp :: u32
  assumes "unat cp < 2 ^ 26"
  shows "unat ((ucast b AND 0x3F) OR push_bit 6 cp) = 64 * unat cp + unat b mod 64"
proof -
  have m: "(0x3F :: u32) = mask 6"
    by (simp add: mask_eq_exp_minus_1)
  have lo: "unat (ucast b AND 0x3F :: u32) = unat b mod 64"
    unfolding m by (simp add: unat_take_bit_ucast flip: take_bit_eq_mask)
  have hi: "unat (push_bit 6 cp) = 64 * unat cp"
    using assms by (simp add: push_bit_eq_mult unat_word_ariths)
  have "(ucast b AND 0x3F) OR push_bit 6 cp = (ucast b AND 0x3F) + push_bit 6 cp"
    unfolding m by (subst disjunctive_add) (auto simp: bit_simps)
  also have "unat \<dots> = 64 * unat cp + unat b mod 64"
    using assms by (simp add: unat_word_ariths lo hi)
  finally show ?thesis .
qed

lemma unat_first:
  fixes b :: u8
  assumes "t < 12"
  shows "unat (drop_bit t 0xFF AND ucast b :: u32) = unat b mod 2 ^ (8 - t)"
proof -
  have m: "(0xFF :: u32) = mask 8"
    by (simp add: mask_eq_exp_minus_1)
  have "(drop_bit t 0xFF :: u32) = mask (8 - t)"
    unfolding m by (intro bit_word_eqI) (auto simp: bit_simps)
  then show ?thesis
    by (simp add: and.commute [of "mask _"] unat_take_bit_ucast flip: take_bit_eq_mask)
qed

lemma or_disjoint:
  fixes x y :: u32
  assumes "x < 2 ^ k"
  shows "x OR push_bit k y = x + push_bit k y"
proof (rule disjunctive_add [symmetric])
  show "\<not> bit x n \<or> \<not> bit (push_bit k y) n" for n
  proof (cases "n < k")
    case False
    have "take_bit k x = x"
      using assms less_mask_eq [of x k] by (simp add: take_bit_eq_mask)
    then have "bit x n = bit (take_bit k x) n"
      by simp
    then show ?thesis
      using False by (simp add: bit_simps)
  qed (simp add: bit_simps)
qed

lemma unat_code_point_to_utf8:
  assumes "scalar_value c"
  shows "map unat (code_point_to_utf8 c) = utf8_bytes (unat c)"
proof -
  have c: "unat c < 0x110000"
    using assms by (auto simp: scalar_value_def word_less_nat_alt word_le_nat_alt)
  have o: "x OR 0x80 = x + 0x80" if "x < 64" for x :: u32
    using or_disjoint [of x 6 2] that by simp
  have p: "x OR 0xE0 = x + 0xE0" if "x < 32" for x :: u32
    using or_disjoint [of x 5 7] that by simp
  have q: "x OR 0xF0 = x + 0xF0" if "x < 16" for x :: u32
    using or_disjoint [of x 4 15] that by simp
  have u: "unat (ucast (x + y) :: u8) = unat x + unat y" if "unat x + unat y < 256" for x y :: u32
    using that by (simp add: unsigned_ucast_eq unat_word_ariths take_bit_eq_mod)
  have v: "unat (ucast x :: u8) = unat x" if "unat x < 256" for x :: u32
    using that by (simp add: unsigned_ucast_eq take_bit_eq_mod)
  show ?thesis
    using assms c
    by (subst code_point_to_utf8.simps) (auto simp: utf8_bytes_def scalar_value_def Let_def word_less_nat_alt word_le_nat_alt
        o p q u v unat_div unat_mod)
qed

text \<open>
  What the decoder is about: \<open>pending s c pre\<close> says that in state \<open>s\<close> with the partial code point \<open>c\<close> the
  bytes \<open>pre\<close> can be completed, and how.
\<close>

definition scalar_nat :: "nat \<Rightarrow> bool" where
  "scalar_nat c \<longleftrightarrow> c < 0xD800 \<or> 0xE000 \<le> c \<and> c < 0x110000"

definition last_byte :: "nat \<Rightarrow> nat list \<Rightarrow> bool" where
  "last_byte c pre \<longleftrightarrow> (\<forall>x < 64. scalar_nat (64 * c + x) \<and> utf8_bytes (64 * c + x) = pre @ [0x80 + x])"

definition third_byte :: "nat set \<Rightarrow> nat \<Rightarrow> nat list \<Rightarrow> bool" where
  "third_byte Y c pre \<longleftrightarrow> (\<forall>y \<in> Y. last_byte (64 * c + y) (pre @ [0x80 + y]))"

definition second_byte :: "nat set \<Rightarrow> nat \<Rightarrow> nat list \<Rightarrow> bool" where
  "second_byte Z c pre \<longleftrightarrow> (\<forall>z \<in> Z. third_byte {0..<64} (64 * c + z) (pre @ [0x80 + z]))"

definition pending :: "nat \<Rightarrow> nat \<Rightarrow> nat list \<Rightarrow> bool" where
  "pending s c pre \<longleftrightarrow> c < 2 ^ 15 \<and>
     (if s = 0 then pre = [] else if s = 2 then last_byte c pre
      else if s = 3 then third_byte {0..<64} c pre else if s = 4 then third_byte {32..<64} c pre
      else if s = 5 then third_byte {0..<32} c pre else if s = 6 then second_byte {16..<64} c pre
      else if s = 7 then second_byte {0..<64} c pre else s = 8 \<and> second_byte {0..<16} c pre)"

definition next_codep :: "nat \<Rightarrow> nat \<Rightarrow> nat \<Rightarrow> nat" where
  "next_codep s c b = (if s \<noteq> 0 then 64 * c + b mod 64 else b mod 2 ^ (8 - byte_class b))"

lemma mod_offset: "k < n \<Longrightarrow> n dvd c \<Longrightarrow> (c + k) mod n = (k :: nat)"
  by (auto elim!: dvdE)

lemma digits_div:
  fixes c x :: nat
  assumes "x < 64"
  shows "(64 * c + x) mod 64 = x" "(64 * c + x) div 64 = c" "(64 * c + x) div 0x1000 = c div 64"
    "(64 * c + x) div 0x40000 = c div 0x1000"
proof -
  show "(64 * c + x) mod 64 = x" and d: "(64 * c + x) div 64 = c"
    using assms by simp_all
  have "(64 * c + x) div (64 * 64) = c div 64" "(64 * c + x) div (64 * 0x1000) = c div 0x1000"
    by (simp_all only: div_mult2_eq d)
  then show "(64 * c + x) div 0x1000 = c div 64" "(64 * c + x) div 0x40000 = c div 0x1000"
    by simp_all
qed

lemma utf8_two:
  assumes "x < 64" "2 \<le> k" "k < 32"
  shows "utf8_bytes (64 * k + x) = [0xC0 + k, 0x80 + x]"
  using assms by (simp add: utf8_bytes_def digits_div)

lemma utf8_three:
  assumes "x < 64" "y < 64" "k < 16" "k = 0 \<Longrightarrow> 32 \<le> y"
  shows "utf8_bytes (64 * (64 * k + y) + x) = [0xE0 + k, 0x80 + y, 0x80 + x]"
proof -
  define c where "c = 64 * (64 * k + y) + x"
  have "c mod 64 = x" "c div 64 mod 64 = y" "c div 0x1000 = k"
    unfolding c_def using assms(1,2) by (simp_all only: digits_div)
  moreover have "0x800 \<le> c" "c < 0x10000"
    unfolding c_def using assms by (cases "k = 0", simp_all)
  ultimately show ?thesis
    unfolding c_def [symmetric] by (simp add: utf8_bytes_def)
qed

lemma utf8_four:
  assumes "x < 64" "y < 64" "z < 64" "k = 0 \<Longrightarrow> 16 \<le> z"
  shows "utf8_bytes (64 * (64 * (64 * k + z) + y) + x) = [0xF0 + k, 0x80 + z, 0x80 + y, 0x80 + x]"
proof -
  define c where "c = 64 * (64 * (64 * k + z) + y) + x"
  have "c mod 64 = x" "c div 64 mod 64 = y" "c div 0x1000 mod 64 = z" "c div 0x40000 = k"
    unfolding c_def using assms(1-3) by (simp_all only: digits_div)
  moreover have "0x10000 \<le> c"
    unfolding c_def using assms(4) by (cases "k = 0", simp_all)
  ultimately show ?thesis
    unfolding c_def [symmetric] by (simp add: utf8_bytes_def)
qed

lemma lead_two: "2 \<le> k \<Longrightarrow> k < 32 \<Longrightarrow> last_byte k [0xC0 + k]"
  by (simp add: last_byte_def scalar_nat_def utf8_two)

lemma lead_three:
  assumes "k < 16" "Y \<subseteq> {0..<64}" "k = 0 \<Longrightarrow> Y \<subseteq> {32..<64}" "k = 13 \<Longrightarrow> Y \<subseteq> {0..<32}"
  shows "third_byte Y k [0xE0 + k]"
  unfolding third_byte_def last_byte_def
proof (intro ballI allI impI conjI)
  fix y x :: nat
  assume y: "y \<in> Y" and x: "x < 64"
  have y': "y < 64" "k = 0 \<Longrightarrow> 32 \<le> y" "k = 13 \<Longrightarrow> y < 32"
    using y assms(2-4) by (auto simp: subset_iff)
  show "scalar_nat (64 * (64 * k + y) + x)"
    unfolding scalar_nat_def using x y' assms(1) by (cases k "13 :: nat" rule: linorder_cases) auto
  show "utf8_bytes (64 * (64 * k + y) + x) = ([0xE0 + k] @ [0x80 + y]) @ [0x80 + x]"
    using utf8_three [OF x y'(1) assms(1) y'(2)] by simp
qed

lemma lead_four:
  assumes "k < 5" "Z \<subseteq> {0..<64}" "k = 0 \<Longrightarrow> Z \<subseteq> {16..<64}" "k = 4 \<Longrightarrow> Z \<subseteq> {0..<16}"
  shows "second_byte Z k [0xF0 + k]"
  unfolding second_byte_def third_byte_def last_byte_def
proof (intro ballI allI impI conjI)
  fix z y x :: nat
  assume z: "z \<in> Z" and y: "y \<in> {0..<64}" and x: "x < 64"
  have z': "z < 64" "k = 0 \<Longrightarrow> 16 \<le> z" "k = 4 \<Longrightarrow> z < 16"
    using z assms(2-4) by (auto simp: subset_iff)
  show "scalar_nat (64 * (64 * (64 * k + z) + y) + x)"
    unfolding scalar_nat_def using x y z' assms(1) by (cases "k = 0"; cases "k = 4") auto
  show "utf8_bytes (64 * (64 * (64 * k + z) + y) + x) = (([0xF0 + k] @ [0x80 + z]) @ [0x80 + y]) @ [0x80 + x]"
    using utf8_four [OF x _ z'(1,2), of y k] y by simp
qed

definition continues :: "nat \<Rightarrow> nat \<Rightarrow> nat \<Rightarrow> nat list \<Rightarrow> bool" where
  "continues s c b pre \<longleftrightarrow>
     (let s' = next_state s (byte_class b); c' = next_codep s c b in
      (s' = 0 \<longrightarrow> scalar_nat c' \<and> utf8_bytes c' = pre @ [b])
      \<and> (s' \<noteq> 0 \<longrightarrow> s' \<noteq> 1 \<longrightarrow> pending s' c' (pre @ [b])))"

lemma continues_first:
  assumes "b < 256"
  shows "continues 0 c b []"
proof -
  note defs = continues_def Let_def byte_class_def next_state_def next_codep_def pending_def
  consider "b < 0x80" | "0x80 \<le> b" "b < 0xC2" | k where "b = 0xC0 + k" "2 \<le> k" "k < 32" 
    | k where "b = 0xE0 + k" "k < 16" | k where "b = 0xF0 + k" "k < 5" | "0xF5 \<le> b"
    using assms le_Suc_ex [of "0xC0" b] le_Suc_ex [of "0xE0" b] le_Suc_ex [of "0xF0" b] by fastforce
  then show ?thesis
  proof cases
    case 1
    then show ?thesis
      by (simp add: defs scalar_nat_def utf8_bytes_def)
  next
    case 2
    then show ?thesis
      by (auto simp: defs)
  next
    case (3 k)
    then have "(0xC0 + k) mod 64 = k"
      using mod_offset [of k 64 "0xC0"] by simp
    with 3 show ?thesis
      using lead_two [of k] by (simp add: defs)
  next
    case (4 k)
    then have "(0xE0 + k) mod 32 = k"
      using mod_offset [of k 32 "0xE0"] by simp
    with 4 show ?thesis
      using lead_three [of k "{0..<64}"] lead_three [of 0 "{32..<64}"] lead_three [of 13 "{0..<32}"] by (auto simp: defs)
  next
    case (5 k)
    then have "k \<noteq> 4 \<Longrightarrow> (0xF0 + k) mod 4 = k"
      using mod_offset [of k 4 "0xF0"] by simp
    with 5 show ?thesis
      using lead_four [of k "{0..<64}"] lead_four [of 0 "{16..<64}"] lead_four [of 4 "{0..<16}"]
      by (cases "k = 0"; cases "k = 4") (auto simp: defs)
  next
    case 6
    then show ?thesis
      by (auto simp: defs)
  qed
qed

lemma continuation_class:
  "y < 64 \<Longrightarrow> byte_class (0x80 + y) = (if y < 16 then 1 else if y < 32 then 9 else 7)" "y < 64 \<Longrightarrow> (0x80 + y) mod 64 = y"
  using mod_offset [of y 64 "0x80"] by (simp_all add: byte_class_def)

lemma class_not_continuation:
  assumes "b < 0x80 \<or> 0xC0 \<le> b"
  shows "byte_class b \<notin> {1, 7, 9}"
  using assms by (auto simp: byte_class_def)

lemma last_byte_bound:
  assumes "last_byte c pre"
  shows "c < 32768"
proof -
  have "scalar_nat (64 * c + 0)"
    using assms unfolding last_byte_def by (rule allE [of _ 0]) simp
  then show ?thesis
    by (auto simp: scalar_nat_def)
qed

lemma third_byte_bound:
  assumes "third_byte {0..<64} c pre"
  shows "c < 32768"
proof -
  have "last_byte (64 * c + 0) (pre @ [0x80 + 0])"
    using assms unfolding third_byte_def by (rule ballE [of _ _ 0]) simp_all
  from last_byte_bound [OF this] show ?thesis
    by simp
qed

lemma continues_more:
  assumes "pending s c pre" "s \<noteq> 0"
  shows "continues s c b pre"
proof (cases "0x80 \<le> b \<and> b < 0xC0")
  case False
  then have "byte_class b \<notin> {1, 7, 9}"
    using class_not_continuation [of b] by auto
  then have "next_state s (byte_class b) = 1"
    using assms(2) by (auto simp: next_state_def)
  then show ?thesis
    by (simp add: continues_def)
next
  case True
  then obtain y where y: "b = 0x80 + y" "y < 64"
    using le_Suc_ex [of "0x80" b] by auto
  note defs = continues_def next_state_def next_codep_def continuation_class [OF y(2)] Let_def y(1)
  consider "s = 2" | "s \<in> {3, 4, 5}" | "s \<in> {6, 7, 8}"
    using assms by (auto simp: pending_def split: if_splits)
  then show ?thesis
  proof cases
    case 1
    then have "last_byte c pre"
      using assms by (simp add: pending_def)
    then have "scalar_nat (64 * c + y) \<and> utf8_bytes (64 * c + y) = pre @ [0x80 + y]"
      unfolding last_byte_def using y(2) by blast
    then show ?thesis
      using 1 by (simp add: defs)
  next
    case 2
    let ?Y = "if s = 3 then {0..<64} else if s = 4 then {32..<64} else {0..<32}"
    have "third_byte ?Y c pre"
      using 2 assms by (auto simp: pending_def)
    then have "y \<in> ?Y \<Longrightarrow> last_byte (64 * c + y) (pre @ [0x80 + y])"
      unfolding third_byte_def by blast
    then have "y \<in> ?Y \<Longrightarrow> pending 2 (64 * c + y) (pre @ [0x80 + y])"
      using last_byte_bound by (simp add: pending_def)
    then show ?thesis
      using 2 y(2) by (auto simp: defs)
  next
    case 3
    let ?Z = "if s = 7 then {0..<64} else if s = 6 then {16..<64} else {0..<16}"
    have "second_byte ?Z c pre"
      using 3 assms by (auto simp: pending_def)
    then have "y \<in> ?Z \<Longrightarrow> third_byte {0..<64} (64 * c + y) (pre @ [0x80 + y])"
      unfolding second_byte_def by blast
    then have "y \<in> ?Z \<Longrightarrow> pending 3 (64 * c + y) (pre @ [0x80 + y])"
      using third_byte_bound by (simp add: pending_def)
    then show ?thesis
      using 3 y(2) by (auto simp: defs)
  qed
qed

text \<open>The decoder object in state \<open>s\<close> with the partial code point \<open>c\<close>.\<close>

definition decoder_at :: "nat \<Rightarrow> nat \<Rightarrow> utf8_decoder" where
  "decoder_at s c = \<lparr>codepoint = of_nat c, decoder_state = s, well_formed = (s = 0)\<rparr>"

lemma next_state_less: "t < 12 \<Longrightarrow> next_state s t < 9"
  by (rule bounded_check [where k = 12 and n = t]) (auto simp: next_state_def upt_rec)

lemma byte_class_less: "byte_class b < 12"
  by (simp add: byte_class_def)

lemma decode_step:
  assumes "s < 9" "c < 2 ^ 26"
  shows "utf8_decode s (of_nat c) b = (next_state s (byte_class (unat b)), of_nat (next_codep s c (unat b)))"
proof -
  have b: "unat b < 256"
    using unsigned_less [of b, where 'a = nat] by simp
  have c: "unat (of_nat c :: u32) = c"
    using assms(2) by (simp add: unat_of_nat)
  have "fst (utf8_decode s (of_nat c) b) = next_state s (byte_class (unat b))"
    using assms b byte_class_less by (simp add: utf8_decode_def utf8d_class utf8d_next Let_def)
  moreover have "unat (snd (utf8_decode s (of_nat c) b)) = next_codep s c (unat b)"
    using assms b c unat_first [OF byte_class_less, of "unat b" b] unat_cont [of "of_nat c" b]
    by (simp add: utf8_decode_def utf8d_class next_codep_def Let_def)
  moreover have "of_nat (unat w) = w" for w :: u32
    by simp
  ultimately show ?thesis
    by (metis prod.collapse)
qed

lemma decode_all_step:
  assumes "s < 9" "c < 2 ^ 26"
  shows "decode_all (decoder_at s c) (b # bs) =
    (let s' = next_state s (byte_class (unat b)); c' = next_codep s c (unat b) in
     if s' = 0 then case decode_all (decoder_at 0 0) bs of (d, cs) \<Rightarrow> (d, of_nat c' # cs)
     else decode_all (decoder_at s' c') bs)"
  by (simp add: decoder_at_def decoder_get_def decode_step [OF assms] Let_def split: prod.splits)

lemma decode_rejected:
  "decode_all \<lparr>codepoint = c, decoder_state = 1, well_formed = False\<rparr> bs = (d, cs) \<Longrightarrow> \<not> well_formed d"
proof (induction bs arbitrary: c)
  case (Cons b bs)
  have "unat b < 256"
    using unsigned_less [of b, where 'a = nat] by simp
  then have "fst (utf8_decode 1 c b) = 1"
    using byte_class_less utf8d_next [of 1 "byte_class (unat b)"]
    by (simp add: utf8_decode_def utf8d_class next_state_def Let_def)
  with Cons show ?case
    by (cases "utf8_decode 1 c b") (auto simp: decoder_get_def Let_def split: prod.splits)
qed auto

lemma pending_bound: "pending s c pre \<Longrightarrow> s < 9 \<and> c < 2 ^ 26"
  by (auto simp: pending_def split: if_splits)

lemma decode_all_sound:
  assumes "decode_all (decoder_at s c) bs = (d, cs)" "pending s c pre" "well_formed d"
  shows "pre @ map unat bs = concat (map (utf8_bytes \<circ> unat) cs) \<and> (\<forall>c \<in> set cs. scalar_value c)"
  using assms
proof (induction bs arbitrary: s c cs pre)
  case Nil
  then show ?case
    by (auto simp: decoder_at_def pending_def)
next
  case (Cons b bs)
  let ?s = "next_state s (byte_class (unat b))" and ?c = "next_codep s c (unat b)"
  have s: "s < 9" "c < 2 ^ 26"
    using pending_bound Cons.prems(2) by auto
  have "unat b < 256"
    using unsigned_less [of b, where 'a = nat] by simp
  then have k: "continues s c (unat b) pre"
    using continues_first [of "unat b" c] continues_more [of s c pre] Cons.prems(2)
    by (cases "s = 0") (auto simp: pending_def)
  consider "?s = 0" | "?s = 1" | "?s \<noteq> 0" "?s \<noteq> 1"
    by blast
  then show ?case
  proof cases
    case 1
    obtain cs' where cs: "decode_all (decoder_at 0 0) bs = (d, cs')" "cs = of_nat ?c # cs'"
      using Cons.prems(1) 1 by (auto simp: decode_all_step [OF s] Let_def simp del: decode_all.simps split: prod.splits)
    have c: "scalar_nat ?c" "utf8_bytes ?c = pre @ [unat b]"
      using k 1 by (simp_all add: continues_def Let_def)
    then have "unat (of_nat ?c :: u32) = ?c"
      by (auto simp: scalar_nat_def unat_of_nat)
    then show ?thesis
      using Cons.IH [OF cs(1), of "[]"] Cons.prems(3) c cs(2)
      by (auto simp: pending_def scalar_nat_def scalar_value_def word_less_nat_alt word_le_nat_alt)
  next
    case 2
    then show ?thesis
      using Cons.prems(1,3) decode_rejected unfolding decode_all_step [OF s] by (auto simp: decoder_at_def Let_def)
  next
    case 3
    then have "pending ?s ?c (pre @ [unat b])"
      using k by (simp add: continues_def Let_def)
    then show ?thesis
      using Cons.IH [of ?s ?c cs "pre @ [unat b]"] Cons.prems(1,3) 3
      by (simp add: decode_all_step [OF s] del: decode_all.simps)
  qed
qed

lemma scalar_shape:
  assumes "scalar_nat c"
  obtains "c < 0x80"
  | k x where "c = 64 * k + x" "x < 64" "2 \<le> k" "k < 32"
  | k y x where "c = 64 * (64 * k + y) + x" "x < 64" "y < 64" "k < 16" "k = 0 \<Longrightarrow> 32 \<le> y" "k = 13 \<Longrightarrow> y < 32"
  | k z y x where "c = 64 * (64 * (64 * k + z) + y) + x" "x < 64" "y < 64" "z < 64" "k < 5" "k = 0 \<Longrightarrow> 16 \<le> z"
      "k = 4 \<Longrightarrow> z < 16"
proof -
  have d: "m = 64 * (m div 64) + m mod 64" "m mod 64 < 64" for m :: nat
    by simp_all
  consider "c < 0x80" | "0x80 \<le> c" "c < 0x800" | "0x800 \<le> c" "c < 0x10000" | "0x10000 \<le> c" "c < 0x110000"
    using assms by (fastforce simp: scalar_nat_def)
  then show ?thesis
  proof cases
    case 2
    then show ?thesis
      using that(2) [of "c div 64" "c mod 64"] by simp
  next
    case 3
    let ?m = "c div 64"
    have "c = 64 * (64 * (?m div 64) + ?m mod 64) + c mod 64"
      using d(1) [of c] d(1) [of ?m] by simp
    moreover have "?m div 64 < 16" "?m div 64 = 0 \<Longrightarrow> 32 \<le> ?m mod 64" "?m div 64 = 13 \<Longrightarrow> ?m mod 64 < 32"
      using 3 assms d [of c] d [of ?m] unfolding scalar_nat_def by linarith+
    ultimately show ?thesis
      by (rule that(3) [OF _ d(2) d(2)])
  next
    case 4
    let ?m = "c div 64" and ?n = "c div 64 div 64"
    have "c = 64 * (64 * (64 * (?n div 64) + ?n mod 64) + ?m mod 64) + c mod 64"
      using d(1) [of c] d(1) [of ?m] d(1) [of ?n] by simp
    moreover have "?n div 64 < 5" "?n div 64 = 0 \<Longrightarrow> 16 \<le> ?n mod 64" "?n div 64 = 4 \<Longrightarrow> ?n mod 64 < 16"
      using 4 d [of c] d [of ?m] d [of ?n] by linarith+
    ultimately show ?thesis
      by (rule that(4) [OF _ d(2) d(2) d(2)])
  qed (fact that(1))
qed

lemma decode_all_complete:
  assumes "scalar_nat c" "map unat bs = utf8_bytes c"
  shows "decode_all (decoder_at 0 0) (bs @ rest) =
    (case decode_all (decoder_at 0 0) rest of (d, cs) \<Rightarrow> (d, of_nat c # cs))"
proof -
  note defs = next_state_def byte_class_def next_codep_def continuation_class Let_def
  note step = decode_all_step Let_def
  show ?thesis
    using assms(1)
  proof (cases rule: scalar_shape)
    case 1
    then obtain b where "bs = [b]" "unat b = c"
      using assms(2) by (auto simp: utf8_bytes_def)
    then show ?thesis
      using 1 by (simp add: step defs del: decode_all.simps)
  next
    case (2 k x)
    then obtain b\<^sub>1 b\<^sub>2 where bs: "bs = [b\<^sub>1, b\<^sub>2]" "unat b\<^sub>1 = 0xC0 + k" "unat b\<^sub>2 = 0x80 + x"
      using assms(2) by (auto simp: utf8_two map_eq_Cons_conv)
    have "(0xC0 + k) mod 64 = k"
      using 2 mod_offset [of k 64 "0xC0"] by simp
    then have "next_state 0 (byte_class (0xC0 + k)) = 2" "next_codep 0 0 (0xC0 + k) = k"
      using 2 by (simp_all add: defs)
    moreover have "next_state 2 (byte_class (0x80 + x)) = 0" "next_codep 2 k (0x80 + x) = c"
      using 2 by (auto simp: next_state_def next_codep_def continuation_class)
    ultimately show ?thesis
      using 2 by (simp add: bs decode_all_step del: decode_all.simps)
  next
    case (3 k y x)
    then obtain b\<^sub>1 b\<^sub>2 b\<^sub>3 where bs: "bs = [b\<^sub>1, b\<^sub>2, b\<^sub>3]" "unat b\<^sub>1 = 0xE0 + k" "unat b\<^sub>2 = 0x80 + y" "unat b\<^sub>3 = 0x80 + x"
      using assms(2) utf8_three [of x y k] by (auto simp: map_eq_Cons_conv)
    define s :: nat where "s = (if k = 0 then 4 else if k = 13 then 5 else 3)"
    have "(0xE0 + k) mod 32 = k"
      using 3 mod_offset [of k 32 "0xE0"] by simp
    then have "next_codep 0 0 (0xE0 + k) = k" "next_state 0 (byte_class (0xE0 + k)) = s"
      using 3 by (auto simp: defs s_def)
    moreover have "next_state s (byte_class (0x80 + y)) = 2" "next_codep s k (0x80 + y) = 64 * k + y"
      using 3 by (cases "k = 0", auto simp: s_def next_state_def next_codep_def continuation_class)
    moreover have "next_state 2 (byte_class (0x80 + x)) = 0" "next_codep 2 (64 * k + y) (0x80 + x) = c"
      using 3 by (auto simp: next_state_def next_codep_def continuation_class)
    moreover have "0 < s" "s < 9"
      by (simp_all add: s_def)
    ultimately show ?thesis
      using 3(2-4) by (simp add: bs decode_all_step del: decode_all.simps)
  next
    case (4 k z y x)
    then obtain b\<^sub>1 b\<^sub>2 b\<^sub>3 b\<^sub>4 where bs: "bs = [b\<^sub>1, b\<^sub>2, b\<^sub>3, b\<^sub>4]" "unat b\<^sub>1 = 0xF0 + k" "unat b\<^sub>2 = 0x80 + z" "unat b\<^sub>3 = 0x80 + y" "unat b\<^sub>4 = 0x80 + x"
      using assms(2) utf8_four [of x y z k] by (auto simp: map_eq_Cons_conv)
    define s :: nat where "s = (if k = 0 then 6 else if k = 4 then 8 else 7)"
    have "k < 4 \<Longrightarrow> (0xF0 + k) mod 4 = k"
      using mod_offset [of k 4 "0xF0"] by simp
    then have "next_codep 0 0 (0xF0 + k) = k" "next_state 0 (byte_class (0xF0 + k)) = s"
      using 4(5) by (cases "k = 0"; cases "k = 4"; simp add: defs s_def)+
    moreover have "next_state s (byte_class (0x80 + z)) = 3" "next_codep s k (0x80 + z) = 64 * k + z"
      using 4 by (cases "k = 0", auto simp: s_def next_state_def next_codep_def continuation_class)
    moreover have "next_state 3 (byte_class (0x80 + y)) = 2" "next_codep 3 (64 * k + z) (0x80 + y) = 64 * (64 * k + z) + y"
      using 4 by (auto simp: next_state_def next_codep_def continuation_class)
    moreover have "next_state 2 (byte_class (0x80 + x)) = 0" "next_codep 2 (64 * (64 * k + z) + y) (0x80 + x) = c"
      using 4 by (auto simp: next_state_def next_codep_def continuation_class)
    moreover have "0 < s" "s < 9"
      by (simp_all add: s_def)
    ultimately show ?thesis
      using 4(2-5) by (simp add: bs decode_all_step del: decode_all.simps)
  qed
qed

lemma unat_list_eq: "map unat xs = map unat (ys :: u8 list) \<longleftrightarrow> xs = ys"
  by (rule inj_map_eq_map) (auto intro: injI)

lemma decode_all_encoded:
  "\<forall>c \<in> set cs. scalar_value c
   \<Longrightarrow> decode_all (decoder_at 0 0) (concat (map code_point_to_utf8 cs)) = (decoder_at 0 0, cs)"
proof (induction cs)
  case (Cons c cs)
  have "scalar_nat (unat c)"
    using Cons.prems by (auto simp: scalar_nat_def scalar_value_def word_less_nat_alt word_le_nat_alt)
  then show ?case
    using Cons decode_all_complete [OF _ unat_code_point_to_utf8] by simp
qed simp

text \<open>
  C33. The decoder is exact: after a sequence of bytes it says that they are well formed and has returned the code
  points \<open>cs\<close>, if and only if \<open>cs\<close> are Unicode scalar values and the bytes are their UTF-8 encodings, one after
  another. So overlong forms, surrogates, values above \<open>0x10FFFF\<close>, stray and missing bytes are all detected.
\<close>

theorem utf8_decoder_exact:
  "well_formed (fst (decode_all new_decoder bs)) \<and> snd (decode_all new_decoder bs) = cs
   \<longleftrightarrow> list_all scalar_value cs \<and> bs = concat (map code_point_to_utf8 cs)"
proof -
  have new: "new_decoder = decoder_at 0 0"
    by (simp add: new_decoder_def decoder_at_def)
  have "bs = concat (map code_point_to_utf8 cs) \<and> (\<forall>c \<in> set cs. scalar_value c)"
    if "well_formed d" "decode_all (decoder_at 0 0) bs = (d, cs)" for d
  proof -
    have *: "map unat bs = concat (map (utf8_bytes \<circ> unat) cs)" "\<forall>c \<in> set cs. scalar_value c"
      using decode_all_sound [OF that(2) _ that(1), of "[]"] by (simp_all add: pending_def)
    have "concat (map (utf8_bytes \<circ> unat) cs) = map unat (concat (map code_point_to_utf8 cs))"
      using *(2) by (simp add: map_concat unat_code_point_to_utf8 comp_def cong: map_cong)
    with * show ?thesis
      by (simp add: unat_list_eq)
  qed
  then show ?thesis
    using decode_all_encoded [of cs] by (auto simp: new list_all_iff decoder_at_def)
qed

section \<open>Counting and finding code points\<close>

lemma is_utf_char_start_iff: "is_utf_char_start b \<longleftrightarrow> unat b < 0x80 \<or> 0xC0 \<le> unat b"
proof -
  have m: "(0xC0 :: u8) = NOT (mask 6)"
    by (simp add: mask_eq_exp_minus_1)
  have "unat (b AND 0xC0) = unat b div 64 * 64"
  proof -
    have "b AND NOT (mask 6) = push_bit 6 (drop_bit 6 b)"
      by (intro bit_word_eqI) (auto simp: bit_simps)
    moreover have "unat b div 64 < 4"
      using unsigned_less [of b, where 'a = nat] by simp
    ultimately show ?thesis
      unfolding m
      by (simp add: unsigned_push_bit_eq unat_drop_bit_eq drop_bit_eq_div [where 'a = nat]
          push_bit_eq_mult [where 'a = nat] take_bit_eq_mod [where 'a = nat])
  qed
  then have "unat (b AND 0xC0) = unat (0x80 :: u8) \<longleftrightarrow> unat b div 64 = 2"
    by simp
  then have "b AND 0xC0 = 0x80 \<longleftrightarrow> unat b div 64 = 2"
    by (metis unsigned_word_eqI)
  moreover have "unat b div 64 = 2 \<longleftrightarrow> 0x80 \<le> unat b \<and> unat b < 0xC0"
    using div_mult_mod_eq [of "unat b" 64] mod_less_divisor [of 64 "unat b"] by linarith
  ultimately show ?thesis
    by (auto simp: is_utf_char_start_def)
qed

lemma encoded_shape:
  obtains b bs where "code_point_to_utf8 c = b # bs" "is_utf_char_start b" "\<forall>b \<in> set bs. \<not> is_utf_char_start b"
proof -
  have "\<exists>c'. scalar_value c' \<and> code_point_to_utf8 c = code_point_to_utf8 c'"
  proof (cases "scalar_value c")
    case False
    then have "code_point_to_utf8 c = code_point_to_utf8 replacement_char_code_point"
      by (subst code_point_to_utf8.simps) (auto simp: scalar_value_def word_less_nat_alt word_le_nat_alt)
    moreover have "scalar_value replacement_char_code_point"
      by (simp add: scalar_value_def replacement_char_code_point_def)
    ultimately show ?thesis
      by blast
  qed auto
  then obtain c' where c': "scalar_value c'" "code_point_to_utf8 c = code_point_to_utf8 c'"
    by blast
  define bs where "bs = code_point_to_utf8 c'"
  have "unat c' < 0x110000"
    using c'(1) by (auto simp: scalar_value_def word_less_nat_alt word_le_nat_alt)
  moreover have "map unat bs = utf8_bytes (unat c')"
    using c'(1) by (simp add: bs_def unat_code_point_to_utf8)
  ultimately have "bs \<noteq> [] \<and> is_utf_char_start (hd bs) \<and> (\<forall>b \<in> set (tl bs). \<not> is_utf_char_start b)"
    by (auto simp: utf8_bytes_def is_utf_char_start_iff map_eq_Cons_conv split: if_splits)
  then show ?thesis
    using that [of "hd bs" "tl bs"] c'(2) by (cases bs) (auto simp: bs_def)
qed

lemma utf_index_continuation:
  "\<forall>b \<in> set bs. \<not> is_utf_char_start b \<Longrightarrow> utf_index (bs @ rest) n pos = length bs + utf_index rest n pos"
  by (induction bs) auto

lemma utf_index_encoded:
  "n \<le> pos \<Longrightarrow> utf_index (concat (map code_point_to_utf8 cs)) n pos
   = length (concat (map code_point_to_utf8 (take (pos - n) cs)))"
proof (induction cs arbitrary: n)
  case (Cons c cs)
  obtain b bs where c: "code_point_to_utf8 c = b # bs" "is_utf_char_start b" "\<forall>b \<in> set bs. \<not> is_utf_char_start b"
    by (rule encoded_shape)
  show ?case
  proof (cases "n = pos")
    case False
    then have "pos - n = Suc (pos - Suc n)"
      using Cons.prems by simp
    then show ?thesis
      using Cons False c by (simp add: utf_index_continuation)
  qed (simp add: c)
qed simp

lemma utf_length_encoded: "utf_length (concat (map code_point_to_utf8 cs)) = length cs"
proof (induction cs)
  case (Cons c cs)
  obtain b bs where "code_point_to_utf8 c = b # bs" "is_utf_char_start b" "\<forall>b \<in> set bs. \<not> is_utf_char_start b"
    by (rule encoded_shape)
  with Cons show ?case
    by (simp add: utf_length_def filter_empty_conv)
qed (simp add: utf_length_def)


section \<open>UTF-16\<close>

definition utf16_units :: "u32 \<Rightarrow> u16 list" where
  "utf16_units c =
     (if c < 0x10000 then [ucast c]
      else [0xD800 + ucast ((c - 0x10000) div 0x400), 0xDC00 + ucast ((c - 0x10000) mod 0x400)])"

lemma byte_swapper_twice: "byte_swapper (byte_swapper v) = v"
proof -
  have m: "(0x00FF :: u16) = mask 8" "(0xFF00 :: u16) = push_bit 8 (mask 8)"
    by (simp_all add: mask_eq_exp_minus_1 push_bit_eq_mult)
  show ?thesis
    unfolding byte_swapper_def m by (intro bit_word_eqI) (auto simp: bit_simps)
qed

lemma surrogate_units:
  assumes "0x10000 \<le> c" "c < 0x110000"
  shows "\<exists>high low. utf16_units c = [high, low] \<and> is_utf16_high_surrogate high \<and> is_utf16_low_surrogate low
    \<and> 0x10000 + push_bit 10 (ucast high AND 0x03FF) + (ucast low AND 0x03FF) = c"
proof -
  define u where "u = unat c - 0x10000"
  have u: "u < 0x100000" "unat c = 0x10000 + u"
    using assms by (auto simp: u_def word_less_nat_alt word_le_nat_alt)
  have d: "unat (c - 0x10000) = u"
    using assms by (simp add: unat_sub u_def)
  define h l :: u16 where hl: "h = 0xD800 + ucast ((c - 0x10000) div 0x400)" "l = 0xDC00 + ucast ((c - 0x10000) mod 0x400)"
  have "u div 0x400 < 0x400" "u mod 0x400 < 0x400"
    using u by simp_all
  then have h: "unat h = 0xD800 + u div 0x400" "unat l = 0xDC00 + u mod 0x400"
    by (simp_all add: hl unat_word_ariths unsigned_ucast_eq take_bit_eq_mod [where 'a = nat] unat_div unat_mod d)
  have a: "unat (ucast w AND 0x03FF :: u32) = unat w mod 0x400" for w :: u16
  proof -
    have m: "(0x03FF :: u32) = mask 10"
      by (simp add: mask_eq_exp_minus_1)
    have "unat (ucast w :: u32) = unat w"
      using unsigned_less [of w, where 'a = nat] by (simp add: unsigned_ucast_eq take_bit_eq_mod [where 'a = nat])
    then show ?thesis
      unfolding m by (simp add: unsigned_take_bit_eq take_bit_eq_mod [where 'a = nat] flip: take_bit_eq_mask)
  qed
  have r: "(0xD800 + q) mod 0x400 = q" "(0xDC00 + q) mod 0x400 = q" if "q < 0x400" for q :: nat
    using that mod_mult_self1 [of q 54 "0x400"] mod_mult_self1 [of q 55 "0x400"] by (simp_all add: add.commute)
  have "u div 0x400 < 0x400"
    using u by simp
  then have "unat (0x10000 + push_bit 10 (ucast h AND 0x03FF) + (ucast l AND 0x03FF) :: u32) = unat c"
    using u by (simp add: push_bit_eq_mult unat_word_ariths a h r)
  then have "0x10000 + push_bit 10 (ucast h AND 0x03FF) + (ucast l AND 0x03FF) = c"
    by (rule unsigned_word_eqI)
  moreover have "is_utf16_high_surrogate h" "is_utf16_low_surrogate l"
    using u by (simp_all add: is_utf16_high_surrogate_def is_utf16_low_surrogate_def word_le_nat_alt h)
  ultimately show ?thesis
    using assms by (auto simp: utf16_units_def simp flip: hl)
qed

lemma utf16_step:
  assumes "scalar_value c" "\<And>v. swap (swap v) = v"
  shows "utf16_to_code_point (map swap (utf16_units c) @ rest) swap = Inr (rest, c)"
proof (cases "c < 0x10000")
  case True
  have u: "unat (ucast c :: u16) = unat c"
    using True by (simp add: unsigned_ucast_eq take_bit_eq_mod [where 'a = nat] word_less_nat_alt)
  have "unat (ucast (ucast c :: u16) :: u32) = unat c"
    using True by (simp add: unsigned_take_bit_eq unsigned_ucast_eq take_bit_eq_mod [where 'a = nat] word_less_nat_alt)
  then have "ucast (ucast c :: u16) = c"
    by (rule unsigned_word_eqI)
  moreover have "\<not> is_utf16_high_surrogate (ucast c)"
    using assms(1) by (auto simp: is_utf16_high_surrogate_def scalar_value_def word_le_nat_alt word_less_nat_alt u)
  ultimately show ?thesis
    using True assms(2) by (simp add: utf16_units_def utf16_to_code_point_def Let_def)
next
  case False
  then have "0x10000 \<le> c" "c < 0x110000"
    using assms(1) by (auto simp: scalar_value_def word_le_nat_alt word_less_nat_alt)
  from surrogate_units [OF this] obtain high low where
    hl: "utf16_units c = [high, low]" "is_utf16_high_surrogate high" "is_utf16_low_surrogate low"
      "0x10000 + push_bit 10 (ucast high AND 0x03FF) + (ucast low AND 0x03FF) = c"
    by blast
  have "\<not> (low < 0xDC00 \<or> 0xDFFF < low)"
    using hl(3) by (auto simp: is_utf16_low_surrogate_def)
  then show ?thesis
    using hl assms(2) by (simp add: utf16_to_code_point_def Let_def)
qed

text \<open>
  C35. Text in UTF-16, in the byte order of the host or the other one, is converted back to its code points; and
  the conversion of any sequence of code units, well formed or not, ends and asserts nothing.
\<close>

theorem utf16_round_trip:
  assumes "list_all scalar_value cs" "swap \<in> {nop_swapper, byte_swapper}"
  shows "utf16_to_code_points (map swap (concat (map utf16_units cs))) swap = Inr cs
         \<and> (\<exists>out. utf16_to_code_points src swap = Inr out)"
proof
  have swap: "swap (swap v) = v" for v
    using assms(2) byte_swapper_twice by (auto simp: nop_swapper_def)
  show "utf16_to_code_points (map swap (concat (map utf16_units cs))) swap = Inr cs"
    using assms(1)
  proof (induction cs)
    case (Cons c cs)
    have "utf16_units c \<noteq> []"
      by (simp add: utf16_units_def)
    with Cons show ?case
      using utf16_step [of c swap, OF _ swap] by (subst utf16_to_code_points.simps) (simp add: rbind_def)
  qed (simp add: utf16_to_code_points.simps)
  show "\<exists>out. utf16_to_code_points src swap = Inr out"
  proof (induction src swap rule: utf16_to_code_points.induct)
    case (1 src swapper)
    show ?case
    proof (cases src)
      case (Cons c src')
      then have "\<exists>rest cp. utf16_to_code_point src swapper = Inr (rest, cp)"
        by (cases src') (auto simp: utf16_to_code_point_def Let_def cong: if_cong)
      then obtain rest cp where r: "utf16_to_code_point src swapper = Inr (rest, cp)"
        by blast
      obtain out where "utf16_to_code_points rest swapper = Inr out"
        using 1 [OF _ r refl] Cons by blast
      then show ?thesis
        using Cons r by (subst utf16_to_code_points.simps) (simp add: rbind_def)
    qed (simp add: utf16_to_code_points.simps)
  qed
qed

theorem utf16_round_trip_witness:
  "utf16_to_code_points (map byte_swapper (concat (map utf16_units [0x41, 0x1F600]))) byte_swapper = Inr [0x41, 0x1F600]"
  by (rule conjunct1 [OF utf16_round_trip]) (simp_all add: scalar_value_def)

end
