(* ===== verification/Spec2Isabelle.thy ===== *)
theory Spec2Isabelle
  imports Index_Types Revisions Base32 Uuid Fnv Utf
begin

text \<open>
  \<^bold>\<open>Verification of the pstore data store.\<close>

  pstore is an append-only, memory-mapped, transactional store with persistent indices. A file is a header,
  the data of a sequence of transactions and a trailer for each of them; the file is mapped in regions and
  every access goes through a table of 4 MiB segments. A transaction only appends: it allocates and writes
  objects behind the last trailer, and rolling it back gives the file its former size. An index is a hash
  array mapped trie whose nodes are in the file once they are committed and on the heap while a transaction
  changes them. Around that core the repository has support libraries (integers, text encodings, hashes,
  parsers), a broker, a vacuum, an HTTP server and the command-line tools.

  \<^bold>\<open>Conventions.\<close> C++ integers are words of their width. An operation that can fail is a function
  into \<open>exn + 'a\<close>, one with effects a function into \<open>('s, 'a) sx\<close>, the state and exception monad of
  \<open>Pstore_Prelude\<close>: \<open>Raise\<close> is a store error, \<open>Bad_alloc\<close> an exhausted heap, \<open>Assertion\<close> a failed
  \<^verbatim>\<open>assert\<close> and \<open>Undefined\<close> an access that C++ leaves undefined, so that a theorem about a result also
  says that no assertion fires and no access is out of bounds. Specifications of effectful operations are
  weakest preconditions (\<open>wp\<close>) with a part for every failure.

  \<^bold>\<open>The theories.\<close>

  \<^item> \<open>Pstore_Prelude\<close>: the monad, its reasoning rules, lemmas on words, lists and finite
    checks, the error codes (\<^verbatim>\<open>support/error.hpp\<close>).
  \<^item> \<open>Bit_Count\<close>, \<open>Aligned\<close>, \<open>Address\<close>,
    \<open>Little_Endian\<close>: bit counting, rounding, store addresses
    (\<^verbatim>\<open>support/bit_count.hpp\<close>, \<^verbatim>\<open>support/aligned.hpp\<close>,
    \<^verbatim>\<open>support/round2.hpp\<close>, \<^verbatim>\<open>core/address.hpp\<close>) and the byte
    images of integers: the functions compute the numbers they name, at their width.
  \<^item> \<open>Storage\<close>, \<open>Storage_Access\<close>: regions and the segment address table
    (\<^verbatim>\<open>core/region.hpp\<close>, \<^verbatim>\<open>core/storage.hpp\<close>,
    \<^verbatim>\<open>lib/core/storage.cpp\<close>): the mapped file is one flat sequence of bytes, growing
    keeps every pointer, a copy touches exactly the bytes asked for, protection covers whole pages; and what
    goes wrong after a shrink.
  \<^item> \<open>Crc32\<close>, \<open>File_Header\<close>: the checksum
    (\<^verbatim>\<open>lib/core/crc32.cpp\<close>) and the header and trailer
    (\<^verbatim>\<open>lib/core/file_header.cpp\<close>): the table-driven checksum is polynomial division,
    detects every burst of up to 32 bits, a new store opens and a damaged header is refused.
  \<^item> \<open>Database\<close>, \<open>Transaction\<close>: the database handle and transactions
    (\<^verbatim>\<open>lib/core/database.cpp\<close>, \<^verbatim>\<open>lib/core/transaction.cpp\<close>) over
    the bytes of the file: a transaction appends and changes no earlier byte, rolling it back restores the
    store.
  \<^item> \<open>Array_Stack\<close>, \<open>Hamt_Nodes\<close>, \<open>Hamt_Map\<close>: the index
    (\<^verbatim>\<open>core/array_stack.hpp\<close>, \<^verbatim>\<open>core/hamt_map_types.hpp\<close>,
    \<^verbatim>\<open>lib/core/hamt_map_types.cpp\<close>, \<^verbatim>\<open>core/hamt_map.hpp\<close>): nodes
    on the heap and in the file, insertion, lookup, iteration, flush.
  \<^item> \<open>Hamt_Repr\<close>, \<open>Hamt_Insert\<close>, \<open>Hamt_Insert_Node\<close>,
    \<open>Hamt_Contract\<close>, \<open>Hamt_Iterate\<close>: when a pointer represents a trie
    (\<open>repr\<close>), and that insertion, lookup and iteration of the index implement a finite map, are
    safe when memory runs out and leak nothing. \<open>index_params\<close> is the contract with the key and
    value types, \<open>stored_map\<close> what an index promises.
  \<^item> \<open>Archive\<close>, \<open>Index_Types\<close>: readers, writers and serializers
    (\<^verbatim>\<open>core/db_archive.hpp\<close>, \<^verbatim>\<open>serialize/types.hpp\<close>,
    \<^verbatim>\<open>serialize/standard_types.hpp\<close>) satisfy that contract for the digest and write
    indices (\<^verbatim>\<open>core/index_types.hpp\<close>); the properties of indices are stated here.
  \<^item> \<open>Varint\<close>, \<open>Uint128\<close>, \<open>Base32\<close>, \<open>Uuid\<close>,
    \<open>Fnv\<close>: variable-length integers, 128-bit integers, base 32, identifiers and the FNV-1a hash:
    round trips and equivalence with their definitions on numbers.
  \<^item> \<open>Utf\<close>: UTF-8 and UTF-16 (\<^verbatim>\<open>support/utf.hpp\<close>,
    \<^verbatim>\<open>lib/support/utf.cpp\<close>): the table-driven decoder accepts exactly the encodings of
    scalar values.

  \<^bold>\<open>Loops.\<close> Loops are structural recursions or have a termination proof by a measure on the loop's own
  variables, and no model has fuel, except the client loop over an index (\<open>hamt_walk\<close>): it is a partial function whose
  result is \<open>None\<close> when it does not end, and the property about it shows that it ends.

  \<^bold>\<open>Parameters.\<close> The operating system's memory mapping is an identity for each region; \<open>operator new\<close> is a
  function of the heap that may fail (\<open>allocator\<close>, with \<open>allocator_ok\<close> saying that it returns unused
  addresses); the hash functions of indices and the random generator of identifiers are arguments.
  Each locale is a contract between components and is interpreted on the definitions of the model.

  \<^bold>\<open>Not modelled.\<close> The operating system layer, sockets, pipes, threads and the tools (input and output). The components of the
  repository that are pure computation but not yet in the development are listed in the manifest with the
  reason.
\<close>

end
